(* ===== verification/Prelude.thy ===== *)
theory Prelude
  imports Main "HOL-Library.Word" "HOL-Library.Code_Target_Nat"
begin

text \<open>
  Shared vocabulary of the development: the machine types of the C++ sources, the
  exceptions their constructors raise, results that carry an error, truncating integer
  division, and the generic facts about them that the component theories use.

  Time points and durations of \<open>std::chrono::steady_clock\<close> are nanosecond counts; they are
  modelled by \<open>int\<close> (a signed 64-bit count does not overflow within 292 years).  Unsigned
  epochs and identifiers whose wrap-around the code handles are \<open>64 word\<close>; counters that the
  code keeps below an explicit bound are \<open>nat\<close>.
\<close>

section \<open>Machine types and exceptions\<close>

type_synonym u32 = "32 word"
type_synonym u64 = "64 word"
type_synonym time_point = int
type_synonym duration = int

datatype cpp_error = InvalidArgument | LogicError | OutOfRange | OverflowError | SystemError | RuntimeError

text \<open>The range of a signed 64-bit integer, and the largest unsigned 32-bit and 64-bit values.\<close>

definition int64 :: "int \<Rightarrow> bool" where
  "int64 x \<longleftrightarrow> - (2 ^ 63) \<le> x \<and> x < 2 ^ 63"

abbreviation u32_max :: nat where
  "u32_max \<equiv> 4294967295"

abbreviation u64_max :: nat where
  "u64_max \<equiv> 18446744073709551615"

named_theorems state_defs "definitions of the invariants and observers of component states"
named_theorems step_defs "definitions of the operations of components"

section \<open>Results that carry an error\<close>

text \<open>
  A call that may throw has the result type \<open>'e + 'a\<close>; \<open>res_bind\<close> runs the rest of a block
  unless the call threw, \<open>res_map\<close> is a loop that stops at the first throw.
\<close>

fun res_bind :: "'e + 'a \<Rightarrow> ('a \<Rightarrow> 'e + 'b) \<Rightarrow> 'e + 'b" where
  "res_bind (Inl e) f = Inl e"
| "res_bind (Inr x) f = f x"

fun res_map :: "('a \<Rightarrow> 'e + 'b) \<Rightarrow> 'a list \<Rightarrow> 'e + 'b list" where
  "res_map f [] = Inr []"
| "res_map f (x # xs) = res_bind (f x) (\<lambda>y. res_bind (res_map f xs) (\<lambda>ys. Inr (y # ys)))"

lemma res_bind_Inr_iff [simp]: "res_bind m f = Inr y \<longleftrightarrow> (\<exists>x. m = Inr x \<and> f x = Inr y)"
  by (cases m) simp_all

lemma res_bind_Inl_iff: "res_bind m f = Inl e \<longleftrightarrow> m = Inl e \<or> (\<exists>x. m = Inr x \<and> f x = Inl e)"
  by (cases m) simp_all

lemma res_map_Inr: "res_map f xs = Inr ys \<Longrightarrow> list_all2 (\<lambda>x y. f x = Inr y) xs ys"
  by (induction xs arbitrary: ys) auto

lemma res_map_Inl: "res_map f xs = Inl e \<Longrightarrow> \<exists>x \<in> set xs. f x = Inl e"
  by (induction xs) (auto simp: res_bind_Inl_iff)

section \<open>State and exceptions\<close>

text \<open>
  A member function that changes its object and may throw returns the exception, if any, and
  the state it leaves behind; \<open>then_do\<close> runs the rest of the function unless an exception is
  in flight, \<open>do_all\<close> is a loop over a list.
\<close>

type_synonym 's effect = "cpp_error option \<times> 's"

fun then_do :: "'s effect \<Rightarrow> ('s \<Rightarrow> 's effect) \<Rightarrow> 's effect" where
  "then_do (None, s) f = f s"
| "then_do (Some e, s) f = (Some e, s)"

fun do_all :: "('a \<Rightarrow> 's \<Rightarrow> 's effect) \<Rightarrow> 'a list \<Rightarrow> 's \<Rightarrow> 's effect" where
  "do_all f [] s = (None, s)"
| "do_all f (x # xs) s = then_do (f x s) (do_all f xs)"

lemma then_do_inv: "P (snd m) \<Longrightarrow> (\<And>s. m = (None, s) \<Longrightarrow> P (snd (f s))) \<Longrightarrow> P (snd (then_do m f))"
  by (cases "(m, f)" rule: then_do.cases) auto

lemma do_all_inv: "P s \<Longrightarrow> (\<And>x s. x \<in> set xs \<Longrightarrow> P s \<Longrightarrow> P (snd (f x s))) \<Longrightarrow> P (snd (do_all f xs s))"
proof (induction xs arbitrary: s)
  case (Cons x xs)
  have 1: "P (snd (f x s))" using Cons.prems by simp
  show ?case unfolding do_all.simps
  proof (rule then_do_inv [where P = P])
    show "P (snd (f x s))" by (rule 1)
    fix s' assume "f x s = (None, s')"
    with 1 have "P s'" by simp
    then show "P (snd (do_all f xs s'))" using Cons.IH Cons.prems(2) by simp
  qed
qed simp

section \<open>Truncating division\<close>

text \<open>C++ integer division rounds towards zero.\<close>

definition tdiv :: "int \<Rightarrow> int \<Rightarrow> int" where
  "tdiv a b = sgn a * sgn b * (\<bar>a\<bar> div \<bar>b\<bar>)"

definition tmod :: "int \<Rightarrow> int \<Rightarrow> int" where
  "tmod a b = a - b * tdiv a b"

lemma tdiv_nonneg [simp]: "0 \<le> a \<Longrightarrow> 0 < b \<Longrightarrow> tdiv a b = a div b"
  by (cases "a = 0") (simp_all add: tdiv_def)

lemma tmod_nonneg [simp]: "0 \<le> a \<Longrightarrow> 0 < b \<Longrightarrow> tmod a b = a mod b"
  by (simp add: tmod_def minus_mult_div_eq_mod)

lemma tdiv_neg_le_0: "a < 0 \<Longrightarrow> 0 < b \<Longrightarrow> tdiv a b \<le> 0"
  by (simp add: tdiv_def pos_imp_zdiv_nonneg_iff)

text \<open>Rounding up: \<open>(m + r - 1) / r\<close> is the least number of units of \<open>r\<close> that covers \<open>m\<close>.\<close>

lemma ceil_div_le_iff:
  fixes m r k :: int
  assumes "0 < r"
  shows "(m + r - 1) div r \<le> k \<longleftrightarrow> m \<le> r * k"
proof -
  define q s where "q = (m + r - 1) div r" and "s = (m + r - 1) mod r"
  have eq: "m + r - 1 = r * q + s" by (simp add: q_def s_def)
  have s: "0 \<le> s" "s < r" using assms by (simp_all add: s_def)
  have "q \<le> k \<longleftrightarrow> m \<le> r * k"
  proof
    assume "q \<le> k"
    then have "r * q \<le> r * k" using assms by simp
    with eq s show "m \<le> r * k" by linarith
  next
    assume m: "m \<le> r * k"
    show "q \<le> k"
    proof (rule ccontr)
      assume "\<not> q \<le> k"
      then have "r * (k + 1) \<le> r * q" using assms by simp
      with m eq s show False by (simp add: algebra_simps)
    qed
  qed
  then show ?thesis by (simp add: q_def)
qed

lemma ceil_div_le_iff_nat:
  fixes m r k :: nat
  assumes "0 < r"
  shows "(m + r - 1) div r \<le> k \<longleftrightarrow> m \<le> r * k"
proof -
  have "int ((m + r - 1) div r) = (int m + int r - 1) div int r"
    using assms by (simp add: zdiv_int of_nat_diff)
  then have "(m + r - 1) div r \<le> k \<longleftrightarrow> int m \<le> int r * int k"
    using ceil_div_le_iff [of "int r" "int m" "int k"] assms by linarith
  then show ?thesis by (simp flip: of_nat_mult)
qed

end
