(* ===== verification/Ascii.thy ===== *)
theory Ascii
  imports Prelude
begin

text \<open>
  Text as the sources treat it: a \<open>std::string\<close> is a list of bytes (\<open>char list\<close>), character
  classes are ASCII ranges, \<open>find\<close> and \<open>substr\<close> follow \<open>std::string_view\<close>, and decimal
  parsing follows \<open>std::from_chars\<close> on an unsigned type.
\<close>

section \<open>Character classes and case folding\<close>

abbreviation code_of :: "char \<Rightarrow> nat" where
  "code_of c \<equiv> of_char c"

definition is_digit :: "char \<Rightarrow> bool" where
  "is_digit c \<longleftrightarrow> 48 \<le> code_of c \<and> code_of c \<le> 57"

definition is_upper :: "char \<Rightarrow> bool" where
  "is_upper c \<longleftrightarrow> 65 \<le> code_of c \<and> code_of c \<le> 90"

definition is_lower :: "char \<Rightarrow> bool" where
  "is_lower c \<longleftrightarrow> 97 \<le> code_of c \<and> code_of c \<le> 122"

definition lower_char :: "char \<Rightarrow> char" where
  "lower_char c = (if is_upper c then char_of (code_of c - 65 + 97) else c)"

definition LowerAscii :: "string \<Rightarrow> string" where
  "LowerAscii value = map lower_char value"

abbreviation CR :: char where "CR \<equiv> CHR 0x0D"
abbreviation LF :: char where "LF \<equiv> CHR 0x0A"
abbreviation CRLF :: string where "CRLF \<equiv> [CR, LF]"

lemma code_lower_char: "is_upper c \<Longrightarrow> code_of (lower_char c) = code_of c + 32"
  by (simp add: lower_char_def is_upper_def of_char_of)

lemma is_upper_lower_char [simp]: "\<not> is_upper (lower_char c)"
  by (cases "is_upper c") (auto simp: code_lower_char is_upper_def lower_char_def)

lemma lower_char_idem [simp]: "lower_char (lower_char c) = lower_char c"
  using is_upper_lower_char [of c] by (simp add: lower_char_def [of "lower_char c"])

lemma LowerAscii_idem [simp]: "LowerAscii (LowerAscii s) = LowerAscii s"
  by (simp add: LowerAscii_def)

lemma length_LowerAscii [simp]: "length (LowerAscii s) = length s"
  by (simp add: LowerAscii_def)

lemma lower_char_eq_iff:
  "\<not> is_lower d \<Longrightarrow> \<not> is_upper d \<Longrightarrow> lower_char c = d \<longleftrightarrow> c = d"
  using code_lower_char [of c]
  by (cases "is_upper c") (auto simp: is_lower_def is_upper_def lower_char_def)

section \<open>Searching\<close>

text \<open>\<open>find\<close>, with \<open>None\<close> for \<open>npos\<close>.\<close>

definition find_char :: "char \<Rightarrow> string \<Rightarrow> nat option" where
  "find_char c s = (if c \<in> set s then Some (length (takeWhile (\<lambda>x. x \<noteq> c) s)) else None)"

definition find_char_from :: "char \<Rightarrow> nat \<Rightarrow> string \<Rightarrow> nat option" where
  "find_char_from c pos s = map_option (\<lambda>i. pos + i) (find_char c (drop pos s))"

fun find_sub :: "string \<Rightarrow> string \<Rightarrow> nat option" where
  "find_sub pat [] = (if pat = [] then Some 0 else None)"
| "find_sub pat (c # s) =
     (if take (length pat) (c # s) = pat then Some 0 else map_option Suc (find_sub pat s))"

definition starts_with :: "string \<Rightarrow> string \<Rightarrow> bool" where
  "starts_with s pat \<longleftrightarrow> take (length pat) s = pat"

lemma find_char_None_iff [simp]: "find_char c s = None \<longleftrightarrow> c \<notin> set s"
  by (simp add: find_char_def)

lemma find_char_Some:
  assumes "find_char c s = Some i"
  shows "i < length s \<and> s ! i = c \<and> c \<notin> set (take i s)"
proof -
  let ?t = "takeWhile (\<lambda>x. x \<noteq> c) s"
  from assms have mem: "c \<in> set s" and i: "i = length ?t"
    by (auto simp: find_char_def split: if_splits)
  then have lt: "i < length s"
    by (metis (mono_tags, lifting) length_takeWhile_le nat_less_le takeWhile_eq_all_conv
        takeWhile_eq_take take_all_iff)
  moreover from lt i have "s ! i = c" using nth_length_takeWhile [of "\<lambda>x. x \<noteq> c" s] by simp
  moreover have "take i s = ?t" using i by (metis takeWhile_eq_take)
  then have "c \<notin> set (take i s)" by (metis set_takeWhileD)
  ultimately show ?thesis by simp
qed

lemma find_char_append: "c \<notin> set xs \<Longrightarrow> find_char c (xs @ c # ys) = Some (length xs)"
proof -
  assume "c \<notin> set xs"
  then have "takeWhile (\<lambda>x. x \<noteq> c) (xs @ c # ys) = xs" by (induction xs) auto
  then show ?thesis by (simp add: find_char_def)
qed

lemma find_sub_Some:
  "find_sub pat s = Some i \<Longrightarrow> i + length pat \<le> length s \<and> take (length pat) (drop i s) = pat"
proof (induction s arbitrary: i)
  case (Cons c s)
  show ?case
  proof (cases "take (length pat) (c # s) = pat")
    case True
    then have "length pat \<le> length (c # s)" by (metis length_take min.cobounded1)
    with True Cons.prems show ?thesis by simp
  next
    case False
    with Cons show ?thesis by (auto split: if_splits)
  qed
qed (simp split: if_splits)

text \<open>Bytes appended to the text do not move the first occurrence.\<close>

lemma find_sub_append:
  "find_sub pat s = Some i \<Longrightarrow> find_sub pat (s @ t) = Some i"
proof (induction s arbitrary: i)
  case Nil
  then show ?case by (cases t) (auto split: if_splits)
next
  case (Cons c s)
  show ?case
  proof (cases "take (length pat) (c # s) = pat")
    case True
    then have "length pat \<le> length (c # s)" by (metis length_take min.cobounded1)
    then have "take (length pat) ((c # s) @ t) = take (length pat) (c # s)"
      by (metis append_Nil2 diff_is_0_eq take_0 take_append)
    with True Cons.prems show ?thesis by simp
  next
    case False
    with Cons.prems obtain j where j: "find_sub pat s = Some j" and i: "i = Suc j" by auto
    have "take (length pat) (c # (s @ t)) \<noteq> pat"
    proof
      assume a: "take (length pat) (c # (s @ t)) = pat"
      have "length pat \<le> length s" using find_sub_Some [OF j] by simp
      then have "take (length pat) (c # (s @ t)) = take (length pat) (c # s)"
        by (metis Cons_eq_appendI append_Nil2 diff_is_0_eq le_SucI length_Cons take_0 take_append)
      with a False show False by simp
    qed
    with Cons.IH [OF j] i show ?thesis by simp
  qed
qed

lemma find_sub_first:
  "find_sub pat s = Some i \<Longrightarrow> j < i \<Longrightarrow> take (length pat) (drop j s) \<noteq> pat"
proof (induction s arbitrary: i j)
  case (Cons c s)
  then show ?case by (cases j) (auto split: if_splits)
qed (simp split: if_splits)

section \<open>Decimal numbers\<close>

definition digit_value :: "char \<Rightarrow> nat" where
  "digit_value c = code_of c - 48"

definition digits_value :: "string \<Rightarrow> nat" where
  "digits_value ds = foldl (\<lambda>acc c. acc * 10 + digit_value c) 0 ds"

text \<open>
  \<open>std::from_chars\<close> on an unsigned type with largest value \<open>limit\<close>: the longest digit prefix,
  its value and the number of characters consumed; \<open>None\<close> when there is no digit or the
  value does not fit.
\<close>

definition from_chars :: "nat \<Rightarrow> string \<Rightarrow> (nat \<times> nat) option" where
  "from_chars limit s =
     (let ds = takeWhile is_digit s; v = digits_value ds
      in if ds = [] \<or> v > limit then None else Some (v, length ds))"

lemma from_chars_digits:
  "list_all is_digit s \<Longrightarrow> s \<noteq> [] \<Longrightarrow>
   from_chars limit s = (if digits_value s \<le> limit then Some (digits_value s, length s) else None)"
proof -
  assume a: "list_all is_digit s" and "s \<noteq> []"
  then have "takeWhile is_digit s = s" by (simp add: list_all_iff takeWhile_eq_all_conv)
  with \<open>s \<noteq> []\<close> show ?thesis
    by (simp add: from_chars_def Let_def not_less del: takeWhile_eq_all_conv)
qed

text \<open>Printing a natural number, as \<open>std::to_string\<close> does.\<close>

definition digit_char :: "nat \<Rightarrow> char" where
  "digit_char d = char_of (48 + d)"

function to_string :: "nat \<Rightarrow> string" where
  "to_string n = (if n < 10 then [digit_char n] else to_string (n div 10) @ [digit_char (n mod 10)])"
  by pat_completeness auto
termination by (relation "measure id") auto

declare to_string.simps [simp del]

lemma digit_char_props: "d < 10 \<Longrightarrow> is_digit (digit_char d) \<and> digit_value (digit_char d) = d"
  by (simp add: digit_char_def is_digit_def digit_value_def of_char_of)

lemma to_string_digits: "list_all is_digit (to_string n)"
proof (induction n rule: to_string.induct)
  case (1 n)
  then show ?case using digit_char_props [of n] digit_char_props [of "n mod 10"]
    by (subst to_string.simps) simp
qed

lemma to_string_nonempty [simp]: "to_string n \<noteq> []"
  by (subst to_string.simps) simp

lemma digits_value_to_string [simp]: "digits_value (to_string n) = n"
proof (induction n rule: to_string.induct)
  case (1 n)
  then show ?case using digit_char_props [of n] digit_char_props [of "n mod 10"]
    by (subst to_string.simps) (simp add: digits_value_def)
qed

lemma from_chars_to_string: "n \<le> limit \<Longrightarrow> from_chars limit (to_string n) = Some (n, length (to_string n))"
  by (simp add: from_chars_digits to_string_digits)

end
