(* ===== verification/ConfigModel.thy ===== *)
theory ConfigModel
  imports Ascii
begin

text \<open>
  The configuration values (\<open>Config.h\<close>) and the strict schema parser (\<open>Config.cpp\<close>).  The
  YAML library is a parameter: a record of the accessors that the parser calls on a node,
  with \<open>None\<close> for a thrown \<open>YAML::Exception\<close>.  The theorems show that every accepted
  configuration satisfies the invariants the run-time components rely on, for every
  behaviour of the library.
\<close>

section \<open>Configuration values\<close>

record endpoint =
  ep_host :: string
  ep_address :: "nat list"
  ep_port :: nat
  ep_weight :: nat

record circuit_breaker_settings =
  window_seconds :: nat
  min_requests :: nat
  failure_threshold_permille :: nat
  open_seconds :: nat
  half_open_probes :: nat

record health_check_settings =
  interval_ms :: nat
  timeout_ms :: nat

datatype balance_policy = kWeightedRoundRobin | kLeastActive

record route =
  rt_name :: string
  rt_host :: string
  rt_path_prefix :: string
  rt_endpoints :: "endpoint list"
  rt_rate_limit :: nat
  rt_burst :: nat
  rt_max_inflight :: nat
  rt_connect_timeout_ms :: nat
  rt_first_byte_timeout_ms :: nat
  rt_total_timeout_ms :: nat
  rt_retry_budget :: nat
  rt_circuit_breaker :: "circuit_breaker_settings option"
  rt_health_check :: "health_check_settings option"
  rt_balance :: balance_policy

record config =
  cfg_routes :: "route list"
  cfg_workers :: nat

text \<open>The constructor's default arguments.\<close>

definition Route_new :: "string \<Rightarrow> string \<Rightarrow> string \<Rightarrow> endpoint list \<Rightarrow> nat \<Rightarrow> nat \<Rightarrow> nat \<Rightarrow> route" where
  "Route_new name host path_prefix endpoints rate_limit burst max_inflight =
     \<lparr>rt_name = name, rt_host = host, rt_path_prefix = path_prefix, rt_endpoints = endpoints,
      rt_rate_limit = rate_limit, rt_burst = burst, rt_max_inflight = max_inflight,
      rt_connect_timeout_ms = 5000, rt_first_byte_timeout_ms = 5000,
      rt_total_timeout_ms = 30000, rt_retry_budget = 1,
      rt_circuit_breaker = None, rt_health_check = None, rt_balance = kWeightedRoundRobin\<rparr>"

section \<open>The YAML library\<close>

record 'n yaml =
  yaml_load :: "string \<Rightarrow> 'n option"
  yaml_defined :: "'n \<Rightarrow> bool"
  yaml_is_scalar :: "'n \<Rightarrow> bool"
  yaml_is_map :: "'n \<Rightarrow> bool"
  yaml_is_sequence :: "'n \<Rightarrow> bool"
  yaml_as_string :: "'n \<Rightarrow> string option"
  yaml_entries :: "'n \<Rightarrow> ('n \<times> 'n) list"
  yaml_elements :: "'n \<Rightarrow> 'n list"

section \<open>Scalars\<close>

abbreviation Invalid :: "cpp_error + 'a" where
  "Invalid \<equiv> Inl InvalidArgument"

definition RequireString :: "'n yaml \<Rightarrow> 'n \<Rightarrow> cpp_error + string" where
  "RequireString y node =
     (if \<not> yaml_defined y node \<or> \<not> yaml_is_scalar y node then Invalid
      else case yaml_as_string y node of
             None \<Rightarrow> Invalid
           | Some value \<Rightarrow> if value = [] then Invalid else Inr value)"

definition RequirePositiveUnsigned :: "'n yaml \<Rightarrow> 'n \<Rightarrow> nat \<Rightarrow> cpp_error + nat" where
  "RequirePositiveUnsigned y node maximum =
     res_bind (RequireString y node) (\<lambda>value.
       if \<not> list_all is_digit value then Invalid
       else case from_chars u64_max value of
              None \<Rightarrow> Invalid
            | Some (parsed, used) \<Rightarrow>
                if used \<noteq> length value \<or> parsed = 0 \<or> parsed > maximum then Invalid
                else Inr parsed)"

definition RequireRetryBudget :: "'n yaml \<Rightarrow> 'n \<Rightarrow> cpp_error + nat" where
  "RequireRetryBudget y node =
     res_bind (RequireString y node) (\<lambda>value.
       if value \<noteq> ''0'' \<and> value \<noteq> ''1'' then Invalid
       else Inr (digit_value (value ! 0)))"

definition IsDecimalPort :: "string \<Rightarrow> bool" where
  "IsDecimalPort value =
     (if value = [] \<or> \<not> list_all is_digit value then False
      else case from_chars u64_max value of
             None \<Rightarrow> False
           | Some (port, used) \<Rightarrow> used = length value \<and> port \<ge> 1 \<and> port \<le> 65535)"

definition is_host_char :: "char \<Rightarrow> bool" where
  "is_host_char c \<longleftrightarrow> is_upper c \<or> is_lower c \<or> is_digit c \<or> c = CHR ''-'' \<or> c = CHR ''.''"

definition IsValidHostName :: "string \<Rightarrow> bool" where
  "IsValidHostName host =
     (if host = [] \<or> hd host = CHR ''.'' \<or> last host = CHR ''.'' then False
      else list_all is_host_char host)"

definition IsValidRouteHost :: "string \<Rightarrow> bool" where
  "IsValidRouteHost host =
     (if host = [] \<or> length host > 253 \<or> find_char (CHR ''['') host \<noteq> None
         \<or> find_char (CHR '']'') host \<noteq> None then False
      else case find_char (CHR '':'') host of
             Some colon \<Rightarrow>
               if find_char_from (CHR '':'') (colon + 1) host \<noteq> None
                  \<or> \<not> IsDecimalPort (drop (colon + 1) host) then False
               else IsValidHostName (take colon host)
           | None \<Rightarrow> IsValidHostName host)"

fun ParseNumericIpv4_from :: "string \<Rightarrow> nat \<Rightarrow> nat \<Rightarrow> nat list \<Rightarrow> nat list option" where
  "ParseNumericIpv4_from host start 0 address = None"
| "ParseNumericIpv4_from host start (Suc left) address =
     (let stop = find_char_from (CHR ''.'') start host;
          part = (case stop of None \<Rightarrow> drop start host | Some e \<Rightarrow> take (e - start) (drop start host))
      in if part = [] \<or> length part > 3 \<or> \<not> list_all is_digit part then None
         else case from_chars u32_max part of
                None \<Rightarrow> None
              | Some (value, used) \<Rightarrow>
                  if used \<noteq> length part \<or> value > 255 then None
                  else if left = 0 then (if stop = None then Some (address @ [value]) else None)
                  else case stop of
                         None \<Rightarrow> None
                       | Some e \<Rightarrow> ParseNumericIpv4_from host (e + 1) left (address @ [value]))"

definition ParseNumericIpv4 :: "string \<Rightarrow> nat list option" where
  "ParseNumericIpv4 host = ParseNumericIpv4_from host 0 4 []"

definition IsHexDigit :: "char \<Rightarrow> bool" where
  "IsHexDigit c \<longleftrightarrow> is_digit c \<or> (65 \<le> code_of c \<and> code_of c \<le> 70) \<or> (97 \<le> code_of c \<and> code_of c \<le> 102)"

definition IsUnreserved :: "char \<Rightarrow> bool" where
  "IsUnreserved c \<longleftrightarrow> is_upper c \<or> is_lower c \<or> is_digit c \<or> c \<in> set ''-._~''"

definition IsSubDelimiter :: "char \<Rightarrow> bool" where
  "IsSubDelimiter c \<longleftrightarrow> c \<in> set [CHR ''!'', CHR ''$'', CHR ''&'', CHR 0x27, CHR ''('', CHR '')'',
     CHR ''*'', CHR ''+'', CHR '','', CHR '';'', CHR ''='']"

definition is_path_char :: "char \<Rightarrow> bool" where
  "is_path_char c \<longleftrightarrow> IsUnreserved c \<or> IsSubDelimiter c \<or> c = CHR '':'' \<or> c = CHR ''@'' \<or> c = CHR ''/''"

fun path_chars_ok :: "string \<Rightarrow> bool" where
  "path_chars_ok [] = True"
| "path_chars_ok (c # cs) =
     (if is_path_char c then path_chars_ok cs
      else if c \<noteq> CHR ''%'' then False
      else case cs of
             h1 # h2 # rest \<Rightarrow>
               if \<not> IsHexDigit h1 \<or> \<not> IsHexDigit h2 then False else path_chars_ok rest
           | _ \<Rightarrow> False)"

definition IsValidPathPrefix :: "string \<Rightarrow> bool" where
  "IsValidPathPrefix prefix =
     (if prefix = [] \<or> hd prefix \<noteq> CHR ''/'' then False else path_chars_ok prefix)"

definition ParseThresholdPermille :: "'n yaml \<Rightarrow> 'n \<Rightarrow> cpp_error + nat" where
  "ParseThresholdPermille y node =
     res_bind (RequireString y node) (\<lambda>value.
       if length value < 3 \<or> value ! 0 \<noteq> CHR ''0'' \<or> value ! 1 \<noteq> CHR ''.'' then Invalid
       else let fraction = drop 2 value in
         if fraction = [] \<or> length fraction > 3 \<or> \<not> list_all is_digit fraction then Invalid
         else let permille = foldl (\<lambda>acc c. acc * 10 + digit_value c) 0 fraction;
                  padded = ((\<lambda>p. p * 10) ^^ (3 - length fraction)) permille
              in if padded = 0 \<or> padded > 999 then Invalid else Inr padded)"

section \<open>Objects\<close>

fun ReadEntries ::
    "'n yaml \<Rightarrow> string list \<Rightarrow> ('n \<times> 'n) list \<Rightarrow> (string \<times> 'n) list \<Rightarrow> cpp_error + (string \<times> 'n) list" where
  "ReadEntries y allowed [] members = Inr members"
| "ReadEntries y allowed ((k, v) # entries) members =
     (if \<not> yaml_is_scalar y k then Invalid
      else case yaml_as_string y k of
             None \<Rightarrow> Invalid
           | Some key \<Rightarrow>
               if key \<notin> set allowed then Invalid
               else if map_of members key \<noteq> None then Invalid
               else ReadEntries y allowed entries ((key, v) # members))"

definition ReadObject :: "'n yaml \<Rightarrow> 'n \<Rightarrow> string list \<Rightarrow> cpp_error + (string \<times> 'n) list" where
  "ReadObject y node allowed =
     (if \<not> yaml_defined y node \<or> \<not> yaml_is_map y node then Invalid
      else ReadEntries y allowed (yaml_entries y node) [])"

definition RequireField :: "(string \<times> 'n) list \<Rightarrow> string \<Rightarrow> cpp_error + 'n" where
  "RequireField members field =
     (case map_of members field of None \<Rightarrow> Invalid | Some node \<Rightarrow> Inr node)"

definition RequirePositiveField ::
    "'n yaml \<Rightarrow> (string \<times> 'n) list \<Rightarrow> string \<Rightarrow> nat \<Rightarrow> cpp_error + nat" where
  "RequirePositiveField y members field maximum =
     res_bind (RequireField members field) (\<lambda>node. RequirePositiveUnsigned y node maximum)"

definition RequireStringField :: "'n yaml \<Rightarrow> (string \<times> 'n) list \<Rightarrow> string \<Rightarrow> cpp_error + string" where
  "RequireStringField y members field = res_bind (RequireField members field) (RequireString y)"

definition ParseCircuitBreaker :: "'n yaml \<Rightarrow> 'n \<Rightarrow> cpp_error + circuit_breaker_settings" where
  "ParseCircuitBreaker y node =
     res_bind (ReadObject y node
       [''window_seconds'', ''min_requests'', ''failure_threshold'', ''open_seconds'',
        ''half_open_probes'']) (\<lambda>members.
     res_bind (RequirePositiveField y members ''window_seconds'' u32_max) (\<lambda>window.
     res_bind (RequirePositiveField y members ''min_requests'' u32_max) (\<lambda>minimum.
     res_bind (res_bind (RequireField members ''failure_threshold'') (ParseThresholdPermille y)) (\<lambda>permille.
     res_bind (RequirePositiveField y members ''open_seconds'' u32_max) (\<lambda>opens.
     res_bind (RequirePositiveField y members ''half_open_probes'' u32_max) (\<lambda>probes.
       Inr \<lparr>window_seconds = window, min_requests = minimum,
            failure_threshold_permille = permille, open_seconds = opens,
            half_open_probes = probes\<rparr>))))))"

definition ParseHealthCheck :: "'n yaml \<Rightarrow> 'n \<Rightarrow> cpp_error + health_check_settings" where
  "ParseHealthCheck y node =
     res_bind (ReadObject y node [''interval_ms'', ''timeout_ms'']) (\<lambda>members.
     res_bind (RequirePositiveField y members ''interval_ms'' u32_max) (\<lambda>interval.
     res_bind (RequirePositiveField y members ''timeout_ms'' u32_max) (\<lambda>timeout.
       Inr \<lparr>interval_ms = interval, timeout_ms = timeout\<rparr>)))"

definition ParseEndpoint :: "'n yaml \<Rightarrow> 'n \<Rightarrow> cpp_error + endpoint" where
  "ParseEndpoint y node =
     res_bind (ReadObject y node [''host'', ''port'', ''weight'']) (\<lambda>members.
     res_bind (RequireStringField y members ''host'') (\<lambda>host.
     res_bind (RequirePositiveField y members ''port'' 65535) (\<lambda>port.
     res_bind (RequirePositiveField y members ''weight'' u32_max) (\<lambda>weight.
       case ParseNumericIpv4 host of
         None \<Rightarrow> Invalid
       | Some address \<Rightarrow>
           Inr \<lparr>ep_host = host, ep_address = address, ep_port = port mod 65536, ep_weight = weight\<rparr>))))"

definition optional_positive ::
    "'n yaml \<Rightarrow> (string \<times> 'n) list \<Rightarrow> string \<Rightarrow> nat \<Rightarrow> cpp_error + nat" where
  "optional_positive y members field fallback =
     (case map_of members field of
        None \<Rightarrow> Inr fallback
      | Some node \<Rightarrow> RequirePositiveUnsigned y node u32_max)"

definition optional_field :: "(string \<times> 'n) list \<Rightarrow> string \<Rightarrow> 'a \<Rightarrow> ('n \<Rightarrow> cpp_error + 'a) \<Rightarrow> cpp_error + 'a" where
  "optional_field members field fallback parse =
     (case map_of members field of None \<Rightarrow> Inr fallback | Some node \<Rightarrow> parse node)"

definition ParseBalance :: "'n yaml \<Rightarrow> 'n \<Rightarrow> cpp_error + balance_policy" where
  "ParseBalance y node =
     res_bind (RequireString y node) (\<lambda>value.
       if value = ''weighted_round_robin'' then Inr kWeightedRoundRobin
       else if value = ''least_active'' then Inr kLeastActive
       else Invalid)"

fun has_duplicate_endpoint :: "endpoint list \<Rightarrow> bool" where
  "has_duplicate_endpoint [] = False"
| "has_duplicate_endpoint (e # es) =
     ((\<exists>e' \<in> set es. ep_address e = ep_address e' \<and> ep_port e = ep_port e')
      \<or> has_duplicate_endpoint es)"

definition ParseRouteEndpoints :: "'n yaml \<Rightarrow> (string \<times> 'n) list \<Rightarrow> cpp_error + endpoint list" where
  "ParseRouteEndpoints y members =
     res_bind (RequireField members ''endpoints'') (\<lambda>node.
       if \<not> yaml_is_sequence y node \<or> length (yaml_elements y node) = 0 then Invalid
       else res_bind (res_map (ParseEndpoint y) (yaml_elements y node)) (\<lambda>endpoints.
         if has_duplicate_endpoint endpoints then Invalid else Inr endpoints))"

definition ParseRoute :: "'n yaml \<Rightarrow> 'n \<Rightarrow> cpp_error + route" where
  "ParseRoute y node =
     res_bind (ReadObject y node
       [''name'', ''host'', ''path_prefix'', ''endpoints'', ''rate_limit'', ''burst'',
        ''max_inflight'', ''connect_timeout_ms'', ''first_byte_timeout_ms'',
        ''total_timeout_ms'', ''retry_budget'', ''circuit_breaker'', ''health_check'',
        ''balance'']) (\<lambda>members.
     res_bind (RequireStringField y members ''name'') (\<lambda>name.
     res_bind (RequireStringField y members ''host'') (\<lambda>host.
     res_bind (RequireStringField y members ''path_prefix'') (\<lambda>path_prefix.
     res_bind (RequirePositiveField y members ''rate_limit'' u32_max) (\<lambda>rate_limit.
     res_bind (RequirePositiveField y members ''burst'' u32_max) (\<lambda>burst.
     res_bind (RequirePositiveField y members ''max_inflight'' u32_max) (\<lambda>max_inflight.
     let route = Route_new name host path_prefix [] rate_limit burst max_inflight in
     res_bind (optional_positive y members ''connect_timeout_ms'' (rt_connect_timeout_ms route)) (\<lambda>connect.
     res_bind (optional_positive y members ''first_byte_timeout_ms'' (rt_first_byte_timeout_ms route)) (\<lambda>first_byte.
     res_bind (optional_positive y members ''total_timeout_ms'' (rt_total_timeout_ms route)) (\<lambda>total.
     res_bind (optional_field members ''retry_budget'' (rt_retry_budget route) (RequireRetryBudget y)) (\<lambda>retry.
     res_bind (optional_field members ''circuit_breaker'' None
       (\<lambda>n. res_bind (ParseCircuitBreaker y n) (\<lambda>s. Inr (Some s)))) (\<lambda>breaker.
     res_bind (optional_field members ''health_check'' None
       (\<lambda>n. res_bind (ParseHealthCheck y n) (\<lambda>s. Inr (Some s)))) (\<lambda>health.
     res_bind (optional_field members ''balance'' (rt_balance route) (ParseBalance y)) (\<lambda>balance.
     if \<not> IsValidRouteHost host then Invalid
     else if \<not> IsValidPathPrefix path_prefix then Invalid
     else res_bind (ParseRouteEndpoints y members) (\<lambda>endpoints.
       Inr (route\<lparr>rt_endpoints := endpoints, rt_connect_timeout_ms := connect,
         rt_first_byte_timeout_ms := first_byte, rt_total_timeout_ms := total,
         rt_retry_budget := retry, rt_circuit_breaker := breaker,
         rt_health_check := health, rt_balance := balance\<rparr>))))))))))))))))"

section \<open>The document\<close>

definition match_key :: "route \<Rightarrow> string" where
  "match_key route = LowerAscii (rt_host route) @ [LF] @ rt_path_prefix route"

fun LoadRoutes ::
    "'n yaml \<Rightarrow> 'n list \<Rightarrow> string list \<Rightarrow> string list \<Rightarrow> route list \<Rightarrow> cpp_error + route list" where
  "LoadRoutes y [] names match_keys routes = Inr routes"
| "LoadRoutes y (node # nodes) names match_keys routes =
     res_bind (ParseRoute y node) (\<lambda>route.
       if rt_name route \<in> set names then Invalid
       else if match_key route \<in> set match_keys then Invalid
       else LoadRoutes y nodes (rt_name route # names) (match_key route # match_keys)
              (routes @ [route]))"

definition LoadFromYaml :: "'n yaml \<Rightarrow> string \<Rightarrow> cpp_error + config" where
  "LoadFromYaml y text =
     (case yaml_load y text of
        None \<Rightarrow> Invalid
      | Some document \<Rightarrow>
          res_bind (ReadObject y document [''routes'', ''workers'']) (\<lambda>top_level.
          res_bind (RequireField top_level ''routes'') (\<lambda>routes.
            if \<not> yaml_is_sequence y routes \<or> length (yaml_elements y routes) = 0 then Invalid
            else res_bind (case map_of top_level ''workers'' of
                             None \<Rightarrow> Inr 1
                           | Some worker \<Rightarrow> RequirePositiveUnsigned y worker 1024) (\<lambda>workers.
              res_bind (LoadRoutes y (yaml_elements y routes) [] [] []) (\<lambda>rs.
                Inr \<lparr>cfg_routes = rs, cfg_workers = workers\<rparr>)))))"

section \<open>What an accepted configuration guarantees\<close>

definition u32_positive :: "nat \<Rightarrow> bool" where
  "u32_positive n \<longleftrightarrow> 0 < n \<and> n \<le> u32_max"

definition endpoint_valid :: "endpoint \<Rightarrow> bool" where
  "endpoint_valid e \<longleftrightarrow>
     length (ep_address e) = 4 \<and> list_all (\<lambda>b. b \<le> 255) (ep_address e)
     \<and> ParseNumericIpv4 (ep_host e) = Some (ep_address e)
     \<and> 0 < ep_port e \<and> ep_port e \<le> 65535 \<and> u32_positive (ep_weight e)"

definition breaker_settings_valid :: "circuit_breaker_settings \<Rightarrow> bool" where
  "breaker_settings_valid s \<longleftrightarrow>
     u32_positive (window_seconds s) \<and> u32_positive (min_requests s)
     \<and> 0 < failure_threshold_permille s \<and> failure_threshold_permille s \<le> 999
     \<and> u32_positive (open_seconds s) \<and> u32_positive (half_open_probes s)"

definition health_settings_valid :: "health_check_settings \<Rightarrow> bool" where
  "health_settings_valid s \<longleftrightarrow> u32_positive (interval_ms s) \<and> u32_positive (timeout_ms s)"

definition route_valid :: "route \<Rightarrow> bool" where
  "route_valid r \<longleftrightarrow>
     rt_name r \<noteq> [] \<and> IsValidRouteHost (rt_host r) \<and> IsValidPathPrefix (rt_path_prefix r)
     \<and> rt_endpoints r \<noteq> [] \<and> list_all endpoint_valid (rt_endpoints r)
     \<and> distinct (map (\<lambda>e. (ep_address e, ep_port e)) (rt_endpoints r))
     \<and> u32_positive (rt_rate_limit r) \<and> u32_positive (rt_burst r) \<and> u32_positive (rt_max_inflight r)
     \<and> u32_positive (rt_connect_timeout_ms r) \<and> u32_positive (rt_first_byte_timeout_ms r)
     \<and> u32_positive (rt_total_timeout_ms r) \<and> rt_retry_budget r \<le> 1
     \<and> (case rt_circuit_breaker r of None \<Rightarrow> True | Some s \<Rightarrow> breaker_settings_valid s)
     \<and> (case rt_health_check r of None \<Rightarrow> True | Some s \<Rightarrow> health_settings_valid s)"

definition config_valid :: "config \<Rightarrow> bool" where
  "config_valid c \<longleftrightarrow>
     cfg_routes c \<noteq> [] \<and> list_all route_valid (cfg_routes c)
     \<and> distinct (map rt_name (cfg_routes c))
     \<and> distinct (map (\<lambda>r. (LowerAscii (rt_host r), rt_path_prefix r)) (cfg_routes c))
     \<and> 0 < cfg_workers c \<and> cfg_workers c \<le> 1024"

lemmas parser_defs =
  RequireStringField_def RequirePositiveField_def RequireField_def optional_positive_def
  optional_field_def

lemma RequireString_nonempty: "RequireString y node = Inr s \<Longrightarrow> s \<noteq> []"
  by (auto simp: RequireString_def split: if_splits option.splits)

lemma RequirePositiveUnsigned_range:
  "RequirePositiveUnsigned y node m = Inr v \<Longrightarrow> 0 < v \<and> v \<le> m"
  by (auto simp: RequirePositiveUnsigned_def split: if_splits option.splits)

lemma RequirePositiveField_range:
  "RequirePositiveField y members field m = Inr v \<Longrightarrow> 0 < v \<and> v \<le> m"
  by (auto simp: RequirePositiveField_def dest: RequirePositiveUnsigned_range)

lemma RequirePositiveField_u32: "RequirePositiveField y members field u32_max = Inr v \<Longrightarrow> u32_positive v"
  using RequirePositiveField_range unfolding u32_positive_def by blast

lemma optional_positive_u32:
  "optional_positive y members field fallback = Inr v \<Longrightarrow> u32_positive fallback \<Longrightarrow> u32_positive v"
  using RequirePositiveUnsigned_range [of y _ u32_max v]
  by (auto simp: optional_positive_def u32_positive_def split: option.splits)

lemma optional_positive_defaults:
  "optional_positive y members field 5000 = Inr v \<Longrightarrow> u32_positive v"
  "optional_positive y members field 30000 = Inr v \<Longrightarrow> u32_positive v"
  using optional_positive_u32 by (fastforce simp: u32_positive_def)+

lemma RequireStringField_nonempty: "RequireStringField y members field = Inr s \<Longrightarrow> s \<noteq> []"
  by (auto simp: RequireStringField_def dest: RequireString_nonempty)

lemma ParseNumericIpv4_from_bytes:
  "ParseNumericIpv4_from host start left address = Some a \<Longrightarrow> list_all (\<lambda>b. b \<le> 255) address \<Longrightarrow>
   length a = length address + left \<and> list_all (\<lambda>b. b \<le> 255) a"
proof (induction host start left address rule: ParseNumericIpv4_from.induct)
  case (2 host start left address)
  then show ?case
    by (auto simp: Let_def split: if_splits option.splits prod.splits)
qed simp

lemma ParseNumericIpv4_bytes:
  "ParseNumericIpv4 host = Some a \<Longrightarrow> length a = 4 \<and> list_all (\<lambda>b. b \<le> 255) a"
  unfolding ParseNumericIpv4_def using ParseNumericIpv4_from_bytes by fastforce

lemma ParseEndpoint_valid:
  assumes "ParseEndpoint y node = Inr e"
  shows "endpoint_valid e"
proof -
  from assms obtain members host port weight address
    where "RequirePositiveField y members ''port'' 65535 = Inr port"
      and "RequirePositiveField y members ''weight'' u32_max = Inr weight"
      and "ParseNumericIpv4 host = Some address"
      and "e = \<lparr>ep_host = host, ep_address = address, ep_port = port mod 65536, ep_weight = weight\<rparr>"
    by (auto simp: ParseEndpoint_def split: option.splits)
  then show ?thesis
    using RequirePositiveField_range [of y members "''port''" 65535 port]
      RequirePositiveField_u32 [of y members "''weight''" weight] ParseNumericIpv4_bytes [of host address]
    by (simp add: endpoint_valid_def)
qed

lemma ParseThresholdPermille_range:
  "ParseThresholdPermille y node = Inr p \<Longrightarrow> 0 < p \<and> p \<le> 999"
  by (auto simp: ParseThresholdPermille_def Let_def split: if_splits)

lemma ParseCircuitBreaker_valid: "ParseCircuitBreaker y node = Inr s \<Longrightarrow> breaker_settings_valid s"
  unfolding ParseCircuitBreaker_def breaker_settings_valid_def
  by (auto dest: RequirePositiveField_u32 ParseThresholdPermille_range)

lemma ParseHealthCheck_valid: "ParseHealthCheck y node = Inr s \<Longrightarrow> health_settings_valid s"
  unfolding ParseHealthCheck_def health_settings_valid_def by (auto dest: RequirePositiveField_u32)

lemma has_duplicate_endpoint_iff:
  "has_duplicate_endpoint es \<longleftrightarrow> \<not> distinct (map (\<lambda>e. (ep_address e, ep_port e)) es)"
  by (induction es) auto

lemma ParseRouteEndpoints_valid:
  "ParseRouteEndpoints y members = Inr es \<Longrightarrow>
   es \<noteq> [] \<and> list_all endpoint_valid es \<and> distinct (map (\<lambda>e. (ep_address e, ep_port e)) es)"
  by (auto simp: ParseRouteEndpoints_def has_duplicate_endpoint_iff list_all_iff
      list_all2_conv_all_nth in_set_conv_nth dest!: res_map_Inr split: if_splits)
    (metis ParseEndpoint_valid)

lemma RequireRetryBudget_range: "RequireRetryBudget y node = Inr b \<Longrightarrow> b \<le> 1"
  by (auto simp: RequireRetryBudget_def digit_value_def split: if_splits)

lemma optional_field_cases:
  "optional_field members field fallback parse = Inr v \<Longrightarrow> P fallback \<Longrightarrow>
   (\<And>n v. parse n = Inr v \<Longrightarrow> P v) \<Longrightarrow> P v"
  by (auto simp: optional_field_def split: option.splits)

lemma optional_breaker_valid:
  "optional_field members field None (\<lambda>n. res_bind (ParseCircuitBreaker y n) (\<lambda>s. Inr (Some s))) = Inr v
   \<Longrightarrow> (case v of None \<Rightarrow> True | Some s \<Rightarrow> breaker_settings_valid s)"
  by (erule optional_field_cases) (auto simp: ParseCircuitBreaker_valid)

lemma optional_health_valid:
  "optional_field members field None (\<lambda>n. res_bind (ParseHealthCheck y n) (\<lambda>s. Inr (Some s))) = Inr v
   \<Longrightarrow> (case v of None \<Rightarrow> True | Some s \<Rightarrow> health_settings_valid s)"
  by (erule optional_field_cases) (auto simp: ParseHealthCheck_valid)

lemma optional_retry_range:
  "optional_field members field (Suc 0) (RequireRetryBudget y) = Inr v \<Longrightarrow> v \<le> Suc 0"
  by (erule optional_field_cases) (auto dest: RequireRetryBudget_range)

lemma ParseRoute_valid: "ParseRoute y node = Inr r \<Longrightarrow> route_valid r"
  unfolding ParseRoute_def Route_new_def Let_def
  by (auto simp: route_valid_def split: if_splits
      dest: RequireStringField_nonempty RequirePositiveField_u32 ParseRouteEndpoints_valid
        optional_positive_defaults optional_breaker_valid optional_health_valid optional_retry_range)

text \<open>
  The key that detects duplicate routes is injective on valid hosts: a host cannot contain
  the line feed that separates it from the prefix.
\<close>

lemma valid_host_no_LF: "IsValidRouteHost h \<Longrightarrow> LF \<notin> set h"
proof -
  have host: "LF \<notin> set h" if "IsValidHostName h" for h
    using that by (auto simp: IsValidHostName_def list_all_iff is_host_char_def is_upper_def
        is_lower_def is_digit_def split: if_splits)
  assume v: "IsValidRouteHost h"
  show ?thesis
  proof (cases "find_char (CHR '':'') h")
    case None
    then have "IsValidHostName h"
      using v by (auto simp: IsValidRouteHost_def find_char_def split: if_splits)
    with host show ?thesis .
  next
    case (Some colon)
    have "h = take colon h @ CHR '':'' # drop (colon + 1) h"
      using find_char_Some [OF Some] id_take_nth_drop [of colon h] by simp
    then have split: "set h = set (take colon h) \<union> {CHR '':''} \<union> set (drop (colon + 1) h)"
      using set_append [of "take colon h" "CHR '':'' # drop (colon + 1) h"] by simp
    from v Some have "IsValidHostName (take colon h)" and port: "IsDecimalPort (drop (colon + 1) h)"
      by (auto simp: IsValidRouteHost_def split: if_splits)
    moreover from port have "LF \<notin> set (drop (colon + 1) h)"
      by (auto simp: IsDecimalPort_def list_all_iff is_digit_def split: if_splits)
    ultimately show ?thesis using host split by auto
  qed
qed

lemma lower_char_LF: "lower_char c = LF \<Longrightarrow> c = LF"
  using lower_char_eq_iff [of LF c] by (simp add: is_lower_def is_upper_def)

lemma LowerAscii_no_LF: "LF \<notin> set h \<Longrightarrow> LF \<notin> set (LowerAscii h)"
  unfolding LowerAscii_def set_map image_iff using lower_char_LF by metis

lemma match_key_eq_iff:
  assumes "IsValidRouteHost (rt_host r)" "IsValidRouteHost (rt_host r')"
  shows "match_key r = match_key r' \<longleftrightarrow>
    LowerAscii (rt_host r) = LowerAscii (rt_host r') \<and> rt_path_prefix r = rt_path_prefix r'"
proof
  have pos: "find_char LF (match_key r) = Some (length (rt_host r))"
    if "IsValidRouteHost (rt_host r)" for r
    using find_char_append [OF LowerAscii_no_LF [OF valid_host_no_LF [OF that]]]
    by (simp add: match_key_def)
  assume eq: "match_key r = match_key r'"
  then have "length (rt_host r) = length (rt_host r')"
    using pos [OF assms(1)] pos [OF assms(2)] by simp
  with eq show "LowerAscii (rt_host r) = LowerAscii (rt_host r') \<and> rt_path_prefix r = rt_path_prefix r'"
    by (simp add: match_key_def)
qed (simp add: match_key_def)

lemma LoadRoutes_valid:
  assumes "LoadRoutes y nodes names keys rs = Inr rs'"
    and "list_all route_valid rs" and "distinct (map rt_name rs)" and "distinct (map match_key rs)"
    and "set names = set (map rt_name rs)" and "set keys = set (map match_key rs)"
  shows "list_all route_valid rs' \<and> distinct (map rt_name rs') \<and> distinct (map match_key rs')
    \<and> length rs' = length rs + length nodes"
  using assms
proof (induction y nodes names keys rs rule: LoadRoutes.induct)
  case (2 y node nodes names keys rs)
  from "2.prems"(1) obtain r where r: "ParseRoute y node = Inr r"
    and fresh: "rt_name r \<notin> set names" "match_key r \<notin> set keys"
    and rest: "LoadRoutes y nodes (rt_name r # names) (match_key r # keys) (rs @ [r]) = Inr rs'"
    by (auto split: if_splits)
  from "2.IH" [OF fresh rest] fresh "2.prems" ParseRoute_valid [OF r] show ?case by simp
qed simp

lemma distinct_match_keys:
  "list_all route_valid rs \<Longrightarrow> distinct (map match_key rs) \<Longrightarrow>
   distinct (map (\<lambda>r. (LowerAscii (rt_host r), rt_path_prefix r)) rs)"
  by (auto simp: distinct_map inj_on_def list_all_iff match_key_eq_iff route_valid_def)

text \<open>
   C1. Every configuration that \<open>LoadFromYaml\<close> accepts is valid, whatever the YAML library
  returns: there is at least one route; route names and (case-folded host, prefix) pairs are
  unique; every limit, timeout, weight and breaker parameter is a positive 32-bit value; the
  failure threshold is within 1..999 permille; every route has at least one endpoint, with
  four address bytes and a non-zero port, no two of them with the same address and port; and
  the worker count is within 1..1024.
\<close>

theorem LoadFromYaml_valid:
  assumes "LoadFromYaml y text = Inr c"
  shows "config_valid c"
proof -
  from assms obtain nodes rs where nodes: "length nodes \<noteq> 0"
    and rs: "LoadRoutes y nodes [] [] [] = Inr rs" and c: "cfg_routes c = rs"
    and w: "0 < cfg_workers c \<and> cfg_workers c \<le> 1024"
    by (fastforce simp: LoadFromYaml_def dest: RequirePositiveUnsigned_range
        split: option.splits if_splits)
  from LoadRoutes_valid [OF rs] nodes w distinct_match_keys [of rs] show ?thesis
    by (auto simp: config_valid_def c)
qed

text \<open>
  A concrete YAML node type and document: one route with two endpoints, a breaker and a
  least-active policy, and four workers.
\<close>

datatype sample_node = YScalar string | YSeq "sample_node list" | YMap "(string \<times> sample_node) list"

fun sample_as_string :: "sample_node \<Rightarrow> string option" where
  "sample_as_string (YScalar s) = Some s"
| "sample_as_string _ = None"

fun sample_entries :: "sample_node \<Rightarrow> (sample_node \<times> sample_node) list" where
  "sample_entries (YMap es) = map (\<lambda>(k, v). (YScalar k, v)) es"
| "sample_entries _ = []"

fun sample_elements :: "sample_node \<Rightarrow> sample_node list" where
  "sample_elements (YSeq ns) = ns"
| "sample_elements _ = []"

fun is_YMap :: "sample_node \<Rightarrow> bool" where
  "is_YMap (YMap _) = True"
| "is_YMap _ = False"

fun is_YSeq :: "sample_node \<Rightarrow> bool" where
  "is_YSeq (YSeq _) = True"
| "is_YSeq _ = False"

definition sample_document :: sample_node where
  "sample_document =
     YMap [(''workers'', YScalar ''4''),
       (''routes'', YSeq [YMap [
          (''name'', YScalar ''api''), (''host'', YScalar ''Example.com:80''),
          (''path_prefix'', YScalar ''/a%2F''),
          (''endpoints'', YSeq [
             YMap [(''host'', YScalar ''10.0.0.1''), (''port'', YScalar ''80''), (''weight'', YScalar ''2'')],
             YMap [(''host'', YScalar ''10.0.0.2''), (''port'', YScalar ''80''), (''weight'', YScalar ''1'')]]),
          (''rate_limit'', YScalar ''100''), (''burst'', YScalar ''10''), (''max_inflight'', YScalar ''5''),
          (''circuit_breaker'', YMap [
             (''window_seconds'', YScalar ''10''), (''min_requests'', YScalar ''5''),
             (''failure_threshold'', YScalar ''0.5''), (''open_seconds'', YScalar ''3''),
             (''half_open_probes'', YScalar ''2'')]),
          (''balance'', YScalar ''least_active'')]])]"

definition sample_yaml :: "sample_node yaml" where
  "sample_yaml =
     \<lparr>yaml_load = (\<lambda>text. if text = ''doc'' then Some sample_document else None),
      yaml_defined = (\<lambda>_. True), yaml_is_scalar = (\<lambda>n. sample_as_string n \<noteq> None),
      yaml_is_map = is_YMap, yaml_is_sequence = is_YSeq, yaml_as_string = sample_as_string,
      yaml_entries = sample_entries, yaml_elements = sample_elements\<rparr>"

definition sample_config :: config where
  "sample_config =
     \<lparr>cfg_routes = [
        (Route_new ''api'' ''Example.com:80'' ''/a%2F''
           [\<lparr>ep_host = ''10.0.0.1'', ep_address = [10, 0, 0, 1], ep_port = 80, ep_weight = 2\<rparr>,
            \<lparr>ep_host = ''10.0.0.2'', ep_address = [10, 0, 0, 2], ep_port = 80, ep_weight = 1\<rparr>]
           100 10 5)
        \<lparr>rt_circuit_breaker := Some \<lparr>window_seconds = 10, min_requests = 5,
           failure_threshold_permille = 500, open_seconds = 3, half_open_probes = 2\<rparr>,
         rt_balance := kLeastActive\<rparr>],
      cfg_workers = 4\<rparr>"

lemma sample_loads: "LoadFromYaml sample_yaml ''doc'' = Inr sample_config"
  by code_simp

theorem LoadFromYaml_valid_witness:
  "LoadFromYaml sample_yaml ''doc'' = Inr sample_config \<and> config_valid sample_config"
  using LoadFromYaml_valid [OF sample_loads] sample_loads by simp

section \<open>Dotted addresses and fractions\<close>

definition ipv4_part :: "string \<Rightarrow> bool" where
  "ipv4_part p \<longleftrightarrow> p \<noteq> [] \<and> length p \<le> 3 \<and> list_all is_digit p \<and> digits_value p \<le> 255"

fun dotted :: "string list \<Rightarrow> string" where
  "dotted [] = []"
| "dotted [p] = p"
| "dotted (p # ps) = p @ CHR ''.'' # dotted ps"

lemma ipv4_part_no_dot: "ipv4_part p \<Longrightarrow> CHR ''.'' \<notin> set p"
  by (auto simp: ipv4_part_def list_all_iff is_digit_def)

lemma takeWhile_no_dot: "CHR ''.'' \<notin> set p \<Longrightarrow> takeWhile (\<lambda>c. c \<noteq> CHR ''.'') (p @ CHR ''.'' # s) = p"
  by (induction p) auto

lemma split_at_dot:
  assumes "CHR ''.'' \<in> set s"
  defines "p \<equiv> takeWhile (\<lambda>c. c \<noteq> CHR ''.'') s"
  shows "s = p @ CHR ''.'' # drop (length p + 1) s"
proof -
  from assms(1) obtain ys zs where s: "s = ys @ CHR ''.'' # zs" and "CHR ''.'' \<notin> set ys"
    by (meson split_list_first)
  then have "p = ys" unfolding p_def s by (intro takeWhile_no_dot)
  then show ?thesis by (simp add: s)
qed

lemma ParseNumericIpv4_from_step:
  fixes host :: string
  defines "part \<equiv> \<lambda>start. takeWhile (\<lambda>c. c \<noteq> CHR ''.'') (drop start host)"
  shows "ParseNumericIpv4_from host start (Suc left) address =
    (if \<not> ipv4_part (part start) then None
     else if left = 0 then
       (if CHR ''.'' \<notin> set (drop start host) then Some (address @ [digits_value (part start)]) else None)
     else if CHR ''.'' \<notin> set (drop start host) then None
     else ParseNumericIpv4_from host (start + length (part start) + 1) left
            (address @ [digits_value (part start)]))"
proof -
  let ?s = "drop start host"
  have none: "CHR ''.'' \<notin> set ?s \<Longrightarrow> takeWhile (\<lambda>c. c \<noteq> CHR ''.'') ?s = ?s"
    by (auto simp: takeWhile_eq_all_conv)
  have take: "take (length (takeWhile P xs)) xs = takeWhile P xs" for P and xs :: string
    by (metis takeWhile_eq_take)
  have chars: "ds \<noteq> [] \<Longrightarrow> list_all is_digit ds \<Longrightarrow> from_chars u32_max ds =
      (if digits_value ds \<le> u32_max then Some (digits_value ds, length ds) else None)" for ds
    by (rule from_chars_digits)
  show ?thesis
    by (cases "CHR ''.'' \<in> set ?s")
      (auto simp: part_def find_char_from_def find_char_def Let_def ipv4_part_def take none chars
        simp del: takeWhile_eq_all_conv)
qed

lemma ParseNumericIpv4_from_iff:
  "ParseNumericIpv4_from host start (Suc left) address = Some a \<longleftrightarrow>
   (\<exists>parts. length parts = Suc left \<and> list_all ipv4_part parts \<and> drop start host = dotted parts
      \<and> a = address @ map digits_value parts)"
proof (induction left arbitrary: start address)
  case 0
  let ?s = "drop start host"
  have all: "takeWhile (\<lambda>c. c \<noteq> CHR ''.'') ?s = ?s" if "CHR ''.'' \<notin> set ?s"
    using that by (auto simp: takeWhile_eq_all_conv)
  have one: "(\<exists>parts. length parts = Suc 0 \<and> Q parts) \<longleftrightarrow> (\<exists>p. Q [p])" for Q :: "string list \<Rightarrow> bool"
    by (auto simp: length_Suc_conv)
  have "ParseNumericIpv4_from host start (Suc 0) address = Some a \<longleftrightarrow>
      ipv4_part ?s \<and> CHR ''.'' \<notin> set ?s \<and> a = address @ [digits_value ?s]"
    unfolding ParseNumericIpv4_from_step by (cases "CHR ''.'' \<in> set ?s") (auto simp: all)
  then show ?case unfolding one using ipv4_part_no_dot by auto
next
  case (Suc left)
  let ?s = "drop start host"
  define p where "p = takeWhile (\<lambda>c. c \<noteq> CHR ''.'') ?s"
  define rest where "rest = drop (start + length p + 1) host"
  have split: "?s = p @ CHR ''.'' # rest" if "CHR ''.'' \<in> set ?s"
    using split_at_dot [OF that] by (simp add: p_def rest_def add.commute add.left_commute)
  have step: "ParseNumericIpv4_from host start (Suc (Suc left)) address = Some a \<longleftrightarrow>
      ipv4_part p \<and> CHR ''.'' \<in> set ?s \<and>
      ParseNumericIpv4_from host (start + length p + 1) (Suc left) (address @ [digits_value p]) = Some a"
    unfolding ParseNumericIpv4_from_step [of host start "Suc left"] p_def by auto
  have heads: "p = q \<and> rest = dotted qs \<and> CHR ''.'' \<in> set ?s"
    if "?s = dotted (q # qs)" "ipv4_part q" "qs \<noteq> []" for q qs
  proof -
    have s: "?s = q @ CHR ''.'' # dotted qs" using that by (cases qs) simp_all
    then have "p = q" using takeWhile_no_dot [OF ipv4_part_no_dot [OF that(2)]] by (simp add: p_def)
    moreover have "CHR ''.'' \<in> set ?s" using s by simp
    ultimately show ?thesis using s split by simp
  qed
  show ?case unfolding step Suc.IH rest_def [symmetric]
  proof
    assume "ipv4_part p \<and> CHR ''.'' \<in> set ?s \<and> (\<exists>parts. length parts = Suc left \<and>
      list_all ipv4_part parts \<and> rest = dotted parts \<and>
      a = (address @ [digits_value p]) @ map digits_value parts)"
    then obtain parts where "length parts = Suc left" "list_all ipv4_part parts" "rest = dotted parts"
      "a = (address @ [digits_value p]) @ map digits_value parts" "ipv4_part p" "CHR ''.'' \<in> set ?s" by blast
    with split show "\<exists>parts. length parts = Suc (Suc left) \<and> list_all ipv4_part parts \<and>
      ?s = dotted parts \<and> a = address @ map digits_value parts"
      by (intro exI [of _ "p # parts"]) (cases parts; simp)
  next
    assume "\<exists>parts. length parts = Suc (Suc left) \<and> list_all ipv4_part parts \<and>
      ?s = dotted parts \<and> a = address @ map digits_value parts"
    then obtain parts where parts: "length parts = Suc (Suc left)" "list_all ipv4_part parts"
      "?s = dotted parts" "a = address @ map digits_value parts" by blast
    then obtain q qs where eq: "parts = q # qs" by (cases parts) auto
    from parts have q: "length qs = Suc left" "list_all ipv4_part qs" "ipv4_part q"
      "?s = dotted (q # qs)" "a = address @ digits_value q # map digits_value qs"
      by (simp_all only: eq) simp_all
    then have "p = q \<and> rest = dotted qs \<and> CHR ''.'' \<in> set ?s" by (intro heads) auto
    with q show "ipv4_part p \<and> CHR ''.'' \<in> set ?s \<and> (\<exists>parts. length parts = Suc left \<and>
      list_all ipv4_part parts \<and> rest = dotted parts \<and>
      a = (address @ [digits_value p]) @ map digits_value parts)" by auto
  qed
qed

text \<open>
   C2. \<open>ParseNumericIpv4\<close> accepts exactly the strings made of four dot-separated groups of
  one to three decimal digits, each of value at most 255, and returns their values in order;
  so no host name, no shortened form and no trailing text is ever taken for an address.
\<close>

theorem ParseNumericIpv4_iff:
  "ParseNumericIpv4 host = Some a \<longleftrightarrow>
   (\<exists>p1 p2 p3 p4. list_all ipv4_part [p1, p2, p3, p4]
      \<and> host = p1 @ ''.'' @ p2 @ ''.'' @ p3 @ ''.'' @ p4
      \<and> a = [digits_value p1, digits_value p2, digits_value p3, digits_value p4])"
proof -
  have four: "(\<exists>parts. length parts = Suc 3 \<and> Q parts) \<longleftrightarrow> (\<exists>p1 p2 p3 p4. Q [p1, p2, p3, p4])"
    for Q :: "string list \<Rightarrow> bool"
  proof
    assume "\<exists>parts. length parts = Suc 3 \<and> Q parts"
    then show "\<exists>p1 p2 p3 p4. Q [p1, p2, p3, p4]" by (auto simp: length_Suc_conv numeral_3_eq_3)
  next
    assume "\<exists>p1 p2 p3 p4. Q [p1, p2, p3, p4]"
    then obtain p1 p2 p3 p4 where "Q [p1, p2, p3, p4]" by blast
    then show "\<exists>parts. length parts = Suc 3 \<and> Q parts" by (intro exI [of _ "[p1, p2, p3, p4]"]) simp
  qed
  show ?thesis
    using ParseNumericIpv4_from_iff [of host 0 3 "[]" a] unfolding ParseNumericIpv4_def four
    by simp
qed

text \<open>
   C3. The failure threshold is exact: an accepted fraction \<open>0.d\<close> with one to three digits
  becomes the permille value of that fraction, without rounding.
\<close>

theorem ParseThresholdPermille_exact:
  assumes "ParseThresholdPermille y node = Inr permille" and "RequireString y node = Inr str"
  shows "\<exists>ds. str = ''0.'' @ ds \<and> 1 \<le> length ds \<and> length ds \<le> 3 \<and> list_all is_digit ds
    \<and> permille * 10 ^ length ds = 1000 * digits_value ds \<and> 0 < permille \<and> permille < 1000"
proof -
  let ?ds = "drop 2 str"
  have pad: "((\<lambda>p. p * 10) ^^ n) m = m * 10 ^ n" for n m :: nat
    by (induction n) simp_all
  from assms have len: "3 \<le> length str" "length ?ds \<le> 3" and chars: "str ! 0 = CHR ''0''" "str ! 1 = CHR ''.''"
    and digits: "list_all is_digit ?ds" and range: "0 < permille" "permille \<le> 999"
    and p: "permille = digits_value ?ds * 10 ^ (3 - length ?ds)"
    by (auto simp: ParseThresholdPermille_def Let_def pad digits_value_def split: if_splits)
  have "str = ''0.'' @ ?ds"
    using len(1) chars by (cases str; cases "tl str") auto
  moreover have "permille * 10 ^ length ?ds = 1000 * digits_value ?ds"
    using p len(2) power_add [of "10::nat" "3 - length ?ds" "length ?ds"] by simp
  ultimately show ?thesis using len digits range by (intro exI [of _ ?ds]) auto
qed

theorem ParseThresholdPermille_exact_witness:
  "\<exists>ds. ''0.25'' = ''0.'' @ ds \<and> 1 \<le> length ds \<and> length ds \<le> 3 \<and> list_all is_digit ds
    \<and> 250 * 10 ^ length ds = 1000 * digits_value ds \<and> 0 < (250 :: nat) \<and> (250 :: nat) < 1000"
proof -
  have "ParseThresholdPermille sample_yaml (YScalar ''0.25'') = Inr 250"
    and "RequireString sample_yaml (YScalar ''0.25'') = Inr ''0.25''"
    by code_simp+
  then show ?thesis by (rule ParseThresholdPermille_exact)
qed

end
