(* ===== verification/Reservations.thy ===== *)
theory Reservations
  imports Prelude
begin

text \<open>
  The move-only RAII guards of the code base.  \<open>InflightLimiter::Reservation\<close>,
  \<open>GlobalAdmission::Reservation\<close> and \<open>ActiveReservation\<close> share one protocol: a guard holds
  a weak pointer to a shared counter; \<open>Release\<close> locks and resets the pointer and gives one
  slot back if the counter is still alive; move-assignment releases the destination first;
  the destructor releases.  This theory has the protocol over an arbitrary counter, the
  contract a counter must meet (a locale), and the accounting theorems that follow: the
  counter always equals the number of guards that hold a slot.
\<close>

section \<open>Guards over a shared counter\<close>

record 's guarded =
  shared :: "'s option"
  held :: "bool list"

datatype guard_op = GAcquire nat | GMove nat nat | GRelease nat | GDropState

definition guard_release :: "('s \<Rightarrow> 's) \<Rightarrow> nat \<Rightarrow> 's guarded \<Rightarrow> 's guarded" where
  "guard_release rel i g =
     (if i < length (held g) \<and> held g ! i
      then g\<lparr>shared := map_option rel (shared g), held := (held g)[i := False]\<rparr>
      else g)"

definition guard_move :: "('s \<Rightarrow> 's) \<Rightarrow> nat \<Rightarrow> nat \<Rightarrow> 's guarded \<Rightarrow> 's guarded" where
  "guard_move rel d s g =
     (if d = s \<or> length (held g) \<le> d \<or> length (held g) \<le> s then g
      else let g1 = guard_release rel d g
           in g1\<lparr>held := (held g1)[d := held g1 ! s, s := False]\<rparr>)"

text \<open>
  \<open>slot = counter.Acquire()\<close>: the acquisition comes first, then the move-assignment releases
  what the slot held.  A destroyed owner cannot be asked for a slot.
\<close>

definition guard_acquire ::
    "('s \<Rightarrow> bool \<times> 's) \<Rightarrow> ('s \<Rightarrow> 's) \<Rightarrow> nat \<Rightarrow> 's guarded \<Rightarrow> 's guarded" where
  "guard_acquire acq rel i g =
     (case shared g of
        None \<Rightarrow> g
      | Some s \<Rightarrow>
          if length (held g) \<le> i then g
          else let (ok, s') = acq s;
                   g1 = guard_release rel i (g\<lparr>shared := Some s'\<rparr>)
               in g1\<lparr>held := (held g1)[i := ok]\<rparr>)"

fun guard_step ::
    "('s \<Rightarrow> bool \<times> 's) \<Rightarrow> ('s \<Rightarrow> 's) \<Rightarrow> guard_op \<Rightarrow> 's guarded \<Rightarrow> 's guarded" where
  "guard_step acq rel (GAcquire i) g = guard_acquire acq rel i g"
| "guard_step acq rel (GMove d s) g = guard_move rel d s g"
| "guard_step acq rel (GRelease i) g = guard_release rel i g"
| "guard_step acq rel GDropState g = g\<lparr>shared := None\<rparr>"

definition guard_run ::
    "('s \<Rightarrow> bool \<times> 's) \<Rightarrow> ('s \<Rightarrow> 's) \<Rightarrow> guard_op list \<Rightarrow> 's guarded \<Rightarrow> 's guarded" where
  "guard_run acq rel ops g = fold (guard_step acq rel) ops g"

definition guards_init :: "nat \<Rightarrow> 's \<Rightarrow> 's guarded" where
  "guards_init n s = \<lparr>shared = Some s, held = replicate n False\<rparr>"

definition held_count :: "'s guarded \<Rightarrow> nat" where
  "held_count g = count_list (held g) True"

lemma count_list_update_True:
  "i < length hs \<Longrightarrow>
   count_list (hs[i := b]) True + of_bool (hs ! i) = count_list hs True + of_bool b"
proof (induction hs arbitrary: i)
  case (Cons h hs)
  then show ?case by (cases i) auto
qed simp

lemma held_nth_count_pos: "i < length hs \<Longrightarrow> hs ! i \<Longrightarrow> 0 < count_list hs True"
  by (metis count_list_0_iff gr0I nth_mem)

lemma held_count_init [simp]: "held_count (guards_init n s) = 0"
  by (simp add: held_count_def guards_init_def count_list_0_iff)

lemma held_length_guard_release [simp]: "length (held (guard_release rel i g)) = length (held g)"
  by (simp add: guard_release_def)

lemma held_length_guard_step [simp]:
  "length (held (guard_step acq rel op g)) = length (held g)"
  by (cases op) (auto simp: guard_move_def guard_acquire_def Let_def split: option.split prod.split)

lemma held_length_guard_run [simp]:
  "length (held (guard_run acq rel ops g)) = length (held g)"
  unfolding guard_run_def by (induction ops arbitrary: g) simp_all

lemma guard_acquire_shared:
  "shared (guard_acquire acq rel i g) = shared g
   \<or> (\<exists>s. shared g = Some s
        \<and> shared (guard_acquire acq rel i g)
          = shared (guard_release rel i (g\<lparr>shared := Some (snd (acq s))\<rparr>)))"
  by (auto simp: guard_acquire_def Let_def split: option.splits prod.splits)

section \<open>The contract of a counter\<close>

text \<open>
  \<open>cap\<close> is the largest value the counter can hold: the configured maximum of a limiter, the
  largest \<open>std::uint32_t\<close> for a counter without one.
\<close>

locale counted_slots =
  fixes acq :: "'s \<Rightarrow> bool \<times> 's"
    and rel :: "'s \<Rightarrow> 's"
    and count :: "'s \<Rightarrow> nat"
    and cap :: "'s \<Rightarrow> nat"
  assumes acquire_granted: "acq s = (True, s') \<Longrightarrow> count s < cap s \<Longrightarrow> count s' = Suc (count s)"
    and acquire_refused: "acq s = (False, s') \<Longrightarrow> count s' = count s"
    and acquire_cap: "cap (snd (acq s)) = cap s"
    and release_count: "count (rel s) = count s - 1"
    and release_cap: "cap (rel s) = cap s"
begin

definition balanced :: "'s guarded \<Rightarrow> bool" where
  "balanced g \<longleftrightarrow> (\<forall>s. shared g = Some s \<longrightarrow> count s = held_count g)"

lemma balanced_drop: "balanced (g\<lparr>shared := None\<rparr>)"
  by (simp add: balanced_def)

lemma balanced_release: "balanced g \<Longrightarrow> balanced (guard_release rel i g)"
proof (cases "i < length (held g) \<and> held g ! i")
  case True
  moreover assume "balanced g"
  ultimately show ?thesis
    using count_list_update_True [of i "held g" False]
    by (auto simp: balanced_def guard_release_def held_count_def release_count)
qed (auto simp: guard_release_def)

lemma balanced_move: "balanced g \<Longrightarrow> balanced (guard_move rel d s g)"
proof (cases "d = s \<or> length (held g) \<le> d \<or> length (held g) \<le> s")
  case False
  assume bal: "balanced g"
  define g1 where "g1 = guard_release rel d g"
  define hs where "hs = held g1"
  have len: "d < length hs" "s < length hs" "d \<noteq> s" using False by (auto simp: hs_def g1_def)
  have "\<not> hs ! d" using False by (auto simp: hs_def g1_def guard_release_def)
  then have "count_list (hs[d := hs ! s, s := False]) True = count_list hs True"
    using len count_list_update_True [of d hs "hs ! s"]
      count_list_update_True [of s "hs[d := hs ! s]" False] by simp
  moreover have "balanced g1" using bal by (simp add: g1_def balanced_release)
  ultimately show ?thesis
    using False by (simp add: guard_move_def balanced_def held_count_def g1_def hs_def Let_def)
qed (auto simp: guard_move_def)

lemma balanced_acquire:
  assumes "balanced g" and room: "\<And>s s'. shared g = Some s \<Longrightarrow> acq s = (True, s') \<Longrightarrow> count s < cap s"
  shows "balanced (guard_acquire acq rel i g)"
proof (cases "shared g")
  case None
  with assms(1) show ?thesis by (simp add: guard_acquire_def)
next
  case (Some s)
  obtain ok s' where a: "acq s = (ok, s')" by (cases "acq s")
  show ?thesis
  proof (cases "i < length (held g)")
    case False
    with assms(1) Some show ?thesis by (simp add: guard_acquire_def)
  next
    case True
    have cnt: "count s' = held_count g + of_bool ok"
      using assms(1) Some a room [OF Some, of s'] acquire_granted [of s s'] acquire_refused [of s s']
      by (cases ok) (simp_all add: balanced_def)
    have "held g ! i \<Longrightarrow> 0 < held_count g"
      using held_nth_count_pos [OF True] by (simp add: held_count_def)
    with True Some a cnt count_list_update_True [of i "held g" ok]
    show ?thesis
      by (auto simp: guard_acquire_def guard_release_def balanced_def held_count_def
          release_count Let_def)
  qed
qed

lemma shared_cap_step:
  assumes "shared (guard_step acq rel op g) = Some s'"
  shows "\<exists>s. shared g = Some s \<and> cap s' = cap s"
proof -
  have rel: "\<exists>s. shared k = Some s \<and> cap s' = cap s" if "shared (guard_release rel i k) = Some s'" for i k s'
    using that by (auto simp: guard_release_def release_cap split: if_splits)
  show ?thesis
  proof (cases op)
    case (GAcquire i)
    with assms guard_acquire_shared [of acq rel i g] show ?thesis
      using rel [of i] acquire_cap by fastforce
  qed (use assms rel in \<open>auto simp: guard_move_def Let_def split: if_splits\<close>)
qed

lemma balanced_step:
  assumes "balanced g" and "\<And>s. shared g = Some s \<Longrightarrow> length (held g) < cap s"
  shows "balanced (guard_step acq rel op g)"
proof (cases op)
  case (GAcquire i)
  have "count s < cap s" if "shared g = Some s" for s
    using assms(1) assms(2) [OF that] that count_le_length [of "held g" True]
    by (fastforce simp: balanced_def held_count_def)
  with assms(1) GAcquire show ?thesis by (simp add: balanced_acquire)
qed (use assms(1) in \<open>simp_all add: balanced_move balanced_release balanced_drop\<close>)

lemma run_balanced:
  assumes "balanced g" and "\<And>s. shared g = Some s \<Longrightarrow> length (held g) < cap s"
  shows "balanced (guard_run acq rel ops g)"
  using assms unfolding guard_run_def
proof (induction ops arbitrary: g)
  case (Cons op ops)
  have "length (held (guard_step acq rel op g)) < cap s" if "shared (guard_step acq rel op g) = Some s" for s
    using shared_cap_step [OF that] Cons.prems(2) by auto
  with Cons balanced_step show ?case by simp
qed simp

text \<open>From a fresh counter the count is the number of guards that hold a slot.\<close>

lemma run_counts_guards:
  assumes "count s0 = 0" and "n < cap s0"
    and "shared (guard_run acq rel ops (guards_init n s0)) = Some s"
  shows "count s = held_count (guard_run acq rel ops (guards_init n s0))"
proof -
  have "balanced (guards_init n s0)" using assms(1) by (simp add: balanced_def guards_init_def held_count_def count_list_0_iff)
  then have "balanced (guard_run acq rel ops (guards_init n s0))"
    by (rule run_balanced) (use assms(2) in \<open>auto simp: guards_init_def\<close>)
  with assms(3) show ?thesis by (simp add: balanced_def)
qed

end

text \<open>A limiter refuses at its maximum, so no bound on the number of guards is needed.\<close>

locale bounded_slots = counted_slots +
  assumes acquire_bounded: "acq s = (True, s') \<Longrightarrow> count s < cap s"
begin

lemma limited_step:
  assumes "balanced g" and "\<And>s. shared g = Some s \<Longrightarrow> count s \<le> cap s"
  shows "balanced (guard_step acq rel op g)
    \<and> (\<forall>s. shared (guard_step acq rel op g) = Some s \<longrightarrow> count s \<le> cap s)"
proof -
  have rel: "\<forall>s. shared (guard_release rel i k) = Some s \<longrightarrow> count s \<le> cap s"
    if "\<And>s. shared k = Some s \<Longrightarrow> count s \<le> cap s" for i k
    using that by (auto simp: guard_release_def release_cap release_count le_diff_conv
        intro: le_trans [OF diff_le_self] split: if_splits)
  show ?thesis
  proof (cases op)
    case (GAcquire i)
    have le: "count (snd (acq s)) \<le> cap (snd (acq s))" if "shared g = Some s" for s
      using assms(2) [OF that] acquire_granted [of s] acquire_refused [of s]
        acquire_bounded [of s] acquire_cap [of s]
      by (cases "acq s"; cases "fst (acq s)") fastforce+
    have "balanced (guard_acquire acq rel i g)"
      using assms(1) acquire_bounded by (rule balanced_acquire)
    moreover have "count t \<le> cap t" if "shared (guard_acquire acq rel i g) = Some t" for t
      using guard_acquire_shared [of acq rel i g]
    proof
      assume "shared (guard_acquire acq rel i g) = shared g"
      with that assms(2) show ?thesis by simp
    next
      assume "\<exists>s. shared g = Some s \<and> shared (guard_acquire acq rel i g)
        = shared (guard_release rel i (g\<lparr>shared := Some (snd (acq s))\<rparr>))"
      then obtain s where s: "shared g = Some s" and "shared (guard_acquire acq rel i g)
        = shared (guard_release rel i (g\<lparr>shared := Some (snd (acq s))\<rparr>))" by blast
      with that le [OF s] rel [of "g\<lparr>shared := Some (snd (acq s))\<rparr>" i] show ?thesis by simp
    qed
    ultimately show ?thesis using GAcquire by simp
  next
    case (GMove d s)
    with rel [of g d] assms balanced_move show ?thesis by (auto simp: guard_move_def Let_def)
  next
    case (GRelease i)
    with rel [of g i] assms balanced_release show ?thesis by auto
  next
    case GDropState
    then show ?thesis by (simp add: balanced_drop)
  qed
qed

lemma run_limited:
  assumes "balanced g" and "\<And>s. shared g = Some s \<Longrightarrow> count s \<le> cap s"
  shows "balanced (guard_run acq rel ops g)
    \<and> (\<forall>s. shared (guard_run acq rel ops g) = Some s \<longrightarrow> count s \<le> cap s)"
  using assms unfolding guard_run_def
proof (induction ops arbitrary: g)
  case (Cons op ops)
  have "balanced (guard_step acq rel op g)"
    and "\<And>s. shared (guard_step acq rel op g) = Some s \<Longrightarrow> count s \<le> cap s"
    using limited_step [OF Cons.prems, of op] by blast+
  from Cons.IH [OF this] show ?case by simp
qed simp

lemma run_within_limit:
  assumes "count s0 = 0"
    and "shared (guard_run acq rel ops (guards_init n s0)) = Some s"
  shows "count s = held_count (guard_run acq rel ops (guards_init n s0)) \<and> count s \<le> cap s"
proof -
  have "balanced (guards_init n s0)"
    using assms(1) by (simp add: balanced_def guards_init_def held_count_def count_list_0_iff)
  moreover have "shared (guards_init n s0) = Some t \<Longrightarrow> count t \<le> cap t" for t
    using assms(1) by (simp add: guards_init_def)
  ultimately have "balanced (guard_run acq rel ops (guards_init n s0))
    \<and> (\<forall>s. shared (guard_run acq rel ops (guards_init n s0)) = Some s \<longrightarrow> count s \<le> cap s)"
    by (rule run_limited)
  with assms(2) show ?thesis by (simp add: balanced_def)
qed

end

end
