(* ===== verification/CasLoop.thy ===== *)
theory CasLoop
  imports Prelude
begin

text \<open>
  Compare-and-swap loops.  The lock-free operations of \<open>GlobalAdmission\<close>, \<open>OutcomeChannel\<close>
  and \<open>CoordinatorState\<close> all have one shape: load the atomic cell, compute from the loaded
  value either a result that needs no write or a new value with a result, and try a weak
  compare-exchange; on failure (also a spurious one) start again.  This theory has an
  interleaving semantics of any number of such loops on one cell and shows that it refines
  running the loop bodies atomically one after another, so that the component theories may
  model each operation by one application of its body.
\<close>

section \<open>Bodies and their atomic meaning\<close>

type_synonym ('v, 'r) cas_body = "'v \<Rightarrow> 'v option \<times> 'r"

definition cas_apply :: "('v, 'r) cas_body \<Rightarrow> 'v \<Rightarrow> 'v \<times> 'r" where
  "cas_apply body v = (case body v of (None, r) \<Rightarrow> (v, r) | (Some v', r) \<Rightarrow> (v', r))"

text \<open>The bodies of a list of callers, run atomically in that order.\<close>

definition cas_one ::
    "(nat \<Rightarrow> ('v, 'r) cas_body) \<Rightarrow> nat \<Rightarrow> 'v \<times> (nat \<rightharpoonup> 'r) \<Rightarrow> 'v \<times> (nat \<rightharpoonup> 'r)" where
  "cas_one body i = (\<lambda>(v, res). (fst (cas_apply (body i) v), res(i \<mapsto> snd (cas_apply (body i) v))))"

definition cas_run :: "(nat \<Rightarrow> ('v, 'r) cas_body) \<Rightarrow> 'v \<Rightarrow> nat list \<Rightarrow> 'v \<times> (nat \<rightharpoonup> 'r)" where
  "cas_run body v0 order = fold (cas_one body) order (v0, Map.empty)"

section \<open>Interleaved execution\<close>

datatype ('v, 'r) cas_pc = Ready | Loaded 'v | Returned 'r

text \<open>
  \<open>commits\<close> is a history variable: the callers in the order in which they take effect.  A
  caller that returns without a write takes effect at its load.
\<close>

record ('v, 'r) cas_state =
  cell :: 'v
  pcs :: "nat \<Rightarrow> ('v, 'r) cas_pc"
  commits :: "nat list"

definition cas_init :: "'v \<Rightarrow> ('v, 'r) cas_state" where
  "cas_init v0 = \<lparr>cell = v0, pcs = (\<lambda>_. Ready), commits = []\<rparr>"

inductive cas_step ::
    "(nat \<Rightarrow> ('v, 'r) cas_body) \<Rightarrow> ('v, 'r) cas_state \<Rightarrow> ('v, 'r) cas_state \<Rightarrow> bool"
  for body :: "nat \<Rightarrow> ('v, 'r) cas_body" where
  load: "pcs s i = Ready \<Longrightarrow>
    cas_step body s (s\<lparr>pcs := (pcs s)(i := Loaded (cell s)),
      commits := (if fst (body i (cell s)) = None then commits s @ [i] else commits s)\<rparr>)"
| give_up: "pcs s i = Loaded v \<Longrightarrow> body i v = (None, r) \<Longrightarrow>
    cas_step body s (s\<lparr>pcs := (pcs s)(i := Returned r)\<rparr>)"
| commit: "pcs s i = Loaded v \<Longrightarrow> body i v = (Some v', r) \<Longrightarrow> cell s = v \<Longrightarrow>
    cas_step body s (s\<lparr>cell := v', pcs := (pcs s)(i := Returned r), commits := commits s @ [i]\<rparr>)"
| retry: "pcs s i = Loaded v \<Longrightarrow> body i v = (Some v', r) \<Longrightarrow>
    cas_step body s (s\<lparr>pcs := (pcs s)(i := Ready)\<rparr>)"

inductive_cases cas_stepE: "cas_step body s s'"

abbreviation cas_steps where
  "cas_steps body \<equiv> (cas_step body)\<^sup>*\<^sup>*"

fun pc_consistent :: "('v, 'r) cas_body \<Rightarrow> ('v, 'r) cas_pc \<Rightarrow> 'r option \<Rightarrow> bool" where
  "pc_consistent body Ready res = (res = None)"
| "pc_consistent body (Loaded v) res =
     (case body v of (None, r) \<Rightarrow> res = Some r | (Some v', r) \<Rightarrow> res = None)"
| "pc_consistent body (Returned r) res = (res = Some r)"

definition cas_inv :: "(nat \<Rightarrow> ('v, 'r) cas_body) \<Rightarrow> 'v \<Rightarrow> ('v, 'r) cas_state \<Rightarrow> bool" where
  "cas_inv body v0 s \<longleftrightarrow>
     cell s = fst (cas_run body v0 (commits s)) \<and> distinct (commits s)
     \<and> dom (snd (cas_run body v0 (commits s))) = set (commits s)
     \<and> (\<forall>i. pc_consistent (body i) (pcs s i) (snd (cas_run body v0 (commits s)) i))"

lemma cas_run_snoc [simp]: "cas_run body v0 (order @ [i]) = cas_one body i (cas_run body v0 order)"
  by (simp add: cas_run_def)

lemma cas_inv_init: "cas_inv body v0 (cas_init v0)"
  by (simp add: cas_inv_def cas_init_def cas_run_def)

lemma cas_inv_step:
  assumes "cas_step body s s'" and "cas_inv body v0 s"
  shows "cas_inv body v0 s'"
proof -
  obtain c res where run: "cas_run body v0 (commits s) = (c, res)" by (cases "cas_run body v0 (commits s)")
  note inv = assms(2) [unfolded cas_inv_def run, simplified]
  from inv have pc: "pc_consistent (body i) (pcs s i) (res i)" for i by blast
  have fresh: "i \<notin> set (commits s)" if "res i = None" for i using inv that by (auto simp: domIff)
  from assms(1) show ?thesis
  proof cases
    case (load i)
    then have "res i = None" using pc [of i] by simp
    with load inv fresh run show ?thesis
      by (cases "body i (cell s)"; cases "fst (body i (cell s))")
        (auto simp: cas_inv_def cas_one_def cas_apply_def)
  next
    case (give_up i v r)
    with pc [of i] inv run show ?thesis by (auto simp: cas_inv_def)
  next
    case (commit i v v' r)
    then have "res i = None" using pc [of i] by simp
    with commit inv fresh run show ?thesis by (auto simp: cas_inv_def cas_one_def cas_apply_def)
  next
    case (retry i v v' r)
    with pc [of i] inv run show ?thesis by (auto simp: cas_inv_def)
  qed
qed

lemma cas_inv_steps: "cas_steps body (cas_init v0) s \<Longrightarrow> cas_inv body v0 s"
  by (induction rule: rtranclp_induct) (auto intro: cas_inv_init cas_inv_step)

lemma cas_linearizable:
  assumes "cas_steps body (cas_init v0) s"
  shows "\<exists>order. distinct order \<and> cell s = fst (cas_run body v0 order)
    \<and> (\<forall>i r. pcs s i = Returned r \<longrightarrow> i \<in> set order \<and> snd (cas_run body v0 order) i = Some r)"
proof (intro exI conjI allI impI)
  note inv = cas_inv_steps [OF assms, unfolded cas_inv_def]
  show "distinct (commits s)" and "cell s = fst (cas_run body v0 (commits s))" using inv by auto
  fix i r
  assume "pcs s i = Returned r"
  then show res: "snd (cas_run body v0 (commits s)) i = Some r" using inv by (metis pc_consistent.simps(3))
  then show "i \<in> set (commits s)" using inv by (metis domI)
qed

text \<open>A property that every body preserves holds in every interleaving.\<close>

lemma cas_run_invariant:
  assumes "P v0" and "\<And>i v. P v \<Longrightarrow> P (fst (cas_apply (body i) v))"
  shows "P (fst (cas_run body v0 order))"
  by (induction order rule: rev_induct)
    (use assms in \<open>auto simp: cas_run_def cas_one_def split: prod.split\<close>)

lemma cas_invariant:
  assumes "cas_steps body (cas_init v0) s" and "P v0"
    and "\<And>i v. P v \<Longrightarrow> P (fst (cas_apply (body i) v))"
  shows "P (cell s)"
proof -
  from cas_linearizable [OF assms(1)] obtain order where "cell s = fst (cas_run body v0 order)" by blast
  with cas_run_invariant [where P = P, OF assms(2,3)] show ?thesis by simp
qed

text \<open>Lock freedom: a caller that runs alone returns, from every state.\<close>

lemma cas_alone_returns: "\<exists>s' r. cas_steps body s s' \<and> pcs s' i = Returned r"
proof -
  have ready: "\<exists>s' r. cas_steps body s s' \<and> pcs s' i = Returned r" if "pcs s i = Ready" for s
  proof -
    let ?s1 = "s\<lparr>pcs := (pcs s)(i := Loaded (cell s)),
      commits := (if fst (body i (cell s)) = None then commits s @ [i] else commits s)\<rparr>"
    have one: "cas_step body s ?s1" using that by (rule load)
    obtain w r where b: "body i (cell s) = (w, r)" by (cases "body i (cell s)")
    have "\<exists>s'. cas_step body ?s1 s' \<and> pcs s' i = Returned r"
    proof (cases w)
      case None
      with b show ?thesis using give_up [of ?s1 i "cell s" body r] by auto
    next
      case (Some v')
      with b show ?thesis using commit [of ?s1 i "cell s" body v' r] by auto
    qed
    with one show ?thesis by (meson converse_rtranclp_into_rtranclp r_into_rtranclp)
  qed
  show ?thesis
  proof (cases "pcs s i")
    case (Loaded v)
    obtain w r where b: "body i v = (w, r)" by (cases "body i v")
    show ?thesis
    proof (cases w)
      case None
      with Loaded b show ?thesis using give_up [of s i v body r] by (auto intro!: exI r_into_rtranclp)
    next
      case (Some v')
      let ?s1 = "s\<lparr>pcs := (pcs s)(i := Ready)\<rparr>"
      have "cas_step body s ?s1" using Loaded b Some by (auto intro: retry)
      with ready [of ?s1] show ?thesis by (auto intro: converse_rtranclp_into_rtranclp)
    qed
  qed (use ready in auto)
qed

end
