(* ===== verification/Admission.thy ===== *)
theory Admission
  imports ConfigModel Reservations CasLoop
begin

text \<open>
  Admission control (\<open>src/resilience\<close>): the single-loop \<open>TokenBucket\<close>, \<open>InflightLimiter\<close> and
  \<open>RouteAdmission\<close>, and the cross-worker \<open>GlobalAdmission\<close> with its lock-free credit pool.
  The lemmas give each operation an abstract meaning (refilling is \<open>min capacity (credit +
  rate * elapsed)\<close>), bound what any sequence or interleaving of calls can admit, show that
  the signed 64-bit arithmetic never overflows, and account for every in-flight slot.
\<close>

section \<open>Token bucket\<close>

definition kCreditScale :: int where
  "kCreditScale = 1000000000"

record token_bucket =
  tb_rate_per_second :: nat
  tb_capacity_credit :: int
  tb_credit :: int
  tb_last_refill :: time_point

definition TokenBucket_new :: "nat \<Rightarrow> nat \<Rightarrow> time_point \<Rightarrow> cpp_error + token_bucket" where
  "TokenBucket_new rate_per_second burst now =
     (if rate_per_second = 0 \<or> burst = 0 then Inl InvalidArgument
      else Inr \<lparr>tb_rate_per_second = rate_per_second,
                tb_capacity_credit = int burst * kCreditScale,
                tb_credit = int burst * kCreditScale,
                tb_last_refill = now\<rparr>)"

definition TokenBucket_TryAcquire :: "token_bucket \<Rightarrow> time_point \<Rightarrow> bool \<times> token_bucket" where
  "TokenBucket_TryAcquire b now =
     (let b = (if now > tb_last_refill b then
                 let elapsed = now - tb_last_refill b;
                     missing_credit = tb_capacity_credit b - tb_credit b;
                     rate = int (tb_rate_per_second b);
                     needed_nanoseconds = tdiv (missing_credit + rate - 1) rate
                 in b\<lparr>tb_credit := (if elapsed \<ge> needed_nanoseconds then tb_capacity_credit b
                                    else tb_credit b + rate * elapsed),
                      tb_last_refill := now\<rparr>
               else b)
      in if tb_credit b < kCreditScale then (False, b)
         else (True, b\<lparr>tb_credit := tb_credit b - kCreditScale\<rparr>))"

text \<open>The accepted calls among a sequence of calls at given clock readings.\<close>

fun TokenBucket_run :: "token_bucket \<Rightarrow> time_point list \<Rightarrow> nat \<times> token_bucket" where
  "TokenBucket_run b [] = (0, b)"
| "TokenBucket_run b (now # later) =
     (let (ok, b') = TokenBucket_TryAcquire b now; (n, b'') = TokenBucket_run b' later
      in (of_bool ok + n, b''))"

definition bucket_wf :: "token_bucket \<Rightarrow> bool" where
  "bucket_wf b \<longleftrightarrow> u32_positive (tb_rate_per_second b)
     \<and> 0 \<le> tb_credit b \<and> tb_credit b \<le> tb_capacity_credit b
     \<and> tb_capacity_credit b \<le> int u32_max * kCreditScale"

text \<open>The credit that a bucket holds at a clock reading, as a reference definition.\<close>

definition bucket_credit_at :: "token_bucket \<Rightarrow> time_point \<Rightarrow> int" where
  "bucket_credit_at b now =
     min (tb_capacity_credit b)
         (tb_credit b + int (tb_rate_per_second b) * max 0 (now - tb_last_refill b))"

section \<open>In-flight limiter and route admission\<close>

record limiter_state =
  lim_maximum :: nat
  lim_inflight :: nat

definition InflightLimiter_new :: "nat \<Rightarrow> cpp_error + limiter_state" where
  "InflightLimiter_new maximum =
     (if maximum = 0 then Inl InvalidArgument
      else Inr \<lparr>lim_maximum = maximum, lim_inflight = 0\<rparr>)"

definition InflightLimiter_Acquire :: "limiter_state \<Rightarrow> bool \<times> limiter_state" where
  "InflightLimiter_Acquire s =
     (if lim_inflight s \<ge> lim_maximum s then (False, s)
      else (True, s\<lparr>lim_inflight := lim_inflight s + 1\<rparr>))"

definition InflightLimiter_ReleaseOne :: "limiter_state \<Rightarrow> limiter_state" where
  "InflightLimiter_ReleaseOne s =
     (if lim_inflight s \<noteq> 0 then s\<lparr>lim_inflight := lim_inflight s - 1\<rparr> else s)"

text \<open>The reservations of one limiter: acquire, move-assign, release, destroy the limiter.\<close>

definition InflightLimiter_guards :: "guard_op list \<Rightarrow> limiter_state guarded \<Rightarrow> limiter_state guarded" where
  "InflightLimiter_guards = guard_run InflightLimiter_Acquire InflightLimiter_ReleaseOne"

record route_admission =
  ra_bucket :: token_bucket
  ra_limiter :: limiter_state

definition RouteAdmission_new :: "route \<Rightarrow> time_point \<Rightarrow> cpp_error + route_admission" where
  "RouteAdmission_new r now =
     res_bind (TokenBucket_new (rt_rate_limit r) (rt_burst r) now) (\<lambda>bucket.
     res_bind (InflightLimiter_new (rt_max_inflight r)) (\<lambda>limiter.
       Inr \<lparr>ra_bucket = bucket, ra_limiter = limiter\<rparr>))"

text \<open>A returned reservation holds a slot; every other exit destroys the local reservation.\<close>

definition RouteAdmission_TryAcquire :: "route_admission \<Rightarrow> time_point \<Rightarrow> bool \<times> route_admission" where
  "RouteAdmission_TryAcquire a now =
     (let (reserved, limiter) = InflightLimiter_Acquire (ra_limiter a) in
      if \<not> reserved then (False, a\<lparr>ra_limiter := limiter\<rparr>)
      else let (ok, bucket) = TokenBucket_TryAcquire (ra_bucket a) now in
           if \<not> ok then (False, a\<lparr>ra_bucket := bucket, ra_limiter := InflightLimiter_ReleaseOne limiter\<rparr>)
           else (True, a\<lparr>ra_bucket := bucket, ra_limiter := limiter\<rparr>))"

section \<open>Global admission\<close>

record admission_state =
  as_inflight :: nat
  as_maximum :: nat

record global_admission =
  ga_rate :: nat
  ga_burst :: nat
  ga_capacity_credit :: int
  ga_credit :: int
  ga_last_refill :: time_point
  ga_state :: admission_state

definition GlobalAdmission_new :: "route \<Rightarrow> time_point \<Rightarrow> cpp_error + global_admission" where
  "GlobalAdmission_new r now =
     (if rt_rate_limit r = 0 \<or> rt_burst r = 0 \<or> rt_max_inflight r = 0 then Inl InvalidArgument
      else Inr \<lparr>ga_rate = rt_rate_limit r, ga_burst = rt_burst r,
                ga_capacity_credit = int (rt_burst r) * kCreditScale,
                ga_credit = int (rt_burst r) * kCreditScale, ga_last_refill = now,
                ga_state = \<lparr>as_inflight = 0, as_maximum = rt_max_inflight r\<rparr>\<rparr>)"

text \<open>The bodies of the compare-exchange loops on the credit.\<close>

definition Refill_body :: "int \<Rightarrow> nat \<Rightarrow> duration \<Rightarrow> (int, nat) cas_body" where
  "Refill_body capacity_credit rate elapsed credit =
     (let missing = capacity_credit - credit in
      if missing \<le> 0 then (None, 0)
      else let needed = tdiv (missing + int rate - 1) (int rate);
               refilled = (if elapsed \<ge> needed then missing else int rate * elapsed)
           in (Some (credit + refilled), 0))"

definition Draw_body :: "nat \<Rightarrow> (int, nat) cas_body" where
  "Draw_body want credit =
     (let whole = tdiv credit kCreditScale in
      if whole \<le> 0 then (None, 0)
      else let taken = min whole (int want)
           in (Some (credit - taken * kCreditScale), nat taken))"

definition Return_body :: "int \<Rightarrow> nat \<Rightarrow> (int, nat) cas_body" where
  "Return_body capacity_credit tokens credit =
     (let returned = min (capacity_credit - credit) (int tokens * kCreditScale) in
      if returned \<le> 0 then (None, 0) else (Some (credit + returned), 0))"

definition GlobalAdmission_Refill :: "global_admission \<Rightarrow> time_point \<Rightarrow> global_admission" where
  "GlobalAdmission_Refill g now =
     (if now \<le> ga_last_refill g then g
      else let elapsed = now - ga_last_refill g; g = g\<lparr>ga_last_refill := now\<rparr> in
           if elapsed \<le> 0 then g
           else g\<lparr>ga_credit := fst (cas_apply
                   (Refill_body (ga_capacity_credit g) (ga_rate g) elapsed) (ga_credit g))\<rparr>)"

definition GlobalAdmission_Draw :: "global_admission \<Rightarrow> nat \<Rightarrow> nat \<times> global_admission" where
  "GlobalAdmission_Draw g want =
     (let (credit, taken) = cas_apply (Draw_body want) (ga_credit g)
      in (taken, g\<lparr>ga_credit := credit\<rparr>))"

definition GlobalAdmission_Return :: "global_admission \<Rightarrow> nat \<Rightarrow> global_admission" where
  "GlobalAdmission_Return g tokens =
     (if tokens = 0 then g
      else g\<lparr>ga_credit := fst (cas_apply (Return_body (ga_capacity_credit g) tokens) (ga_credit g))\<rparr>)"

definition State_TryAcquire_body :: "nat \<Rightarrow> (nat, bool) cas_body" where
  "State_TryAcquire_body maximum current =
     (if current < maximum then (Some (current + 1), True) else (None, False))"

definition State_ReleaseOne_body :: "(nat, bool) cas_body" where
  "State_ReleaseOne_body current =
     (if current \<noteq> 0 then (Some (current - 1), True) else (None, False))"

definition State_TryAcquire :: "admission_state \<Rightarrow> bool \<times> admission_state" where
  "State_TryAcquire s =
     (let (current, ok) = cas_apply (State_TryAcquire_body (as_maximum s)) (as_inflight s)
      in (ok, s\<lparr>as_inflight := current\<rparr>))"

definition State_ReleaseOne :: "admission_state \<Rightarrow> admission_state" where
  "State_ReleaseOne s = s\<lparr>as_inflight := fst (cas_apply State_ReleaseOne_body (as_inflight s))\<rparr>"

definition GlobalAdmission_TryAcquireInflight :: "global_admission \<Rightarrow> bool \<times> global_admission" where
  "GlobalAdmission_TryAcquireInflight g =
     (let (ok, s) = State_TryAcquire (ga_state g) in (ok, g\<lparr>ga_state := s\<rparr>))"

definition GlobalAdmission_guards ::
    "guard_op list \<Rightarrow> admission_state guarded \<Rightarrow> admission_state guarded" where
  "GlobalAdmission_guards = guard_run State_TryAcquire State_ReleaseOne"

definition LeaseBatch :: "nat \<Rightarrow> nat \<Rightarrow> nat \<Rightarrow> nat" where
  "LeaseBatch rate workers burst =
     (if workers = 0 then 0
      else let batch = (rate + workers - 1) div workers in
           if batch \<ge> burst then burst
           else if batch > 0 then batch else 1)"

text \<open>Concurrent calls on the credit, for the interleaving semantics of the loops.\<close>

datatype credit_call = CallRefill duration | CallDraw nat | CallReturn nat

fun credit_body :: "global_admission \<Rightarrow> credit_call \<Rightarrow> (int, nat) cas_body" where
  "credit_body g (CallRefill elapsed) = Refill_body (ga_capacity_credit g) (ga_rate g) elapsed"
| "credit_body g (CallDraw want) = Draw_body want"
| "credit_body g (CallReturn tokens) = Return_body (ga_capacity_credit g) tokens"

definition credit_bodies :: "global_admission \<Rightarrow> credit_call list \<Rightarrow> nat \<Rightarrow> (int, nat) cas_body" where
  "credit_bodies g calls i = credit_body g (if i < length calls then calls ! i else CallDraw 0)"

text \<open>The credit that a call may add, and the tokens that a finished call took out.\<close>

fun credit_supply :: "global_admission \<Rightarrow> credit_call \<Rightarrow> int" where
  "credit_supply g (CallRefill elapsed) = int (ga_rate g) * elapsed"
| "credit_supply g (CallDraw want) = 0"
| "credit_supply g (CallReturn tokens) = int tokens * kCreditScale"

fun tokens_taken :: "credit_call \<Rightarrow> nat \<Rightarrow> nat" where
  "tokens_taken (CallDraw want) r = r"
| "tokens_taken _ r = 0"

fun call_taken :: "credit_call \<Rightarrow> (int, nat) cas_pc \<Rightarrow> nat" where
  "call_taken c (Returned r) = tokens_taken c r"
| "call_taken c _ = 0"

definition global_wf :: "global_admission \<Rightarrow> bool" where
  "global_wf g \<longleftrightarrow> u32_positive (ga_rate g) \<and> u32_positive (ga_burst g)
     \<and> ga_capacity_credit g = int (ga_burst g) * kCreditScale
     \<and> 0 \<le> ga_credit g \<and> ga_credit g \<le> ga_capacity_credit g
     \<and> as_inflight (ga_state g) \<le> as_maximum (ga_state g)"

section \<open>Token bucket theorems\<close>

lemma refill_eq_min:
  fixes cap credit elapsed rate :: int
  assumes "0 < rate" "credit \<le> cap"
  shows "(if tdiv (cap - credit + rate - 1) rate \<le> elapsed then cap else credit + rate * elapsed)
    = min cap (credit + rate * elapsed)"
  using assms ceil_div_le_iff [of rate "cap - credit" elapsed] by (simp add: min_def)

lemma TryAcquire_reference:
  assumes "bucket_wf b"
  shows "TokenBucket_TryAcquire b now =
    (let c = bucket_credit_at b now; ok = (kCreditScale \<le> c)
     in (ok, b\<lparr>tb_credit := (if ok then c - kCreditScale else c),
               tb_last_refill := max (tb_last_refill b) now\<rparr>))"
  using assms refill_eq_min [of "int (tb_rate_per_second b)" "tb_credit b" "tb_capacity_credit b"
      "now - tb_last_refill b"]
  by (auto simp: TokenBucket_TryAcquire_def bucket_credit_at_def bucket_wf_def u32_positive_def
      Let_def max_def min_def)

lemma TryAcquire_wf: "bucket_wf b \<Longrightarrow> bucket_wf (snd (TokenBucket_TryAcquire b now))"
  unfolding TryAcquire_reference Let_def
  by (auto simp: TryAcquire_reference Let_def bucket_wf_def bucket_credit_at_def)

text \<open>What one call takes plus what it leaves is at most what was there plus what accrued.\<close>

lemma TryAcquire_budget:
  assumes "bucket_wf b" and "TokenBucket_TryAcquire b now = (ok, b')"
  shows "of_bool ok * kCreditScale + tb_credit b'
      \<le> tb_credit b + int (tb_rate_per_second b) * (tb_last_refill b' - tb_last_refill b)"
    and "tb_rate_per_second b' = tb_rate_per_second b"
    and "tb_last_refill b' = max (tb_last_refill b) now"
proof -
  from assms have eq: "tb_last_refill b' - tb_last_refill b = max 0 (now - tb_last_refill b)"
    "of_bool ok * kCreditScale + tb_credit b' = bucket_credit_at b now"
    by (auto simp: TryAcquire_reference Let_def)
  show "of_bool ok * kCreditScale + tb_credit b'
      \<le> tb_credit b + int (tb_rate_per_second b) * (tb_last_refill b' - tb_last_refill b)"
    unfolding eq bucket_credit_at_def by simp
  show "tb_rate_per_second b' = tb_rate_per_second b" "tb_last_refill b' = max (tb_last_refill b) now"
    using assms by (auto simp: TryAcquire_reference Let_def)
qed

lemma TokenBucket_run_budget:
  assumes "bucket_wf b" and "tb_last_refill b \<le> t" and "\<forall>now \<in> set readings. now \<le> t"
  shows "int (fst (TokenBucket_run b readings)) * kCreditScale
      \<le> tb_credit b + int (tb_rate_per_second b) * (t - tb_last_refill b)"
  using assms
proof (induction b readings rule: TokenBucket_run.induct)
  case (1 b)
  then show ?case by (simp add: bucket_wf_def)
next
  case (2 b now later)
  obtain ok b' where step: "TokenBucket_TryAcquire b now = (ok, b')" by fastforce
  note budget = TryAcquire_budget [OF "2.prems"(1) step]
  have wf: "bucket_wf b'" using TryAcquire_wf [OF "2.prems"(1), of now] step by simp
  have IH: "int (fst (TokenBucket_run b' later)) * kCreditScale
      \<le> tb_credit b' + int (tb_rate_per_second b') * (t - tb_last_refill b')"
    using "2.IH" [OF step [symmetric] refl wf] "2.prems" budget(3) by simp
  have "int (fst (TokenBucket_run b (now # later))) * kCreditScale
      = of_bool ok * kCreditScale + int (fst (TokenBucket_run b' later)) * kCreditScale"
    by (simp add: step algebra_simps split: prod.split)
  also have "\<dots> \<le> tb_credit b + int (tb_rate_per_second b) * (tb_last_refill b' - tb_last_refill b)
      + int (tb_rate_per_second b) * (t - tb_last_refill b')"
    using budget(1,2) IH by simp
  also have "\<dots> = tb_credit b + int (tb_rate_per_second b) * (t - tb_last_refill b)"
    by (simp add: algebra_simps)
  finally show ?case .
qed

lemma TokenBucket_new_wf:
  "TokenBucket_new rate burst now = Inr b \<Longrightarrow> rate \<le> u32_max \<Longrightarrow> burst \<le> u32_max \<Longrightarrow>
   bucket_wf b \<and> tb_credit b = int burst * kCreditScale \<and> tb_rate_per_second b = rate
   \<and> tb_last_refill b = now"
  by (auto simp: TokenBucket_new_def bucket_wf_def u32_positive_def kCreditScale_def split: if_splits)

text \<open>
   C6. One call of \<open>TryAcquire\<close> on a well-formed bucket is the reference token bucket: the
  credit first becomes \<open>min capacity (credit + rate * elapsed)\<close> (a clock that went back adds
  nothing), the call is accepted exactly when that is at least one token, an accepted call
  takes one token, and a refused call takes nothing.
\<close>

theorem TokenBucket_TryAcquire_reference:
  assumes "bucket_wf b"
  shows "TokenBucket_TryAcquire b now =
    (let c = bucket_credit_at b now; ok = (kCreditScale \<le> c)
     in (ok, b\<lparr>tb_credit := (if ok then c - kCreditScale else c),
               tb_last_refill := max (tb_last_refill b) now\<rparr>))"
  using assms by (rule TryAcquire_reference)

definition sample_bucket :: token_bucket where
  "sample_bucket = \<lparr>tb_rate_per_second = 3, tb_capacity_credit = 2 * kCreditScale,
     tb_credit = 5, tb_last_refill = 100\<rparr>"

lemma sample_bucket_wf: "bucket_wf sample_bucket"
  by (simp add: sample_bucket_def bucket_wf_def u32_positive_def kCreditScale_def)

theorem TokenBucket_TryAcquire_reference_witness:
  "TokenBucket_TryAcquire sample_bucket 400000000 =
    (True, sample_bucket\<lparr>tb_credit := 199999705, tb_last_refill := 400000000\<rparr>)"
  using TokenBucket_TryAcquire_reference [OF sample_bucket_wf, of 400000000]
  by (simp add: sample_bucket_def bucket_credit_at_def kCreditScale_def)

text \<open>
   C5. The rate limit: over any sequence of calls, at any clock readings up to \<open>t\<close> and in any
  order, a bucket accepts at most \<open>burst\<close> plus \<open>rate\<close> per elapsed second.
\<close>

theorem TokenBucket_rate_bound:
  assumes "TokenBucket_new rate burst start = Inr b" and "rate \<le> u32_max" and "burst \<le> u32_max"
    and "start \<le> t" and "\<forall>now \<in> set readings. now \<le> t"
  shows "int (fst (TokenBucket_run b readings)) * kCreditScale
      \<le> int burst * kCreditScale + int rate * (t - start)"
  using TokenBucket_new_wf [OF assms(1-3)] TokenBucket_run_budget [of b t readings] assms(4,5) by simp

theorem TokenBucket_rate_bound_witness:
  "\<exists>b. TokenBucket_new 2 1 0 = Inr b
    \<and> int (fst (TokenBucket_run b [0, 1, 500000000, 500000001])) * kCreditScale
      \<le> int 1 * kCreditScale + int 2 * (500000001 - 0)
    \<and> fst (TokenBucket_run b [0, 1, 500000000, 500000001]) = 2"
proof (intro exI conjI)
  let ?b = "\<lparr>tb_rate_per_second = 2, tb_capacity_credit = kCreditScale, tb_credit = kCreditScale,
    tb_last_refill = 0\<rparr>"
  show new: "TokenBucket_new 2 1 0 = Inr ?b" by (simp add: TokenBucket_new_def)
  show "int (fst (TokenBucket_run ?b [0, 1, 500000000, 500000001])) * kCreditScale
      \<le> int 1 * kCreditScale + int 2 * (500000001 - 0)"
    by (rule TokenBucket_rate_bound [OF new]) simp_all
  show "fst (TokenBucket_run ?b [0, 1, 500000000, 500000001]) = 2" by code_simp
qed

text \<open>
   No signed overflow: on a well-formed bucket every intermediate value that \<open>TryAcquire\<close>
  computes fits a signed 64-bit integer; in particular \<open>rate * elapsed\<close> is only computed when
  it stays below the missing credit, however long the bucket was idle.
\<close>

theorem TokenBucket_no_overflow:
  assumes "bucket_wf b" and "tb_last_refill b < now"
  defines "rate \<equiv> int (tb_rate_per_second b)" and "elapsed \<equiv> now - tb_last_refill b"
    and "missing \<equiv> tb_capacity_credit b - tb_credit b"
  shows "int64 missing \<and> int64 (missing + rate) \<and> int64 (missing + rate - 1)
    \<and> (elapsed < tdiv (missing + rate - 1) rate \<longrightarrow>
         int64 (rate * elapsed) \<and> int64 (tb_credit b + rate * elapsed))
    \<and> int64 (tb_credit (snd (TokenBucket_TryAcquire b now)))"
proof -
  have r: "0 < rate" "rate \<le> 4294967295" and c: "0 \<le> tb_credit b" "tb_credit b \<le> tb_capacity_credit b"
      "tb_capacity_credit b \<le> 4294967295 * 1000000000"
    using assms(1) by (auto simp: bucket_wf_def u32_positive_def rate_def kCreditScale_def)
  have e: "0 < elapsed" using assms(2) by (simp add: elapsed_def)
  have less: "rate * elapsed < missing" if "elapsed < tdiv (missing + rate - 1) rate"
    using that r c ceil_div_le_iff [OF r(1), of missing elapsed] by (simp add: missing_def)
  have pos: "0 \<le> rate * elapsed" using r e by simp
  have "bucket_wf (snd (TokenBucket_TryAcquire b now))"
    and "tb_capacity_credit (snd (TokenBucket_TryAcquire b now)) = tb_capacity_credit b"
    using TryAcquire_wf [OF assms(1)] by (simp_all add: TryAcquire_reference [OF assms(1)] Let_def)
  then have "0 \<le> tb_credit (snd (TokenBucket_TryAcquire b now))"
    "tb_credit (snd (TokenBucket_TryAcquire b now)) \<le> tb_capacity_credit b"
    by (simp_all add: bucket_wf_def)
  with r c less pos show ?thesis by (auto simp: int64_def missing_def)
qed

theorem TokenBucket_no_overflow_witness:
  "int64 (tb_credit (snd (TokenBucket_TryAcquire sample_bucket (2 ^ 62))))"
  using TokenBucket_no_overflow [OF sample_bucket_wf, of "2 ^ 62"] by (simp add: sample_bucket_def)

section \<open>In-flight accounting\<close>

interpretation lim: bounded_slots InflightLimiter_Acquire InflightLimiter_ReleaseOne lim_inflight lim_maximum
  by unfold_locales
    (auto simp: InflightLimiter_Acquire_def InflightLimiter_ReleaseOne_def split: if_splits)

interpretation gadm: bounded_slots State_TryAcquire State_ReleaseOne as_inflight as_maximum
  by unfold_locales
    (auto simp: State_TryAcquire_def State_ReleaseOne_def State_TryAcquire_body_def
      State_ReleaseOne_body_def cas_apply_def split: if_splits prod.splits option.splits)

text \<open>
   C7. The in-flight count of an \<open>InflightLimiter\<close> is the number of live reservations and never
  exceeds the maximum, after any sequence of acquisitions, move-assignments (also onto a
  reservation that holds a slot, or onto itself), releases and destructions.
\<close>

theorem InflightLimiter_accounting:
  assumes "InflightLimiter_new maximum = Inr s0"
    and "shared (InflightLimiter_guards ops (guards_init n s0)) = Some s"
  shows "lim_inflight s = held_count (InflightLimiter_guards ops (guards_init n s0))
    \<and> lim_inflight s \<le> lim_maximum s"
proof -
  have "lim_inflight s0 = 0" using assms(1) by (auto simp: InflightLimiter_new_def split: if_splits)
  then show ?thesis using lim.run_within_limit assms(2) unfolding InflightLimiter_guards_def by blast
qed

theorem InflightLimiter_accounting_witness:
  "held_count (InflightLimiter_guards [GAcquire 0, GAcquire 1, GAcquire 2, GMove 0 1, GAcquire 2]
     (guards_init 3 \<lparr>lim_maximum = 2, lim_inflight = 0\<rparr>)) = 2"
proof -
  let ?fresh = "\<lparr>lim_maximum = 2, lim_inflight = 0\<rparr>"
  let ?ops = "[GAcquire 0, GAcquire 1, GAcquire 2, GMove 0 1, GAcquire 2]"
  have new: "InflightLimiter_new 2 = Inr ?fresh" by (simp add: InflightLimiter_new_def)
  have run: "shared (InflightLimiter_guards ?ops (guards_init 3 ?fresh))
      = Some \<lparr>lim_maximum = 2, lim_inflight = 2\<rparr>"
    by code_simp
  from InflightLimiter_accounting [OF new run] show ?thesis by simp
qed

text \<open>
   C8. The global in-flight counter equals the number of live reservations and never exceeds
  the route's maximum, after any sequence of acquisitions, moves, releases and destructions.
\<close>

theorem GlobalAdmission_inflight_accounting:
  assumes "GlobalAdmission_new r now = Inr g"
    and "shared (GlobalAdmission_guards ops (guards_init n (ga_state g))) = Some s"
  shows "as_inflight s = held_count (GlobalAdmission_guards ops (guards_init n (ga_state g)))
    \<and> as_inflight s \<le> as_maximum s"
proof -
  have "as_inflight (ga_state g) = 0" using assms(1) by (auto simp: GlobalAdmission_new_def split: if_splits)
  then show ?thesis using gadm.run_within_limit assms(2) unfolding GlobalAdmission_guards_def by blast
qed

definition sample_global :: global_admission where
  "sample_global = \<lparr>ga_rate = 100, ga_burst = 10, ga_capacity_credit = 10 * kCreditScale,
     ga_credit = 10 * kCreditScale, ga_last_refill = 0,
     ga_state = \<lparr>as_inflight = 0, as_maximum = 2\<rparr>\<rparr>"

lemma sample_global_new:
  "GlobalAdmission_new (Route_new ''r'' ''h'' ''/'' [] 100 10 2) 0 = Inr sample_global"
  by (simp add: GlobalAdmission_new_def Route_new_def sample_global_def)

theorem GlobalAdmission_inflight_accounting_witness:
  "held_count (GlobalAdmission_guards [GAcquire 0, GAcquire 1, GAcquire 2, GRelease 0, GAcquire 2]
     (guards_init 3 (ga_state sample_global))) = 2"
proof -
  have "shared (GlobalAdmission_guards [GAcquire 0, GAcquire 1, GAcquire 2, GRelease 0, GAcquire 2]
     (guards_init 3 (ga_state sample_global))) = Some \<lparr>as_inflight = 2, as_maximum = 2\<rparr>"
    by code_simp
  from GlobalAdmission_inflight_accounting [OF sample_global_new this] show ?thesis by simp
qed

text \<open>
   The lease batch is \<open>clamp(ceil(rate / workers), 1, burst)\<close>: at most \<open>burst\<close>, at least
  one, and otherwise the least batch with which all workers together cover the rate.
\<close>

theorem LeaseBatch_clamp:
  assumes "0 < rate" and "0 < workers" and "0 < burst"
  shows "1 \<le> LeaseBatch rate workers burst \<and> LeaseBatch rate workers burst \<le> burst
    \<and> (LeaseBatch rate workers burst < burst \<longrightarrow> rate \<le> workers * LeaseBatch rate workers burst
         \<and> workers * (LeaseBatch rate workers burst - 1) < rate)"
proof -
  let ?q = "(rate + workers - 1) div workers"
  have le: "?q \<le> k \<longleftrightarrow> rate \<le> workers * k" for k
    using assms(2) by (rule ceil_div_le_iff_nat)
  have pos: "0 < ?q" using le [of 0] assms by simp
  have "\<not> ?q \<le> ?q - 1" using pos by simp
  then have "workers * (?q - 1) < rate" unfolding le by simp
  with le [of ?q] pos assms show ?thesis by (auto simp: LeaseBatch_def Let_def)
qed

theorem LeaseBatch_clamp_witness:
  "LeaseBatch 100 8 50 = 13 \<and> 100 \<le> 8 * (13 :: nat) \<and> 8 * (13 - 1 :: nat) < 100"
  using LeaseBatch_clamp [of 100 8 50] by (simp add: LeaseBatch_def)

section \<open>The global credit pool\<close>

lemma Refill_body_min:
  assumes "0 < rate" and "credit \<le> cap" and "0 \<le> elapsed"
  shows "cas_apply (Refill_body cap rate elapsed) credit = (min cap (credit + int rate * elapsed), 0)"
proof (cases "credit = cap")
  case True
  moreover have "0 \<le> int rate * elapsed" using assms(3) by simp
  ultimately show ?thesis by (simp add: cas_apply_def Refill_body_def)
next
  case False
  with assms refill_eq_min [of "int rate" credit cap elapsed] show ?thesis
    by (auto simp: cas_apply_def Refill_body_def Let_def)
qed

lemma Refill_reference:
  assumes "global_wf g"
  shows "GlobalAdmission_Refill g now =
    g\<lparr>ga_credit := min (ga_capacity_credit g)
        (ga_credit g + int (ga_rate g) * max 0 (now - ga_last_refill g)),
      ga_last_refill := max (ga_last_refill g) now\<rparr>"
proof -
  have "0 < ga_rate g" "ga_credit g \<le> ga_capacity_credit g"
    using assms by (auto simp: global_wf_def u32_positive_def)
  then show ?thesis
    by (cases "now \<le> ga_last_refill g")
      (simp_all add: GlobalAdmission_Refill_def Let_def Refill_body_min)
qed

lemma Draw_body_min:
  assumes "0 \<le> credit"
  shows "cas_apply (Draw_body want) credit =
    (credit - min (credit div kCreditScale) (int want) * kCreditScale,
     nat (min (credit div kCreditScale) (int want)))"
proof -
  have "0 \<le> credit div kCreditScale" using assms by (simp add: kCreditScale_def pos_imp_zdiv_nonneg_iff)
  with assms show ?thesis
    by (auto simp: cas_apply_def Draw_body_def Let_def kCreditScale_def min_def)
qed

lemma Return_body_min:
  assumes "credit \<le> cap"
  shows "cas_apply (Return_body cap tokens) credit = (min cap (credit + int tokens * kCreditScale), 0)"
  using assms by (auto simp: cas_apply_def Return_body_def Let_def min_def kCreditScale_def)

lemma credit_body_budget:
  assumes "global_wf g" and "0 \<le> c" and "c \<le> ga_capacity_credit g"
    and "\<forall>e. call = CallRefill e \<longrightarrow> 0 \<le> e"
  shows "0 \<le> fst (cas_apply (credit_body g call) c)"
    and "fst (cas_apply (credit_body g call) c) \<le> ga_capacity_credit g"
    and "fst (cas_apply (credit_body g call) c)
          + kCreditScale * int (tokens_taken call (snd (cas_apply (credit_body g call) c)))
        \<le> c + credit_supply g call"
proof -
  have r: "0 < ga_rate g" using assms(1) by (simp add: global_wf_def u32_positive_def)
  have q: "0 \<le> c div kCreditScale" using assms(2) by (simp add: kCreditScale_def pos_imp_zdiv_nonneg_iff)
  have S: "0 < kCreditScale" by (simp add: kCreditScale_def)
  have le: "min (c div kCreditScale) w * kCreditScale \<le> c" if "0 \<le> w" for w
  proof -
    have "min (c div kCreditScale) w * kCreditScale \<le> c div kCreditScale * kCreditScale"
      using S by (intro mult_right_mono) auto
    also have "\<dots> \<le> c" unfolding kCreditScale_def by presburger
    finally show ?thesis .
  qed
  have out: "0 \<le> fst (cas_apply (credit_body g call) c)
    \<and> fst (cas_apply (credit_body g call) c) \<le> ga_capacity_credit g
    \<and> fst (cas_apply (credit_body g call) c)
          + kCreditScale * int (tokens_taken call (snd (cas_apply (credit_body g call) c)))
        \<le> c + credit_supply g call"
  proof (cases call)
    case (CallRefill e)
    then have "0 \<le> int (ga_rate g) * e" using assms(4) by simp
    with CallRefill assms r show ?thesis by (simp add: Refill_body_min)
  next
    case (CallDraw w)
    have "0 \<le> min (c div kCreditScale) (int w) * kCreditScale" using q S by simp
    with CallDraw assms q le [of "int w"] show ?thesis by (simp add: Draw_body_min algebra_simps)
  next
    case (CallReturn n)
    with assms S show ?thesis by (simp add: Return_body_min)
  qed
  then show "0 \<le> fst (cas_apply (credit_body g call) c)"
    and "fst (cas_apply (credit_body g call) c) \<le> ga_capacity_credit g"
    and "fst (cas_apply (credit_body g call) c)
          + kCreditScale * int (tokens_taken call (snd (cas_apply (credit_body g call) c)))
        \<le> c + credit_supply g call" by auto
qed

text \<open>The budget along a sequential order of the calls.\<close>

lemma credit_run_budget:
  assumes "global_wf g" and "\<And>i e. call i = CallRefill e \<Longrightarrow> 0 \<le> e" and "distinct order"
  defines "run \<equiv> cas_run (\<lambda>i. credit_body g (call i)) (ga_credit g)"
  shows "0 \<le> fst (run order) \<and> fst (run order) \<le> ga_capacity_credit g
    \<and> fst (run order)
        + kCreditScale * (\<Sum>i \<in> set order. int (tokens_taken (call i) (the (snd (run order) i))))
      \<le> ga_credit g + (\<Sum>i \<in> set order. credit_supply g (call i))"
  using assms(3)
proof (induction order rule: rev_induct)
  case Nil
  show ?case using assms(1) by (simp add: run_def cas_run_def global_wf_def)
next
  case (snoc i order)
  obtain c res where run: "run order = (c, res)" by (cases "run order")
  let ?a = "cas_apply (credit_body g (call i)) c"
  have next_run: "run (order @ [i]) = (fst ?a, res(i \<mapsto> snd ?a))"
    using run by (simp add: run_def cas_one_def)
  have IH: "0 \<le> c" "c \<le> ga_capacity_credit g"
    "c + kCreditScale * (\<Sum>j \<in> set order. int (tokens_taken (call j) (the (res j))))
      \<le> ga_credit g + (\<Sum>j \<in> set order. credit_supply g (call j))"
    using snoc run by simp_all
  note step = credit_body_budget [OF assms(1) IH(1,2), of "call i"]
  have "(\<Sum>j \<in> set (order @ [i]). int (tokens_taken (call j) (the ((res(i \<mapsto> snd ?a)) j))))
      = int (tokens_taken (call i) (snd ?a))
        + (\<Sum>j \<in> set order. int (tokens_taken (call j) (the (res j))))"
    using snoc.prems by (auto intro!: sum.cong)
  moreover have "(\<Sum>j \<in> set (order @ [i]). credit_supply g (call j))
      = credit_supply g (call i) + (\<Sum>j \<in> set order. credit_supply g (call j))"
    using snoc.prems by simp
  ultimately show ?case
    using step IH(3) assms(2) unfolding next_run fst_conv snd_conv by (simp only: distrib_left) auto
qed

lemma call_taken_pos: "0 < call_taken c pc \<Longrightarrow> \<exists>r. pc = Returned r"
  by (cases pc) auto

lemma credit_supply_nonneg:
  "(\<forall>e. call = CallRefill e \<longrightarrow> 0 \<le> e) \<Longrightarrow> 0 \<le> credit_supply g call"
  by (cases call) (auto simp: kCreditScale_def)

lemma credit_interleaving_budget:
  assumes wf: "global_wf g" and pos: "\<forall>e. CallRefill e \<in> set calls \<longrightarrow> 0 \<le> e"
    and steps: "cas_steps (credit_bodies g calls) (cas_init (ga_credit g)) s"
  shows "0 \<le> cell s \<and> cell s \<le> ga_capacity_credit g
    \<and> cell s + kCreditScale * (\<Sum>i<length calls. int (call_taken (calls ! i) (pcs s i)))
      \<le> ga_credit g + (\<Sum>i<length calls. credit_supply g (calls ! i))"
proof -
  let ?n = "length calls"
  define call where "call i = (if i < ?n then calls ! i else CallDraw 0)" for i
  have bodies: "credit_bodies g calls = (\<lambda>i. credit_body g (call i))"
    by (simp add: fun_eq_iff credit_bodies_def call_def)
  have pos': "call i = CallRefill e \<Longrightarrow> 0 \<le> e" for i e
    using pos nth_mem [of i calls] unfolding call_def by (cases "i < ?n") (metis, simp)
  from cas_linearizable [OF steps] obtain order where order: "distinct order"
      "cell s = fst (cas_run (credit_bodies g calls) (ga_credit g) order)"
      "\<forall>i r. pcs s i = Returned r \<longrightarrow>
         i \<in> set order \<and> snd (cas_run (credit_bodies g calls) (ga_credit g) order) i = Some r"
    by blast
  define res where "res = snd (cas_run (credit_bodies g calls) (ga_credit g) order)"
  let ?taken = "\<lambda>i. int (tokens_taken (call i) (the (res i)))"
  have run: "0 \<le> cell s" "cell s \<le> ga_capacity_credit g"
    "cell s + kCreditScale * sum ?taken (set order)
      \<le> ga_credit g + (\<Sum>i \<in> set order. credit_supply g (call i))"
    using credit_run_budget [OF wf pos' order(1)] order(2) by (simp_all add: bodies res_def)
  have "(\<Sum>i<?n. int (call_taken (calls ! i) (pcs s i)))
      = (\<Sum>i \<in> {..<?n} \<inter> {i. \<exists>r. pcs s i = Returned r}. int (call_taken (calls ! i) (pcs s i)))"
    by (rule sum.mono_neutral_right) (auto dest: call_taken_pos)
  also have "\<dots> = sum ?taken ({..<?n} \<inter> {i. \<exists>r. pcs s i = Returned r})"
    using order(3) by (intro sum.cong) (auto simp: call_def res_def)
  also have "\<dots> \<le> sum ?taken (set order)"
    using order(3) by (intro sum_mono2) auto
  finally have taken: "(\<Sum>i<?n. int (call_taken (calls ! i) (pcs s i))) \<le> sum ?taken (set order)" .
  have nonneg: "0 \<le> credit_supply g (call i)" for i using pos' credit_supply_nonneg by blast
  have "(\<Sum>i \<in> set order. credit_supply g (call i))
      = (\<Sum>i \<in> set order \<inter> {..<?n}. credit_supply g (call i))"
    by (rule sum.mono_neutral_right) (auto simp: call_def)
  also have "\<dots> \<le> (\<Sum>i<?n. credit_supply g (call i))"
    using nonneg by (intro sum_mono2) auto
  also have "\<dots> = (\<Sum>i<?n. credit_supply g (calls ! i))" by (simp add: call_def)
  finally have "(\<Sum>i \<in> set order. credit_supply g (call i)) \<le> (\<Sum>i<?n. credit_supply g (calls ! i))" .
  moreover have "kCreditScale * (\<Sum>i<?n. int (call_taken (calls ! i) (pcs s i)))
      \<le> kCreditScale * sum ?taken (set order)"
    using taken by (simp add: kCreditScale_def)
  ultimately show ?thesis using run by linarith
qed

text \<open>
   C4. The shared budget under concurrency: whatever the interleaving of any number of
  concurrent \<open>Draw\<close>, \<open>Return\<close> and \<open>Refill\<close> loops on the atomic credit (spurious
  compare-exchange failures included), the credit stays within 0 and the capacity, and the
  tokens that finished draws took are covered by the initial credit plus what the refills
  and returns supplied: the rate is never multiplied by the number of workers.
\<close>

theorem GlobalAdmission_concurrent_budget:
  assumes "global_wf g" and "\<forall>e. CallRefill e \<in> set calls \<longrightarrow> 0 \<le> e"
    and "cas_steps (credit_bodies g calls) (cas_init (ga_credit g)) s"
  shows "0 \<le> cell s \<and> cell s \<le> ga_capacity_credit g
    \<and> cell s + kCreditScale * (\<Sum>i<length calls. int (call_taken (calls ! i) (pcs s i)))
      \<le> ga_credit g + (\<Sum>i<length calls. credit_supply g (calls ! i))"
  using assms by (rule credit_interleaving_budget)

lemma sample_global_wf: "global_wf sample_global"
  by (simp add: sample_global_def global_wf_def u32_positive_def kCreditScale_def)

text \<open>Two draws load the same credit; the second to commit has to start again.\<close>

lemma sample_interleaving:
  "\<exists>s. cas_steps (credit_bodies sample_global [CallDraw 7, CallDraw 7])
        (cas_init (ga_credit sample_global)) s
     \<and> pcs s 0 = Returned 7 \<and> pcs s 1 = Loaded (10 * kCreditScale) \<and> cell s = 3 * kCreditScale"
proof -
  let ?b = "credit_bodies sample_global [CallDraw 7, CallDraw 7]"
  let ?c = "10 * kCreditScale"
  have body: "?b 0 ?c = (Some (3 * kCreditScale), 7)" "?b 1 ?c = (Some (3 * kCreditScale), 7)"
    by (simp_all add: credit_bodies_def Draw_body_def kCreditScale_def)
  let ?a = "cas_init ?c :: (int, nat) cas_state"
  have 1: "cas_step ?b ?a (?a\<lparr>pcs := (pcs ?a)(0 := Loaded ?c)\<rparr>)" (is "cas_step _ _ ?t1")
    using cas_step.load [of ?a 0 ?b] body by (simp add: cas_init_def)
  have 2: "cas_step ?b ?t1 (?t1\<lparr>pcs := (pcs ?t1)(1 := Loaded ?c)\<rparr>)" (is "cas_step _ _ ?t2")
    using cas_step.load [of ?t1 1 ?b] body by (simp add: cas_init_def)
  have 3: "cas_step ?b ?t2 (?t2\<lparr>cell := 3 * kCreditScale, pcs := (pcs ?t2)(0 := Returned 7),
      commits := commits ?t2 @ [0]\<rparr>)" (is "cas_step _ _ ?t3")
    by (rule cas_step.commit) (use body in \<open>simp_all add: cas_init_def\<close>)
  have "cas_steps ?b ?a ?t3" 
    by (rule converse_rtranclp_into_rtranclp [where r = "cas_step ?b", OF 1])
      (rule converse_rtranclp_into_rtranclp [where r = "cas_step ?b", OF 2],
        rule r_into_rtranclp [where r = "cas_step ?b", OF 3])
  then show ?thesis by (intro exI [of _ ?t3]) (simp add: sample_global_def cas_init_def)
qed

theorem GlobalAdmission_concurrent_budget_witness:
  "\<exists>s. cas_steps (credit_bodies sample_global [CallDraw 7, CallDraw 7])
        (cas_init (ga_credit sample_global)) s
     \<and> call_taken (CallDraw 7) (pcs s 0) = 7 \<and> 0 \<le> cell s
     \<and> cell s + kCreditScale * (\<Sum>i<2. int (call_taken ([CallDraw 7, CallDraw 7] ! i) (pcs s i)))
       \<le> 10 * kCreditScale"
proof -
  obtain s where s: "cas_steps (credit_bodies sample_global [CallDraw 7, CallDraw 7])
      (cas_init (ga_credit sample_global)) s" "pcs s 0 = Returned 7"
    using sample_interleaving by blast
  have "0 \<le> cell s \<and> cell s \<le> ga_capacity_credit sample_global
    \<and> cell s + kCreditScale * (\<Sum>i<length [CallDraw 7, CallDraw 7].
          int (call_taken ([CallDraw 7, CallDraw 7] ! i) (pcs s i)))
      \<le> ga_credit sample_global
        + (\<Sum>i<length [CallDraw 7, CallDraw 7]. credit_supply sample_global ([CallDraw 7, CallDraw 7] ! i))"
    by (rule GlobalAdmission_concurrent_budget [OF sample_global_wf _ s(1)]) simp
  with s show ?thesis
    by (intro exI [of _ s]) (simp add: sample_global_def numeral_2_eq_2)
qed

text \<open>
   \<open>GlobalAdmission\<close> mirrors the token bucket: a refill followed by a draw of one token
  makes the same decision as \<open>TokenBucket::TryAcquire\<close> at the same clock reading, and leaves
  the same credit and refill time.
\<close>

theorem GlobalAdmission_mirrors_TokenBucket:
  assumes "global_wf g"
    and "b = \<lparr>tb_rate_per_second = ga_rate g, tb_capacity_credit = ga_capacity_credit g,
              tb_credit = ga_credit g, tb_last_refill = ga_last_refill g\<rparr>"
  shows "let (taken, g') = GlobalAdmission_Draw (GlobalAdmission_Refill g now) 1;
             (ok, b') = TokenBucket_TryAcquire b now
         in taken = of_bool ok \<and> ga_credit g' = tb_credit b' \<and> ga_last_refill g' = tb_last_refill b'"
proof -
  have wf: "bucket_wf b" using assms
    by (auto simp: global_wf_def bucket_wf_def u32_positive_def kCreditScale_def)
  have c: "0 \<le> ga_credit g" "ga_credit g \<le> ga_capacity_credit g"
    using assms(1) by (auto simp: global_wf_def)
  let ?c = "bucket_credit_at b now"
  have c0: "0 \<le> ?c" using c assms(2) by (simp add: bucket_credit_at_def)
  have refill: "ga_credit (GlobalAdmission_Refill g now) = ?c"
    "ga_last_refill (GlobalAdmission_Refill g now) = max (ga_last_refill g) now"
    using Refill_reference [OF assms(1), of now] assms(2) by (simp_all add: bucket_credit_at_def)
  have one: "min (?c div kCreditScale) 1 = of_bool (kCreditScale \<le> ?c)"
  proof (cases "kCreditScale \<le> ?c")
    case True
    then have "1 \<le> ?c div kCreditScale"
      using zdiv_mono1 [of kCreditScale ?c kCreditScale] by (simp add: kCreditScale_def)
    with True show ?thesis by simp
  next
    case False
    then have "?c div kCreditScale = 0" using c0 by simp
    with False show ?thesis by simp
  qed
  have draw: "GlobalAdmission_Draw (GlobalAdmission_Refill g now) 1 = (of_bool (kCreditScale \<le> ?c),
      (GlobalAdmission_Refill g now)\<lparr>ga_credit := ?c - of_bool (kCreditScale \<le> ?c) * kCreditScale\<rparr>)"
    using one by (simp add: GlobalAdmission_Draw_def refill Draw_body_min [OF c0])
  have "tb_last_refill b = ga_last_refill g" using assms(2) by simp
  then show ?thesis
    unfolding draw TryAcquire_reference [OF wf] Let_def by (simp add: refill)
qed

theorem GlobalAdmission_mirrors_TokenBucket_witness:
  "fst (GlobalAdmission_Draw (GlobalAdmission_Refill (sample_global\<lparr>ga_credit := 0\<rparr>) 10000000) 1) = 1"
proof -
  let ?g = "sample_global\<lparr>ga_credit := 0\<rparr>"
  let ?b = "\<lparr>tb_rate_per_second = ga_rate ?g, tb_capacity_credit = ga_capacity_credit ?g,
    tb_credit = ga_credit ?g, tb_last_refill = ga_last_refill ?g\<rparr>"
  have "global_wf ?g" by (simp add: sample_global_def global_wf_def u32_positive_def kCreditScale_def)
  moreover have "fst (TokenBucket_TryAcquire ?b 10000000) = True" by code_simp
  ultimately show ?thesis
    using GlobalAdmission_mirrors_TokenBucket [of ?g ?b 10000000] by (auto simp: split_beta)
qed

end
