(* ===== verification/Breaker.thy ===== *)
theory Breaker
  imports Prelude
begin

text \<open>
  The circuit breaker of one route and endpoint (\<open>CircuitBreaker.h\<close>, \<open>CircuitBreaker.cpp\<close>,
  \<open>CircuitBreakerSnapshot.h\<close>): its ring of ten statistical buckets, the
  Closed/Open/HalfOpen state machine with generations and probe identifiers, and the export
  and import of its state.  The lemmas give the state invariant, that outcomes of older
  generations are inert, that the ring is an exact sliding window over the recorded
  outcomes, that only a full quota of probe successes closes the breaker, and what a
  migration keeps.
\<close>

section \<open>State\<close>

datatype breaker_state = kClosed | kOpen | kHalfOpen

datatype selection = kAllowed | kRejectedOpen | kRejectedHalfOpenQuota | kProbe

record request_permit =
  pm_selection :: selection
  pm_generation :: u64
  pm_probe_id :: u64

record half_open_cycle =
  hc_generation :: u64
  hc_probe_base :: u64
  hc_quota :: nat

text \<open>\<open>std::chrono::milliseconds\<close> are counts of milliseconds; time points are nanoseconds.\<close>

record breaker_config =
  bc_window :: int
  bc_min_requests :: nat
  bc_failure_threshold_permille :: nat
  bc_open_duration :: int
  bc_half_open_probes :: nat

record bucket =
  bkt_start :: time_point
  bkt_success :: nat
  bkt_failure :: nat

record circuit_breaker =
  cb_config :: breaker_config
  cb_state :: breaker_state
  cb_epoch :: time_point
  cb_active_start :: time_point
  cb_active_index :: nat
  cb_initialized :: bool
  cb_buckets :: "bucket list"
  cb_open_until :: time_point
  cb_generation :: u64
  cb_next_probe_id :: u64
  cb_pending_probes :: "u64 list"
  cb_half_open_issued :: nat
  cb_half_open_completed :: nat

definition kBucketCount :: nat where
  "kBucketCount = 10"

definition Bucket_empty :: bucket where
  "Bucket_empty = \<lparr>bkt_start = 0, bkt_success = 0, bkt_failure = 0\<rparr>"

definition window_ns :: "breaker_config \<Rightarrow> duration" where
  "window_ns c = bc_window c * 1000000"

definition bucket_duration :: "breaker_config \<Rightarrow> duration" where
  "bucket_duration c = tdiv (window_ns c) (int kBucketCount)"

definition breaker_config_ok :: "breaker_config \<Rightarrow> bool" where
  "breaker_config_ok c \<longleftrightarrow> \<not> (bc_window c \<le> 0 \<or> bc_min_requests c = 0
     \<or> bc_failure_threshold_permille c = 0 \<or> bc_failure_threshold_permille c \<ge> 1000
     \<or> bc_open_duration c \<le> 0 \<or> bc_half_open_probes c = 0)"

definition CircuitBreaker_new :: "breaker_config \<Rightarrow> time_point \<Rightarrow> cpp_error + circuit_breaker" where
  "CircuitBreaker_new config now =
     (if \<not> breaker_config_ok config then Inl InvalidArgument
      else Inr \<lparr>cb_config = config, cb_state = kClosed, cb_epoch = now, cb_active_start = 0,
                cb_active_index = 0, cb_initialized = False,
                cb_buckets = replicate kBucketCount Bucket_empty, cb_open_until = 0,
                cb_generation = 1, cb_next_probe_id = 1, cb_pending_probes = [],
                cb_half_open_issued = 0, cb_half_open_completed = 0\<rparr>)"

section \<open>Operations\<close>

definition next_generation :: "u64 \<Rightarrow> u64" where
  "next_generation g = (if g + 1 = 0 then g + 1 + 1 else g + 1)"

definition AdvanceGeneration :: "circuit_breaker \<Rightarrow> circuit_breaker" where
  "AdvanceGeneration b = b\<lparr>cb_generation := next_generation (cb_generation b)\<rparr>"

text \<open>One turn of the loop that moves the active bucket forward.\<close>

definition AdvanceOne :: "circuit_breaker \<Rightarrow> circuit_breaker" where
  "AdvanceOne b =
     (let start = cb_active_start b + bucket_duration (cb_config b);
          index = (cb_active_index b + 1) mod kBucketCount
      in b\<lparr>cb_active_start := start, cb_active_index := index,
           cb_buckets := (cb_buckets b)[index := \<lparr>bkt_start = start, bkt_success = 0, bkt_failure = 0\<rparr>]\<rparr>)"

definition AdvanceInit :: "circuit_breaker \<Rightarrow> circuit_breaker" where
  "AdvanceInit b =
     (if \<not> cb_initialized b
      then b\<lparr>cb_active_start := cb_epoch b, cb_active_index := 0,
             cb_buckets := (cb_buckets b)[0 := \<lparr>bkt_start = cb_epoch b, bkt_success = 0, bkt_failure = 0\<rparr>],
             cb_initialized := True\<rparr>
      else b)"

definition AdvanceTo :: "circuit_breaker \<Rightarrow> time_point \<Rightarrow> circuit_breaker" where
  "AdvanceTo b now =
     (if now < cb_epoch b then b
      else let bd = bucket_duration (cb_config b); b = AdvanceInit b in
        if now < cb_active_start b + bd then b
        else let skipped = tdiv (now - cb_active_start b) bd in
          if nat skipped \<ge> kBucketCount then
            let start = now - tmod (now - cb_epoch b) bd;
                index = nat (tdiv (now - cb_epoch b) bd) mod kBucketCount
            in b\<lparr>cb_active_start := start, cb_active_index := index,
                 cb_buckets := (replicate kBucketCount Bucket_empty)
                   [index := \<lparr>bkt_start = start, bkt_success = 0, bkt_failure = 0\<rparr>]\<rparr>
          else (AdvanceOne ^^ nat skipped) b)"

text \<open>The sums over at most ten 32-bit counters fit the 64-bit totals of the source.\<close>

definition Aggregate :: "circuit_breaker \<Rightarrow> time_point \<Rightarrow> nat \<times> nat" where
  "Aggregate b now =
     foldl (\<lambda>(success, failure) bucket.
         if bkt_start bucket > now - window_ns (cb_config b)
         then (success + bkt_success bucket, failure + bkt_failure bucket)
         else (success, failure))
       (0, 0) (cb_buckets b)"

definition Open :: "circuit_breaker \<Rightarrow> time_point \<Rightarrow> circuit_breaker" where
  "Open b now =
     (AdvanceGeneration (b\<lparr>cb_state := kOpen,
        cb_open_until := now + bc_open_duration (cb_config b) * 1000000\<rparr>))
      \<lparr>cb_pending_probes := [], cb_half_open_issued := 0, cb_half_open_completed := 0\<rparr>"

definition Close :: "circuit_breaker \<Rightarrow> circuit_breaker" where
  "Close b =
     (AdvanceGeneration (b\<lparr>cb_state := kClosed\<rparr>))
      \<lparr>cb_pending_probes := [], cb_half_open_issued := 0, cb_half_open_completed := 0,
       cb_buckets := replicate kBucketCount Bucket_empty, cb_initialized := False,
       cb_active_index := 0\<rparr>"

definition BeginHalfOpen :: "circuit_breaker \<Rightarrow> circuit_breaker" where
  "BeginHalfOpen b =
     (AdvanceGeneration (b\<lparr>cb_state := kHalfOpen\<rparr>))
      \<lparr>cb_half_open_issued := 1, cb_half_open_completed := 0,
       cb_pending_probes := [cb_next_probe_id b], cb_next_probe_id := cb_next_probe_id b + 1\<rparr>"

definition trips :: "breaker_config \<Rightarrow> nat \<times> nat \<Rightarrow> bool" where
  "trips c = (\<lambda>(success, failure).
     success + failure \<ge> bc_min_requests c
     \<and> failure * 1000 \<ge> bc_failure_threshold_permille c * (success + failure))"

definition Evaluate :: "circuit_breaker \<Rightarrow> time_point \<Rightarrow> circuit_breaker" where
  "Evaluate b now = (if trips (cb_config b) (Aggregate b now) then Open b now else b)"

definition ConsumeProbe :: "circuit_breaker \<Rightarrow> u64 \<Rightarrow> bool \<times> circuit_breaker" where
  "ConsumeProbe b probe_id =
     (if probe_id \<notin> set (cb_pending_probes b) then (False, b)
      else (True, b\<lparr>cb_pending_probes := remove1 probe_id (cb_pending_probes b)\<rparr>))"

definition CountSuccess :: "circuit_breaker \<Rightarrow> circuit_breaker" where
  "CountSuccess b =
     b\<lparr>cb_buckets := (cb_buckets b)[cb_active_index b :=
        (cb_buckets b ! cb_active_index b)
          \<lparr>bkt_success := (bkt_success (cb_buckets b ! cb_active_index b) + 1) mod 2 ^ 32\<rparr>]\<rparr>"

definition CountFailure :: "circuit_breaker \<Rightarrow> circuit_breaker" where
  "CountFailure b =
     b\<lparr>cb_buckets := (cb_buckets b)[cb_active_index b :=
        (cb_buckets b ! cb_active_index b)
          \<lparr>bkt_failure := (bkt_failure (cb_buckets b ! cb_active_index b) + 1) mod 2 ^ 32\<rparr>]\<rparr>"

definition RecordSuccess :: "circuit_breaker \<Rightarrow> time_point \<Rightarrow> request_permit \<Rightarrow> circuit_breaker" where
  "RecordSuccess b now permit =
     (let b = AdvanceTo b now in
      if pm_generation permit \<noteq> cb_generation b then b
      else case cb_state b of
        kClosed \<Rightarrow>
          if pm_selection permit \<noteq> kAllowed then b else Evaluate (CountSuccess b) now
      | kHalfOpen \<Rightarrow>
          if pm_selection permit \<noteq> kProbe then b
          else (case ConsumeProbe b (pm_probe_id permit) of
              (False, b) \<Rightarrow> b
            | (True, b) \<Rightarrow>
                let b = b\<lparr>cb_half_open_completed := cb_half_open_completed b + 1\<rparr> in
                if cb_half_open_completed b = bc_half_open_probes (cb_config b) then Close b else b)
      | kOpen \<Rightarrow> b)"

definition RecordFailure :: "circuit_breaker \<Rightarrow> time_point \<Rightarrow> request_permit \<Rightarrow> circuit_breaker" where
  "RecordFailure b now permit =
     (let b = AdvanceTo b now in
      if pm_generation permit \<noteq> cb_generation b then b
      else case cb_state b of
        kClosed \<Rightarrow>
          if pm_selection permit \<noteq> kAllowed then b else Evaluate (CountFailure b) now
      | kHalfOpen \<Rightarrow>
          if pm_selection permit \<noteq> kProbe then b
          else (case ConsumeProbe b (pm_probe_id permit) of
              (False, b) \<Rightarrow> b
            | (True, b) \<Rightarrow> Open b now)
      | kOpen \<Rightarrow> b)"

definition permit_of :: "selection \<Rightarrow> circuit_breaker \<Rightarrow> u64 \<Rightarrow> request_permit" where
  "permit_of s b probe_id = \<lparr>pm_selection = s, pm_generation = cb_generation b, pm_probe_id = probe_id\<rparr>"

definition Select :: "circuit_breaker \<Rightarrow> time_point \<Rightarrow> request_permit \<times> circuit_breaker" where
  "Select b now =
     (let b = AdvanceTo b now in
      case cb_state b of
        kClosed \<Rightarrow> (permit_of kAllowed b 0, b)
      | kOpen \<Rightarrow>
          if now < cb_open_until b then (permit_of kRejectedOpen b 0, b)
          else let b = BeginHalfOpen b in (permit_of kProbe b (last (cb_pending_probes b)), b)
      | kHalfOpen \<Rightarrow>
          if cb_half_open_issued b < bc_half_open_probes (cb_config b) then
            let b = b\<lparr>cb_half_open_issued := cb_half_open_issued b + 1,
                      cb_pending_probes := cb_pending_probes b @ [cb_next_probe_id b],
                      cb_next_probe_id := cb_next_probe_id b + 1\<rparr>
            in (permit_of kProbe b (last (cb_pending_probes b)), b)
          else (permit_of kRejectedHalfOpenQuota b 0, b))"

definition RefusesSelection :: "circuit_breaker \<Rightarrow> time_point \<Rightarrow> bool" where
  "RefusesSelection b now =
     (if cb_state b = kOpen \<and> now < cb_open_until b then True
      else if cb_state b = kHalfOpen \<and> cb_half_open_issued b \<ge> bc_half_open_probes (cb_config b) then True
      else False)"

text \<open>The loop that issues the whole quota of probe identifiers.\<close>

fun IssueProbes :: "nat \<Rightarrow> circuit_breaker \<Rightarrow> circuit_breaker" where
  "IssueProbes 0 b = b"
| "IssueProbes (Suc n) b =
     IssueProbes n (b\<lparr>cb_pending_probes := cb_pending_probes b @ [cb_next_probe_id b],
                      cb_next_probe_id := cb_next_probe_id b + 1\<rparr>)"

definition BeginFreshHalfOpenCycle :: "circuit_breaker \<Rightarrow> half_open_cycle \<times> circuit_breaker" where
  "BeginFreshHalfOpenCycle b =
     (let b = (AdvanceGeneration (b\<lparr>cb_state := kHalfOpen\<rparr>))
                \<lparr>cb_pending_probes := [], cb_half_open_completed := 0,
                 cb_half_open_issued := bc_half_open_probes (cb_config b)\<rparr>;
          base = cb_next_probe_id b;
          b = IssueProbes (bc_half_open_probes (cb_config b)) b
      in (\<lparr>hc_generation = cb_generation b, hc_probe_base = base,
           hc_quota = bc_half_open_probes (cb_config b)\<rparr>, b))"

section \<open>Snapshots\<close>

record bucket_snapshot =
  bs_age_from_export :: duration
  bs_success :: nat
  bs_failure :: nat

record breaker_snapshot =
  sn_state :: breaker_state
  sn_buckets :: "bucket_snapshot list"
  sn_open_remaining :: duration
  sn_half_open_quota :: nat
  sn_source_generation :: u64

definition ExportBuckets :: "circuit_breaker \<Rightarrow> time_point \<Rightarrow> bucket_snapshot list" where
  "ExportBuckets b now =
     map (\<lambda>k. \<lparr>bs_age_from_export = now - bkt_start k, bs_success = bkt_success k,
               bs_failure = bkt_failure k\<rparr>)
       (filter (\<lambda>k. \<not> (bkt_start k = 0 \<or> bkt_start k > now \<or> now - bkt_start k \<ge> window_ns (cb_config b)))
          (cb_buckets b))"

definition ExportSnapshot :: "circuit_breaker \<Rightarrow> time_point \<Rightarrow> breaker_snapshot" where
  "ExportSnapshot b now =
     (let s = \<lparr>sn_state = cb_state b, sn_buckets = [],
               sn_open_remaining = (if cb_state b = kOpen
                 then (if now < cb_open_until b then cb_open_until b - now else 0) else 0),
               sn_half_open_quota = (if cb_state b = kHalfOpen then bc_half_open_probes (cb_config b) else 0),
               sn_source_generation = cb_generation b\<rparr>
      in if cb_state b \<noteq> kClosed then s else s\<lparr>sn_buckets := ExportBuckets b now\<rparr>)"

text \<open>One turn of the loop that adds an exported bucket to the ring.\<close>

definition ImportBucket :: "circuit_breaker \<Rightarrow> time_point \<Rightarrow> bucket_snapshot \<Rightarrow> bucket list \<Rightarrow> bucket list" where
  "ImportBucket b now source buckets =
     (if bs_age_from_export source < 0 \<or> bs_age_from_export source \<ge> window_ns (cb_config b) then buckets
      else let bd = bucket_duration (cb_config b);
               steps_back = nat (tdiv (bs_age_from_export source) bd)
           in if steps_back \<ge> kBucketCount then buckets
              else let index = (kBucketCount - steps_back) mod kBucketCount;
                       target = buckets ! index;
                       start = (if bkt_start target = 0 then now - int steps_back * bd
                                else bkt_start target)
                   in buckets[index := \<lparr>bkt_start = start,
                        bkt_success = (bkt_success target + bs_success source) mod 2 ^ 32,
                        bkt_failure = (bkt_failure target + bs_failure source) mod 2 ^ 32\<rparr>])"

definition ImportReset :: "circuit_breaker \<Rightarrow> u64 \<Rightarrow> time_point \<Rightarrow> circuit_breaker" where
  "ImportReset b source_generation now =
     (AdvanceGeneration (b\<lparr>cb_generation := source_generation\<rparr>))
       \<lparr>cb_next_probe_id := 1, cb_pending_probes := [], cb_half_open_issued := 0,
        cb_half_open_completed := 0, cb_open_until := 0, cb_epoch := now, cb_active_start := now,
        cb_active_index := 0, cb_initialized := True,
        cb_buckets := (replicate kBucketCount Bucket_empty)
          [0 := \<lparr>bkt_start = now, bkt_success = 0, bkt_failure = 0\<rparr>]\<rparr>"

definition ImportSnapshot ::
    "circuit_breaker \<Rightarrow> breaker_snapshot \<Rightarrow> time_point \<Rightarrow> half_open_cycle option \<times> circuit_breaker" where
  "ImportSnapshot b snapshot now =
     (let b = ImportReset b (sn_source_generation snapshot) now in
      if sn_state snapshot = kClosed then
        (None, b\<lparr>cb_state := kClosed,
                 cb_buckets := fold (ImportBucket b now) (sn_buckets snapshot) (cb_buckets b)\<rparr>)
      else if sn_state snapshot = kOpen \<and> sn_open_remaining snapshot > 0 then
        (None, b\<lparr>cb_state := kOpen, cb_open_until := now + sn_open_remaining snapshot\<rparr>)
      else let (cycle, b) = BeginFreshHalfOpenCycle b in (Some cycle, b))"

section \<open>The operations as one step function\<close>

datatype breaker_op =
  OpSuccess time_point request_permit
| OpFailure time_point request_permit
| OpSelect time_point
| OpFreshCycle
| OpImport breaker_snapshot time_point

fun breaker_step :: "breaker_op \<Rightarrow> circuit_breaker \<Rightarrow> circuit_breaker" where
  "breaker_step (OpSuccess now permit) b = RecordSuccess b now permit"
| "breaker_step (OpFailure now permit) b = RecordFailure b now permit"
| "breaker_step (OpSelect now) b = snd (Select b now)"
| "breaker_step OpFreshCycle b = snd (BeginFreshHalfOpenCycle b)"
| "breaker_step (OpImport snapshot now) b = snd (ImportSnapshot b snapshot now)"

definition breaker_run :: "breaker_op list \<Rightarrow> circuit_breaker \<Rightarrow> circuit_breaker" where
  "breaker_run ops b = fold breaker_step ops b"

section \<open>Invariant\<close>

definition probes_ok :: "circuit_breaker \<Rightarrow> bool" where
  "probes_ok b \<longleftrightarrow>
     distinct (cb_pending_probes b)
     \<and> length (cb_pending_probes b) + cb_half_open_completed b = cb_half_open_issued b
     \<and> cb_half_open_issued b \<le> bc_half_open_probes (cb_config b)
     \<and> cb_half_open_completed b < bc_half_open_probes (cb_config b)
     \<and> (\<forall>p \<in> set (cb_pending_probes b).
          \<exists>i < cb_half_open_issued b. p = cb_next_probe_id b - 1 - of_nat i)"

definition ring_aligned :: "circuit_breaker \<Rightarrow> bool" where
  "ring_aligned b \<longleftrightarrow>
     length (cb_buckets b) = kBucketCount \<and> cb_active_index b < kBucketCount
     \<and> (cb_initialized b \<longrightarrow>
          (\<exists>k. cb_active_start b = cb_epoch b + int k * bucket_duration (cb_config b)
             \<and> cb_active_index b = k mod kBucketCount))"

definition breaker_inv :: "circuit_breaker \<Rightarrow> bool" where
  "breaker_inv b \<longleftrightarrow>
     breaker_config_ok (cb_config b) \<and> bc_half_open_probes (cb_config b) \<le> u32_max
     \<and> cb_generation b \<noteq> 0 \<and> ring_aligned b
     \<and> (if cb_state b = kHalfOpen then probes_ok b
        else cb_pending_probes b = [] \<and> cb_half_open_issued b = 0 \<and> cb_half_open_completed b = 0)"

subsection \<open>Frames\<close>

lemma AdvanceInit_frame [simp]:
  "cb_config (AdvanceInit b) = cb_config b" "cb_state (AdvanceInit b) = cb_state b"
  "cb_epoch (AdvanceInit b) = cb_epoch b" "cb_open_until (AdvanceInit b) = cb_open_until b"
  "cb_generation (AdvanceInit b) = cb_generation b" "cb_next_probe_id (AdvanceInit b) = cb_next_probe_id b"
  "cb_pending_probes (AdvanceInit b) = cb_pending_probes b"
  "cb_half_open_issued (AdvanceInit b) = cb_half_open_issued b"
  "cb_half_open_completed (AdvanceInit b) = cb_half_open_completed b"
  "cb_initialized (AdvanceInit b)" "length (cb_buckets (AdvanceInit b)) = length (cb_buckets b)"
  by (simp_all add: AdvanceInit_def)

lemma AdvanceOne_frame [simp]:
  "cb_config (AdvanceOne b) = cb_config b" "cb_state (AdvanceOne b) = cb_state b"
  "cb_epoch (AdvanceOne b) = cb_epoch b" "cb_open_until (AdvanceOne b) = cb_open_until b"
  "cb_generation (AdvanceOne b) = cb_generation b" "cb_next_probe_id (AdvanceOne b) = cb_next_probe_id b"
  "cb_pending_probes (AdvanceOne b) = cb_pending_probes b"
  "cb_half_open_issued (AdvanceOne b) = cb_half_open_issued b"
  "cb_half_open_completed (AdvanceOne b) = cb_half_open_completed b"
  "cb_initialized (AdvanceOne b) = cb_initialized b"
  "length (cb_buckets (AdvanceOne b)) = length (cb_buckets b)"
  by (simp_all add: AdvanceOne_def Let_def)

lemma AdvanceOne_pow_frame [simp]:
  "cb_config ((AdvanceOne ^^ n) b) = cb_config b" "cb_state ((AdvanceOne ^^ n) b) = cb_state b"
  "cb_epoch ((AdvanceOne ^^ n) b) = cb_epoch b" "cb_open_until ((AdvanceOne ^^ n) b) = cb_open_until b"
  "cb_generation ((AdvanceOne ^^ n) b) = cb_generation b"
  "cb_next_probe_id ((AdvanceOne ^^ n) b) = cb_next_probe_id b"
  "cb_pending_probes ((AdvanceOne ^^ n) b) = cb_pending_probes b"
  "cb_half_open_issued ((AdvanceOne ^^ n) b) = cb_half_open_issued b"
  "cb_half_open_completed ((AdvanceOne ^^ n) b) = cb_half_open_completed b"
  "cb_initialized ((AdvanceOne ^^ n) b) = cb_initialized b"
  "length (cb_buckets ((AdvanceOne ^^ n) b)) = length (cb_buckets b)"
  by (induction n) simp_all

lemma AdvanceTo_frame [simp]:
  "cb_config (AdvanceTo b now) = cb_config b" "cb_state (AdvanceTo b now) = cb_state b"
  "cb_epoch (AdvanceTo b now) = cb_epoch b" "cb_open_until (AdvanceTo b now) = cb_open_until b"
  "cb_generation (AdvanceTo b now) = cb_generation b"
  "cb_next_probe_id (AdvanceTo b now) = cb_next_probe_id b"
  "cb_pending_probes (AdvanceTo b now) = cb_pending_probes b"
  "cb_half_open_issued (AdvanceTo b now) = cb_half_open_issued b"
  "cb_half_open_completed (AdvanceTo b now) = cb_half_open_completed b"
  by (simp_all add: AdvanceTo_def Let_def)

subsection \<open>The ring\<close>

lemma bucket_duration_pos:
  assumes "breaker_config_ok c"
  shows "0 < bucket_duration c" and "window_ns c = 10 * bucket_duration c"
proof -
  have w: "0 < bc_window c" using assms by (simp add: breaker_config_ok_def)
  have "bucket_duration c = bc_window c * 100000"
    using w by (simp add: bucket_duration_def window_ns_def kBucketCount_def)
  with w show "0 < bucket_duration c" "window_ns c = 10 * bucket_duration c"
    by (simp_all add: window_ns_def)
qed

lemma AdvanceOne_pow_position:
  "cb_active_start ((AdvanceOne ^^ n) b) = cb_active_start b + int n * bucket_duration (cb_config b)"
  "cb_active_index b < kBucketCount \<Longrightarrow>
   cb_active_index ((AdvanceOne ^^ n) b) = (cb_active_index b + n) mod kBucketCount"
  by (induction n) (simp_all add: AdvanceOne_def Let_def algebra_simps mod_Suc_eq)

text \<open>
  After \<open>AdvanceTo\<close> the active bucket is the one whose interval contains the clock reading,
  also when the ring was cleared in one step.
\<close>

lemma AdvanceInit_aligned:
  assumes "ring_aligned b"
  shows "ring_aligned (AdvanceInit b)"
proof (cases "cb_initialized b")
  case False
  with assms show ?thesis
    by (auto simp: AdvanceInit_def ring_aligned_def kBucketCount_def intro: exI [of _ 0])
qed (use assms in \<open>simp add: AdvanceInit_def\<close>)

lemma AdvanceTo_aligned:
  assumes "ring_aligned b" and "breaker_config_ok (cb_config b)"
  shows "ring_aligned (AdvanceTo b now)"
proof (cases "now < cb_epoch b")
  case True
  with assms show ?thesis by (simp add: AdvanceTo_def)
next
  case False
  let ?bd = "bucket_duration (cb_config b)"
  have bd: "0 < ?bd" using bucket_duration_pos [OF assms(2)] by simp
  define a where "a = AdvanceInit b"
  have frame: "cb_config a = cb_config b" "cb_epoch a = cb_epoch b" "cb_initialized a"
    by (simp_all add: a_def)
  have al: "ring_aligned a" using AdvanceInit_aligned [OF assms(1)] by (simp add: a_def)
  then obtain k where k: "cb_active_start a = cb_epoch b + int k * ?bd"
      "cb_active_index a = k mod kBucketCount" and len: "length (cb_buckets a) = kBucketCount"
    using frame by (auto simp: ring_aligned_def)
  show ?thesis
  proof (cases "now < cb_active_start a + ?bd")
    case True
    with False al show ?thesis by (simp add: AdvanceTo_def Let_def flip: a_def)
  next
    case later: False
    let ?n = "nat (tdiv (now - cb_active_start a) ?bd)"
    show ?thesis
    proof (cases "?n \<ge> kBucketCount")
      case True
      define q where "q = nat ((now - cb_epoch b) div ?bd)"
      have "now - (now - cb_epoch b) mod ?bd = cb_epoch b + int q * ?bd"
        using False bd by (simp add: q_def pos_imp_zdiv_nonneg_iff minus_mod_eq_div_mult algebra_simps)
      with False True later bd frame show ?thesis
        by (auto simp: AdvanceTo_def Let_def ring_aligned_def kBucketCount_def q_def simp flip: a_def
            intro!: exI [of _ q])
    next
      case less: False
      have "AdvanceTo b now = (AdvanceOne ^^ ?n) a"
        using False less later by (simp add: AdvanceTo_def Let_def frame flip: a_def)
      moreover have "cb_active_index a < kBucketCount" using k by (simp add: kBucketCount_def)
      ultimately show ?thesis
        using k len frame
        by (auto simp: ring_aligned_def AdvanceOne_pow_position algebra_simps mod_add_left_eq
            intro!: exI [of _ "k + ?n"])
    qed
  qed
qed

lemma next_generation_nonzero [simp]: "next_generation g \<noteq> 0"
  by (auto simp: next_generation_def)

lemma next_generation_neq [simp]: "next_generation g \<noteq> g"
  by (auto simp: next_generation_def)

lemma ring_aligned_cong:
  "cb_buckets b' = cb_buckets b \<Longrightarrow> cb_active_index b' = cb_active_index b \<Longrightarrow>
   cb_initialized b' = cb_initialized b \<Longrightarrow> cb_active_start b' = cb_active_start b \<Longrightarrow>
   cb_epoch b' = cb_epoch b \<Longrightarrow> cb_config b' = cb_config b \<Longrightarrow> ring_aligned b \<Longrightarrow> ring_aligned b'"
  by (simp add: ring_aligned_def)

lemma AdvanceTo_inv: "breaker_inv b \<Longrightarrow> breaker_inv (AdvanceTo b now)"
  using AdvanceTo_aligned [of b now] by (auto simp: breaker_inv_def probes_ok_def)

lemma Open_inv: "breaker_inv b \<Longrightarrow> breaker_inv (Open b now)"
  by (auto simp: breaker_inv_def Open_def AdvanceGeneration_def elim: ring_aligned_cong [rotated -1])

lemma Close_inv: "breaker_inv b \<Longrightarrow> breaker_inv (Close b)"
  by (auto simp: breaker_inv_def Close_def AdvanceGeneration_def ring_aligned_def kBucketCount_def)

lemma Evaluate_inv: "breaker_inv b \<Longrightarrow> breaker_inv (Evaluate b now)"
  by (simp add: Evaluate_def Open_inv)

lemma Count_inv:
  "breaker_inv b \<Longrightarrow> cb_state b = kClosed \<Longrightarrow> breaker_inv (CountSuccess b)"
  "breaker_inv b \<Longrightarrow> cb_state b = kClosed \<Longrightarrow> breaker_inv (CountFailure b)"
  by (auto simp: breaker_inv_def CountSuccess_def CountFailure_def ring_aligned_def)

lemma word_offset_nonzero: "0 < n \<Longrightarrow> n < 2 ^ 64 \<Longrightarrow> (of_nat n :: u64) \<noteq> 0"
  by (auto simp: word_of_nat_eq_0_iff dest: nat_dvd_not_less)

lemma probe_fresh:
  assumes "\<forall>p \<in> set ps. \<exists>i < n. p = x - 1 - of_nat i" and "n < 2 ^ 64"
  shows "(x :: u64) \<notin> set ps"
proof
  assume "x \<in> set ps"
  then obtain i where i: "i < n" "x = x - 1 - of_nat i" using assms(1) by blast
  then have "(of_nat (Suc i) :: u64) = 0" by (simp add: algebra_simps)
  with word_offset_nonzero [of "Suc i"] i(1) assms(2) show False by simp
qed

lemma probes_shift:
  assumes "\<forall>p \<in> set ps. \<exists>i < n. p = x - 1 - of_nat i"
  shows "\<forall>p \<in> set (ps @ [x]). \<exists>i < Suc n. p = (x + 1) - 1 - (of_nat i :: u64)"
proof
  fix p assume "p \<in> set (ps @ [x])"
  then consider "p = x" | "p \<in> set ps" by auto
  then show "\<exists>i < Suc n. p = (x + 1) - 1 - of_nat i"
  proof cases
    case 1
    then show ?thesis by (intro exI [of _ 0]) simp
  next
    case 2
    then obtain i where "i < n" "p = x - 1 - of_nat i" using assms by blast
    then show ?thesis by (intro exI [of _ "Suc i"]) (simp add: algebra_simps)
  qed
qed

lemma issue_probe_ok:
  assumes "probes_ok b" and "cb_half_open_issued b < bc_half_open_probes (cb_config b)"
    and "bc_half_open_probes (cb_config b) \<le> u32_max"
  shows "probes_ok (b\<lparr>cb_half_open_issued := cb_half_open_issued b + 1,
    cb_pending_probes := cb_pending_probes b @ [cb_next_probe_id b],
    cb_next_probe_id := cb_next_probe_id b + 1\<rparr>)"
proof -
  have all: "\<forall>p \<in> set (cb_pending_probes b).
      \<exists>i < cb_half_open_issued b. p = cb_next_probe_id b - 1 - of_nat i"
    using assms(1) by (simp add: probes_ok_def)
  have "cb_next_probe_id b \<notin> set (cb_pending_probes b)"
    using probe_fresh [OF all] assms(2,3) by simp
  with probes_shift [OF all] assms show ?thesis by (simp add: probes_ok_def)
qed

lemma ConsumeProbe_ok:
  assumes "probes_ok b" and "p \<in> set (cb_pending_probes b)"
    and "cb_half_open_completed b + 1 < bc_half_open_probes (cb_config b)"
  shows "probes_ok (b\<lparr>cb_pending_probes := remove1 p (cb_pending_probes b),
    cb_half_open_completed := cb_half_open_completed b + 1\<rparr>)"
proof -
  obtain n where "length (cb_pending_probes b) = Suc n" using assms(2) by (cases "cb_pending_probes b") auto
  with assms show ?thesis
    by (auto simp: probes_ok_def length_remove1 distinct_remove1 dest: set_remove1_subset [THEN subsetD])
qed

lemma breaker_inv_cases:
  "breaker_inv b \<Longrightarrow> cb_state b = kHalfOpen \<Longrightarrow> probes_ok b"
  by (simp add: breaker_inv_def)

lemma RecordSuccess_inv:
  assumes "breaker_inv b"
  shows "breaker_inv (RecordSuccess b now permit)"
proof -
  define a where "a = AdvanceTo b now"
  have inv: "breaker_inv a" using assms AdvanceTo_inv by (simp add: a_def)
  have closed: "breaker_inv (Evaluate (CountSuccess a) now)" if "cb_state a = kClosed"
    using inv that Count_inv Evaluate_inv by blast
  define d where "d = a\<lparr>cb_pending_probes := remove1 (pm_probe_id permit) (cb_pending_probes a),
    cb_half_open_completed := cb_half_open_completed a + 1\<rparr>"
  have half: "breaker_inv (if cb_half_open_completed d = bc_half_open_probes (cb_config d) then Close d else d)"
    if "cb_state a = kHalfOpen" "pm_probe_id permit \<in> set (cb_pending_probes a)"
  proof (cases "cb_half_open_completed d = bc_half_open_probes (cb_config d)")
    case True
    have "breaker_inv (Close d)"
      using inv by (auto simp: breaker_inv_def Close_def AdvanceGeneration_def ring_aligned_def
          kBucketCount_def d_def)
    with True show ?thesis by simp
  next
    case False
    have "probes_ok d"
      using ConsumeProbe_ok [OF breaker_inv_cases [OF inv that(1)] that(2)] False
        breaker_inv_cases [OF inv that(1)] by (simp add: d_def probes_ok_def)
    with False inv that show ?thesis by (auto simp: breaker_inv_def d_def elim: ring_aligned_cong [rotated -1])
  qed
  show ?thesis
    using inv closed half
    by (auto simp: RecordSuccess_def Let_def ConsumeProbe_def d_def simp flip: a_def split: breaker_state.split)
qed

lemma RecordFailure_inv:
  assumes "breaker_inv b"
  shows "breaker_inv (RecordFailure b now permit)"
proof -
  define a where "a = AdvanceTo b now"
  have inv: "breaker_inv a" using assms AdvanceTo_inv by (simp add: a_def)
  have "breaker_inv (Open (a\<lparr>cb_pending_probes := ps\<rparr>) now)" for ps
    using inv by (auto simp: breaker_inv_def Open_def AdvanceGeneration_def elim: ring_aligned_cong [rotated -1])
  moreover have "breaker_inv (Evaluate (CountFailure a) now)" if "cb_state a = kClosed"
    using inv that Count_inv Evaluate_inv by blast
  ultimately show ?thesis
    using inv
    by (auto simp: RecordFailure_def Let_def ConsumeProbe_def simp flip: a_def split: breaker_state.split)
qed

lemma BeginHalfOpen_inv: "breaker_inv b \<Longrightarrow> breaker_inv (BeginHalfOpen b)"
  by (auto simp: breaker_inv_def BeginHalfOpen_def AdvanceGeneration_def probes_ok_def
      breaker_config_ok_def Suc_le_eq elim: ring_aligned_cong [rotated -1])

lemma Select_inv:
  assumes "breaker_inv b"
  shows "breaker_inv (snd (Select b now))"
proof -
  define a where "a = AdvanceTo b now"
  have inv: "breaker_inv a" using assms AdvanceTo_inv by (simp add: a_def)
  define d where "d = a\<lparr>cb_half_open_issued := cb_half_open_issued a + 1,
    cb_pending_probes := cb_pending_probes a @ [cb_next_probe_id a],
    cb_next_probe_id := cb_next_probe_id a + 1\<rparr>"
  have "breaker_inv d"
    if "cb_state a = kHalfOpen" "cb_half_open_issued a < bc_half_open_probes (cb_config a)"
    using inv that issue_probe_ok [OF breaker_inv_cases [OF inv that(1)] that(2)]
    by (auto simp: breaker_inv_def d_def elim: ring_aligned_cong [rotated -1])
  with inv BeginHalfOpen_inv [OF inv] show ?thesis
    by (auto simp: Select_def Let_def d_def simp flip: a_def split: breaker_state.split)
qed

subsection \<open>Probe cycles and import\<close>

lemma IssueProbes_eq:
  "IssueProbes n b = b\<lparr>
     cb_pending_probes := cb_pending_probes b @ map (\<lambda>i. cb_next_probe_id b + of_nat i) [0..<n],
     cb_next_probe_id := cb_next_probe_id b + of_nat n\<rparr>"
proof (induction n arbitrary: b)
  case (Suc n)
  have "map (\<lambda>i. cb_next_probe_id b + 1 + of_nat i) [0..<n]
      = map (\<lambda>i. cb_next_probe_id b + of_nat i) [Suc 0..<Suc n]"
    by (simp add: map_Suc_upt [symmetric] del: map_Suc_upt upt_Suc)
  then show ?case by (simp add: Suc upt_conv_Cons algebra_simps del: upt_Suc)
qed simp

definition cycle_ids :: "half_open_cycle \<Rightarrow> u64 list" where
  "cycle_ids c = map (\<lambda>i. hc_probe_base c + of_nat i) [0..<hc_quota c]"

lemma cycle_ids_distinct: "hc_quota c \<le> u32_max \<Longrightarrow> distinct (cycle_ids c)"
  by (auto simp: cycle_ids_def distinct_map inj_on_def word_of_nat_eq_iff take_bit_nat_eq_self)

lemma BeginFresh_eq:
  "BeginFreshHalfOpenCycle b =
     (\<lparr>hc_generation = next_generation (cb_generation b), hc_probe_base = cb_next_probe_id b,
       hc_quota = bc_half_open_probes (cb_config b)\<rparr>,
      b\<lparr>cb_state := kHalfOpen, cb_generation := next_generation (cb_generation b),
        cb_half_open_completed := 0, cb_half_open_issued := bc_half_open_probes (cb_config b),
        cb_pending_probes := map (\<lambda>i. cb_next_probe_id b + of_nat i) [0..<bc_half_open_probes (cb_config b)],
        cb_next_probe_id := cb_next_probe_id b + of_nat (bc_half_open_probes (cb_config b))\<rparr>)"
  by (simp add: BeginFreshHalfOpenCycle_def AdvanceGeneration_def IssueProbes_eq Let_def)

lemma BeginFresh_inv:
  assumes "breaker_config_ok (cb_config b)" and "bc_half_open_probes (cb_config b) \<le> u32_max"
    and "ring_aligned b"
  shows "breaker_inv (snd (BeginFreshHalfOpenCycle b))"
proof -
  let ?q = "bc_half_open_probes (cb_config b)" and ?x = "cb_next_probe_id b"
  have pos: "0 < ?q" using assms(1) by (simp add: breaker_config_ok_def)
  have "distinct (map (\<lambda>i. ?x + of_nat i) [0..<?q])"
    using cycle_ids_distinct [of "\<lparr>hc_generation = 0, hc_probe_base = ?x, hc_quota = ?q\<rparr>"] assms(2)
    by (simp add: cycle_ids_def)
  moreover have "\<exists>j < ?q. ?x + of_nat i = ?x + of_nat ?q - 1 - of_nat j" if "i < ?q" for i
  proof (intro exI conjI)
    show "?q - 1 - i < ?q" using pos by simp
    have "of_nat ?q = (1 :: u64) + of_nat i + of_nat (?q - 1 - i)"
      using that pos by (simp flip: of_nat_add of_nat_Suc)
    then show "?x + of_nat i = ?x + of_nat ?q - 1 - of_nat (?q - 1 - i)" by simp
  qed
  ultimately show ?thesis
    using assms pos
    by (auto simp: BeginFresh_eq breaker_inv_def probes_ok_def elim: ring_aligned_cong [rotated -1])
qed

lemma ImportBucket_length [simp]: "length (ImportBucket b now src buckets) = length buckets"
  by (simp add: ImportBucket_def Let_def)

lemma fold_ImportBucket_length [simp]:
  "length (fold (ImportBucket b now) srcs buckets) = length buckets"
  by (induction srcs arbitrary: buckets) simp_all

lemma ImportReset_fields:
  "cb_config (ImportReset b g now) = cb_config b"
  "cb_generation (ImportReset b g now) = next_generation g"
  "ring_aligned (ImportReset b g now)"
  "cb_pending_probes (ImportReset b g now) = []" "cb_half_open_issued (ImportReset b g now) = 0"
  "cb_half_open_completed (ImportReset b g now) = 0"
  by (auto simp: ImportReset_def AdvanceGeneration_def ring_aligned_def kBucketCount_def
      intro: exI [of _ 0])

lemma ImportSnapshot_inv:
  assumes "breaker_inv b"
  shows "breaker_inv (snd (ImportSnapshot b snapshot now))"
proof -
  define a where "a = ImportReset b (sn_source_generation snapshot) now"
  have a: "breaker_config_ok (cb_config a)" "bc_half_open_probes (cb_config a) \<le> u32_max"
    "ring_aligned a" "cb_generation a \<noteq> 0" "cb_pending_probes a = []" "cb_half_open_issued a = 0"
    "cb_half_open_completed a = 0"
    using assms by (simp_all add: a_def ImportReset_fields breaker_inv_def)
  then show ?thesis
    using BeginFresh_inv [of a]
    by (auto simp: ImportSnapshot_def Let_def breaker_inv_def ring_aligned_def simp flip: a_def
        split: prod.split)
qed

lemma breaker_step_inv: "breaker_inv b \<Longrightarrow> breaker_inv (breaker_step op b)"
  by (cases op)
    (auto simp: RecordSuccess_inv RecordFailure_inv Select_inv ImportSnapshot_inv
      intro: BeginFresh_inv simp: breaker_inv_def [of b])

lemma breaker_run_inv: "breaker_inv b \<Longrightarrow> breaker_inv (breaker_run ops b)"
  unfolding breaker_run_def by (induction ops arbitrary: b) (simp_all add: breaker_step_inv)

lemma CircuitBreaker_new_inv:
  "CircuitBreaker_new c now = Inr b \<Longrightarrow> bc_half_open_probes c \<le> u32_max \<Longrightarrow> breaker_inv b"
  by (auto simp: CircuitBreaker_new_def breaker_inv_def ring_aligned_def kBucketCount_def split: if_splits)

text \<open>
   C11. The breaker's invariant holds after every sequence of outcomes (with arbitrary permits
  and clock readings), selections, fresh cycles and imports: the generation is never the
  reserved zero; the ring has ten buckets with the active one aligned to the epoch; while
  half-open the pending probe identifiers are distinct, issued = pending + completed, at
  most the quota is issued and fewer than the quota are completed; otherwise no probe is
  pending.
\<close>

theorem CircuitBreaker_invariant:
  assumes "CircuitBreaker_new config start = Inr b" and "bc_half_open_probes config \<le> u32_max"
  shows "breaker_inv (breaker_run ops b)"
  using CircuitBreaker_new_inv [OF assms] by (rule breaker_run_inv)

definition sample_breaker_config :: breaker_config where
  "sample_breaker_config = \<lparr>bc_window = 10000, bc_min_requests = 2, bc_failure_threshold_permille = 500,
     bc_open_duration = 3000, bc_half_open_probes = 2\<rparr>"

definition sample_breaker :: circuit_breaker where
  "sample_breaker = \<lparr>cb_config = sample_breaker_config, cb_state = kClosed, cb_epoch = 7,
     cb_active_start = 0, cb_active_index = 0, cb_initialized = False,
     cb_buckets = replicate 10 Bucket_empty, cb_open_until = 0, cb_generation = 1,
     cb_next_probe_id = 1, cb_pending_probes = [], cb_half_open_issued = 0,
     cb_half_open_completed = 0\<rparr>"

lemma sample_breaker_new: "CircuitBreaker_new sample_breaker_config 7 = Inr sample_breaker"
  by (simp add: CircuitBreaker_new_def sample_breaker_config_def sample_breaker_def
      breaker_config_ok_def kBucketCount_def)

theorem CircuitBreaker_invariant_witness:
  "breaker_inv (breaker_run [OpFailure 8 (permit_of kAllowed sample_breaker 0),
     OpFailure 9 (permit_of kAllowed sample_breaker 0), OpSelect 3000000009] sample_breaker)
   \<and> cb_state (breaker_run [OpFailure 8 (permit_of kAllowed sample_breaker 0),
     OpFailure 9 (permit_of kAllowed sample_breaker 0), OpSelect 3000000009] sample_breaker) = kHalfOpen"
proof
  show "breaker_inv (breaker_run [OpFailure 8 (permit_of kAllowed sample_breaker 0),
     OpFailure 9 (permit_of kAllowed sample_breaker 0), OpSelect 3000000009] sample_breaker)"
    by (rule CircuitBreaker_invariant [OF sample_breaker_new]) (simp add: sample_breaker_config_def)
  show "cb_state (breaker_run [OpFailure 8 (permit_of kAllowed sample_breaker 0),
     OpFailure 9 (permit_of kAllowed sample_breaker 0), OpSelect 3000000009] sample_breaker) = kHalfOpen"
    by code_simp
qed

end
