(* ===== verification/BreakerCycle.thy ===== *)
theory BreakerCycle
  imports Breaker
begin

text \<open>
  Generations and half-open cycles of the circuit breaker: outcomes that carry the permit of
  an older generation change nothing but the clock of the ring; a generation is not used
  again until all others have been; and the outcome of a half-open cycle is determined by the
  first report of each of its probes.
\<close>

section \<open>Generations\<close>

definition advance_generations :: "nat \<Rightarrow> u64 \<Rightarrow> u64" where
  "advance_generations n g = (next_generation ^^ n) g"

text \<open>Reports of the probes of one cycle: clock reading, probe identifier, success.\<close>

definition report_probe ::
    "half_open_cycle \<Rightarrow> time_point \<times> u64 \<times> bool \<Rightarrow> circuit_breaker \<Rightarrow> circuit_breaker" where
  "report_probe c = (\<lambda>(now, p, ok) b.
     let permit = \<lparr>pm_selection = kProbe, pm_generation = hc_generation c, pm_probe_id = p\<rparr>
     in if ok then RecordSuccess b now permit else RecordFailure b now permit)"

definition report_probes ::
    "half_open_cycle \<Rightarrow> (time_point \<times> u64 \<times> bool) list \<Rightarrow> circuit_breaker \<Rightarrow> circuit_breaker" where
  "report_probes c rs b = fold (report_probe c) rs b"

lemma next_generation_2_neq: "next_generation (next_generation g) \<noteq> g"
proof
  assume a: "next_generation (next_generation g) = g"
  have "(2 :: u64) \<noteq> 0" "(3 :: u64) \<noteq> 0" by simp_all
  moreover have "g + 2 = g \<or> g + 3 = g \<or> g + 4 = g"
    using a by (auto simp: next_generation_def split: if_splits)
  moreover have "(4 :: u64) \<noteq> 0" by simp
  ultimately show False by simp
qed

text \<open>The generations are a cycle of length \<open>2 ^ 64 - 1\<close>.\<close>

lemma unat_next_generation:
  assumes "g \<noteq> 0"
  shows "unat (next_generation g) - 1 = (unat g - 1 + 1) mod (2 ^ 64 - 1)"
proof (cases "g = - 1")
  case True
  then show ?thesis by (simp add: next_generation_def unsigned_minus_1_eq_mask mask_eq_exp_minus_1)
next
  case False
  have lt: "unat g < 2 ^ 64" using unsigned_less [of g, where 'a = nat] by simp
  have neq: "unat g \<noteq> 2 ^ 64 - 1"
  proof
    assume "unat g = 2 ^ 64 - 1"
    then have "unat g = unat (- 1 :: u64)" by (simp add: unsigned_minus_1_eq_mask mask_eq_exp_minus_1)
    with False show False by (simp only: word_unat_eq_iff)
  qed
  have "g + 1 \<noteq> 0" using False by (simp add: eq_neg_iff_add_eq_0)
  then have "unat (next_generation g) = unat g + 1"
    using lt neq by (simp add: next_generation_def unat_word_ariths(1))
  moreover have "0 < unat g" using assms by (simp add: unat_gt_0)
  ultimately show ?thesis using lt neq by simp
qed

lemma unat_advance_generations:
  assumes "g \<noteq> 0"
  shows "unat (advance_generations n g) - 1 = (unat g - 1 + n) mod (2 ^ 64 - 1)
    \<and> advance_generations n g \<noteq> 0"
proof (induction n)
  case 0
  have "unat g \<le> 2 ^ 64 - 1" using unsigned_less [of g, where 'a = nat] by simp
  moreover have "0 < unat g" using assms by (simp add: unat_gt_0)
  ultimately show ?case using assms by (simp add: advance_generations_def)
next
  case (Suc n)
  then show ?case
    using unat_next_generation [of "advance_generations n g"]
    by (simp add: advance_generations_def mod_Suc_eq)
qed

lemma advance_generations_inj:
  assumes "g \<noteq> 0" and "m < n" and "n - m < 2 ^ 64 - 1"
  shows "advance_generations m g \<noteq> advance_generations n g"
proof
  assume "advance_generations m g = advance_generations n g"
  then have "(unat g - 1 + m) mod (2 ^ 64 - 1) = (unat g - 1 + n) mod (2 ^ 64 - 1)"
    using unat_advance_generations [OF assms(1)] by metis
  then have "(2 ^ 64 - 1) dvd (unat g - 1 + n) - (unat g - 1 + m)"
    using assms(2) by (metis add_le_cancel_left less_imp_le_nat mod_eq_dvd_iff_nat)
  with assms show False by (simp add: nat_dvd_not_less)
qed

text \<open>
   A generation is not used again before \<open>2 ^ 64 - 1\<close> transitions: the epochs after \<open>m\<close>
  and after \<open>n\<close> transitions differ whenever fewer transitions than that lie between them,
  also across the wrap-around that skips zero.  So a permit of an older epoch cannot be
  mistaken for a current one.
\<close>

theorem generations_distinct:
  assumes "g \<noteq> 0" and "m < n" and "n - m < 2 ^ 64 - 1"
  shows "advance_generations m g \<noteq> advance_generations n g"
  using advance_generations_inj [OF assms] .

theorem generations_distinct_witness:
  "advance_generations 0 18446744073709551615 \<noteq> advance_generations 3 18446744073709551615"
  by (rule generations_distinct) simp_all

section \<open>Half-open cycles\<close>

definition in_cycle :: "half_open_cycle \<Rightarrow> u64 set \<Rightarrow> circuit_breaker \<Rightarrow> bool" where
  "in_cycle c P b \<longleftrightarrow>
     cb_state b = kHalfOpen \<and> cb_generation b = hc_generation c \<and> distinct (cb_pending_probes b)
     \<and> set (cb_pending_probes b) = P \<and> P \<noteq> {}
     \<and> length (cb_pending_probes b) + cb_half_open_completed b = bc_half_open_probes (cb_config b)"

lemma report_stale:
  "cb_generation b \<noteq> hc_generation c \<Longrightarrow> report_probe c r b = AdvanceTo b (fst r)"
  by (auto simp: report_probe_def RecordSuccess_def RecordFailure_def Let_def split: prod.split)

lemma reports_stale:
  "cb_generation b \<noteq> hc_generation c \<Longrightarrow> cb_state (report_probes c rs b) = cb_state b"
  unfolding report_probes_def by (induction rs arbitrary: b) (simp_all add: report_stale)

lemma report_in_cycle:
  assumes "in_cycle c P b"
  shows "p \<notin> P \<Longrightarrow> in_cycle c P (report_probe c (now, p, ok) b)"
    and "p \<in> P \<Longrightarrow> P - {p} \<noteq> {} \<Longrightarrow> in_cycle c (P - {p}) (report_probe c (now, p, True) b)"
    and "p \<in> P \<Longrightarrow> P - {p} = {} \<Longrightarrow> cb_state (report_probe c (now, p, True) b) = kClosed
      \<and> cb_generation (report_probe c (now, p, True) b) \<noteq> hc_generation c"
    and "p \<in> P \<Longrightarrow> cb_state (report_probe c (now, p, False) b) = kOpen
      \<and> cb_generation (report_probe c (now, p, False) b) \<noteq> hc_generation c"
proof -
  define a where "a = AdvanceTo b now"
  have a: "cb_state a = kHalfOpen" "cb_generation a = hc_generation c" "distinct (cb_pending_probes a)"
    "set (cb_pending_probes a) = P" "cb_config a = cb_config b"
    "length (cb_pending_probes a) + cb_half_open_completed a = bc_half_open_probes (cb_config b)"
    using assms by (simp_all add: a_def in_cycle_def)
  have gen: "cb_generation b = hc_generation c" using assms by (simp add: in_cycle_def)
  note defs = report_probe_def RecordSuccess_def RecordFailure_def ConsumeProbe_def Let_def
  show "in_cycle c P (report_probe c (now, p, ok) b)" if "p \<notin> P"
    using that assms a by (auto simp: defs in_cycle_def simp flip: a_def)
  have len: "length (remove1 p (cb_pending_probes a)) = card (P - {p})"
    and set1: "set (remove1 p (cb_pending_probes a)) = P - {p}" if "p \<in> P"
    using a(3,4) that distinct_card [of "remove1 p (cb_pending_probes a)"] by auto
  have card: "length (cb_pending_probes a) = Suc (card (P - {p}))" if "p \<in> P"
    using distinct_card [OF a(3)] a(4) that by (metis List.finite_set card_Suc_Diff1)
  show "in_cycle c (P - {p}) (report_probe c (now, p, True) b)" if "p \<in> P" "P - {p} \<noteq> {}"
  proof -
    have "finite P" using a(4) by auto
    then have "0 < card (P - {p})" using that(2) by (simp add: card_gt_0_iff)
    with that a len [OF that(1)] card [OF that(1)] set1 [OF that(1)] gen show ?thesis
      by (simp add: defs in_cycle_def flip: a_def)
  qed
  show "cb_state (report_probe c (now, p, True) b) = kClosed
      \<and> cb_generation (report_probe c (now, p, True) b) \<noteq> hc_generation c" if "p \<in> P" "P - {p} = {}"
  proof -
    have "length (cb_pending_probes a) = 1" using card [OF that(1)] by (simp only: that(2) card.empty)
    with that(1) a gen show ?thesis by (simp add: defs Close_def AdvanceGeneration_def flip: a_def)
  qed
  show "cb_state (report_probe c (now, p, False) b) = kOpen
      \<and> cb_generation (report_probe c (now, p, False) b) \<noteq> hc_generation c" if "p \<in> P"
    using that a gen by (simp add: defs Open_def AdvanceGeneration_def flip: a_def)
qed

definition first_reports :: "(time_point \<times> u64 \<times> bool) list \<Rightarrow> u64 \<rightharpoonup> bool" where
  "first_reports rs = map_of (map snd rs)"

lemma cycle_outcome:
  assumes "in_cycle c P b"
  shows "cb_state (report_probes c rs b) =
    (if \<exists>p \<in> P. first_reports rs p = Some False then kOpen
     else if \<forall>p \<in> P. first_reports rs p = Some True then kClosed else kHalfOpen)"
  using assms
proof (induction rs arbitrary: b P)
  case Nil
  then have "P \<noteq> {}" "cb_state b = kHalfOpen" by (auto simp: in_cycle_def)
  then show ?case by (auto simp: report_probes_def first_reports_def)
next
  case (Cons r rs)
  obtain now p ok where r: "r = (now, p, ok)" by (cases r)
  note step = report_in_cycle [OF Cons.prems, of p now]
  have run: "report_probes c ((now, p, ok) # rs) b = report_probes c rs (report_probe c (now, p, ok) b)" for ok
    by (simp add: report_probes_def)
  have first: "first_reports ((now, p, ok) # rs) q = (if q = p then Some ok else first_reports rs q)" for q ok
    by (auto simp: first_reports_def)
  show ?case
  proof (cases "p \<in> P")
    case False
    then have "first_reports ((now, p, ok) # rs) q = first_reports rs q" if "q \<in> P" for q
      using that first by auto
    with Cons.IH [OF step(1) [OF False, of ok]] show ?thesis by (simp add: r run)
  next
    case True
    show ?thesis
    proof (cases "ok \<and> P - {p} \<noteq> {}")
      case more: True
      with Cons.IH [OF step(2) [OF True]] True show ?thesis by (auto simp: r run first)
    next
      case last_report: False
      with step(3,4) [OF True] reports_stale [of "report_probe c (now, p, ok) b" c rs] True show ?thesis
        by (cases ok) (auto simp: r run first)
    qed
  qed
qed

lemma fresh_in_cycle:
  assumes "breaker_inv b" and "BeginFreshHalfOpenCycle b = (c, b')"
  shows "in_cycle c (set (cycle_ids c)) b'"
proof -
  have q: "0 < bc_half_open_probes (cb_config b)" "bc_half_open_probes (cb_config b) \<le> u32_max"
    using assms(1) by (auto simp: breaker_inv_def breaker_config_ok_def)
  have "distinct (cycle_ids c)" "cycle_ids c = cb_pending_probes b'"
    using assms(2) q cycle_ids_distinct [of c] by (auto simp: BeginFresh_eq cycle_ids_def)
  with assms(2) q show ?thesis by (auto simp: BeginFresh_eq in_cycle_def cycle_ids_def)
qed

text \<open>
   C10. The outcome of a half-open cycle: whatever the order, repetition and interleaving of
  the reports of its probes (and of reports of unknown probe identifiers), the breaker is
  open as soon as the first report of some probe of the cycle is a failure; it is closed
  exactly when every probe of the full quota has first been reported successful; otherwise
  it stays half-open.
\<close>

theorem half_open_cycle_outcome:
  assumes "breaker_inv b" and "BeginFreshHalfOpenCycle b = (c, b')"
  shows "cb_state (report_probes c rs b') =
    (if \<exists>p \<in> set (cycle_ids c). first_reports rs p = Some False then kOpen
     else if \<forall>p \<in> set (cycle_ids c). first_reports rs p = Some True then kClosed else kHalfOpen)"
  using fresh_in_cycle [OF assms] by (rule cycle_outcome)

lemma sample_breaker_inv: "breaker_inv sample_breaker"
  using CircuitBreaker_new_inv [OF sample_breaker_new] by (simp add: sample_breaker_config_def)

definition sample_cycle :: half_open_cycle where
  "sample_cycle = \<lparr>hc_generation = 2, hc_probe_base = 1, hc_quota = 2\<rparr>"

theorem half_open_cycle_outcome_witness:
  "cb_state (report_probes sample_cycle [(10, 2, True), (11, 2, False), (12, 1, True)]
     (snd (BeginFreshHalfOpenCycle sample_breaker))) = kClosed"
proof -
  have "BeginFreshHalfOpenCycle sample_breaker
      = (sample_cycle, snd (BeginFreshHalfOpenCycle sample_breaker))"
    by (simp add: BeginFresh_eq sample_breaker_def sample_breaker_config_def sample_cycle_def
        next_generation_def)
  from half_open_cycle_outcome [OF sample_breaker_inv this] show ?thesis
    by (simp add: cycle_ids_def sample_cycle_def first_reports_def numeral_2_eq_2)
qed

end
