(* ===== verification/BreakerWindow.thy ===== *)
theory BreakerWindow
  imports Breaker
begin

text \<open>
  The ring of ten buckets is an exact sliding window over the recorded outcomes, at the
  granularity of a tenth of the window.  The reference is the log of all outcomes: the
  counts at a clock reading are those of the outcomes in the current tenth and the nine
  before it.  The simulation relation ties every slot of the ring to the one tenth it
  stands for; it is kept by the one-step advance, by the jump that clears the ring, and by
  recording.  The consequence is that a closed breaker opens exactly at the first outcome
  at which the reference window crosses the threshold.
\<close>

section \<open>The reference window\<close>

type_synonym outcome_log = "(time_point \<times> bool) list"

definition tenth :: "circuit_breaker \<Rightarrow> time_point \<Rightarrow> int" where
  "tenth b t = (t - cb_epoch b) div bucket_duration (cb_config b)"

definition count_in :: "circuit_breaker \<Rightarrow> outcome_log \<Rightarrow> bool \<Rightarrow> int set \<Rightarrow> nat" where
  "count_in b log ok ms = length (filter (\<lambda>(t, o1). o1 = ok \<and> tenth b t \<in> ms) log)"

definition window_counts :: "circuit_breaker \<Rightarrow> outcome_log \<Rightarrow> time_point \<Rightarrow> nat \<times> nat" where
  "window_counts b log now =
     (let ms = {tenth b now - 9 .. tenth b now} in (count_in b log True ms, count_in b log False ms))"

definition record_outcome :: "request_permit \<Rightarrow> time_point \<times> bool \<Rightarrow> circuit_breaker \<Rightarrow> circuit_breaker" where
  "record_outcome permit = (\<lambda>(now, ok) b.
     if ok then RecordSuccess b now permit else RecordFailure b now permit)"

definition record_outcomes :: "request_permit \<Rightarrow> outcome_log \<Rightarrow> circuit_breaker \<Rightarrow> circuit_breaker" where
  "record_outcomes permit es b = fold (record_outcome permit) es b"

definition window_trips :: "circuit_breaker \<Rightarrow> outcome_log \<Rightarrow> bool" where
  "window_trips b es \<longleftrightarrow>
     (\<exists>n. 0 < n \<and> n \<le> length es
        \<and> trips (cb_config b) (window_counts b (take n es) (fst (es ! (n - 1)))))"

section \<open>The simulation relation\<close>

text \<open>The tenth that slot \<open>i\<close> stands for while tenth \<open>k\<close> is active.\<close>

definition slot_tenth :: "int \<Rightarrow> nat \<Rightarrow> int" where
  "slot_tenth k i = k - (k - int i) mod 10"

definition slot_repr :: "circuit_breaker \<Rightarrow> outcome_log \<Rightarrow> int \<Rightarrow> bucket \<Rightarrow> bool" where
  "slot_repr b log m s \<longleftrightarrow>
     bkt_success s = count_in b log True {m} \<and> bkt_failure s = count_in b log False {m}
     \<and> (0 < bkt_success s + bkt_failure s \<longrightarrow>
          bkt_start s = cb_epoch b + m * bucket_duration (cb_config b))"

definition ring_repr :: "circuit_breaker \<Rightarrow> outcome_log \<Rightarrow> int \<Rightarrow> bool" where
  "ring_repr b log k \<longleftrightarrow>
     cb_initialized b \<and> 0 \<le> k \<and> length (cb_buckets b) = 10
     \<and> cb_active_start b = cb_epoch b + k * bucket_duration (cb_config b)
     \<and> int (cb_active_index b) = k mod 10
     \<and> bkt_start (cb_buckets b ! cb_active_index b) = cb_active_start b
     \<and> (\<forall>(t, ok) \<in> set log. tenth b t \<le> k)
     \<and> (\<forall>i < 10. slot_repr b log (slot_tenth k i) (cb_buckets b ! i))"

lemma tenth_cong: "cb_epoch b' = cb_epoch b \<Longrightarrow> cb_config b' = cb_config b \<Longrightarrow> tenth b' = tenth b"
  by (simp add: tenth_def fun_eq_iff)

lemma count_in_cong:
  "cb_epoch b' = cb_epoch b \<Longrightarrow> cb_config b' = cb_config b \<Longrightarrow> count_in b' = count_in b"
  by (simp add: fun_eq_iff count_in_def tenth_def)

lemma count_in_snoc:
  "count_in b (log @ [(t, o1)]) ok ms = count_in b log ok ms + of_bool (o1 = ok \<and> tenth b t \<in> ms)"
  by (simp add: count_in_def)

lemma count_in_future:
  assumes "\<forall>(t, ok) \<in> set log. tenth b t \<le> k" and "k < m"
  shows "count_in b log ok {m} = 0"
  using assms by (auto simp: count_in_def filter_empty_conv)

lemma count_in_le: "count_in b log ok ms \<le> length log"
  by (simp add: count_in_def)

lemma count_in_sum: "finite ms \<Longrightarrow> count_in b log ok ms = (\<Sum>m \<in> ms. count_in b log ok {m})"
proof (induction log)
  case (Cons e log)
  obtain t o1 where e: "e = (t, o1)" by (cases e)
  have cons: "count_in b (e # log) ok ns = of_bool (o1 = ok \<and> tenth b t \<in> ns) + count_in b log ok ns" for ns
    by (simp add: count_in_def e)
  have "(\<Sum>m \<in> ms. of_bool (o1 = ok \<and> tenth b t \<in> {m}) :: nat)
      = (\<Sum>m \<in> ms. if tenth b t = m then of_bool (o1 = ok) else 0)"
    by (rule sum.cong) auto
  also have "\<dots> = of_bool (o1 = ok \<and> tenth b t \<in> ms)" using Cons.prems by simp
  finally have "(\<Sum>m \<in> ms. of_bool (o1 = ok \<and> tenth b t \<in> {m}) :: nat)
      = of_bool (o1 = ok \<and> tenth b t \<in> ms)" .
  with Cons show ?case unfolding cons by (simp add: sum.distrib)
qed (simp add: count_in_def)

lemma slot_tenth_bounds: "k - 9 \<le> slot_tenth k i \<and> slot_tenth k i \<le> k"
  unfolding slot_tenth_def using pos_mod_bound [of 10 "k - int i"] pos_mod_sign [of 10 "k - int i"] by linarith

lemma slot_tenth_mod: "slot_tenth k i mod 10 = int i mod 10"
  unfolding slot_tenth_def by (simp add: mod_diff_right_eq)

lemma slot_tenth_unique:
  assumes "k - 9 \<le> m" "m \<le> k" "int i = m mod 10"
  shows "slot_tenth k i = m"
proof -
  have "(k - int i) mod 10 = (k - m) mod 10" by (simp add: assms(3) mod_diff_right_eq)
  also have "\<dots> = k - m" using assms by (intro mod_pos_pos_trivial) auto
  finally show ?thesis by (simp add: slot_tenth_def)
qed

lemma slot_tenth_active: "int i = k mod 10 \<Longrightarrow> slot_tenth k i = k"
  by (rule slot_tenth_unique) auto

lemma slot_tenth_Suc:
  assumes "i < 10" and "int i \<noteq> (k + 1) mod 10"
  shows "slot_tenth (k + 1) i = slot_tenth k i"
proof (rule slot_tenth_unique)
  have "int i = slot_tenth k i mod 10" using assms(1) by (simp add: slot_tenth_mod)
  then show "int i = slot_tenth k i mod 10" .
  with assms(2) have "(slot_tenth k i + 10) mod 10 \<noteq> (k + 1) mod 10" by simp
  then have "slot_tenth k i + 10 \<noteq> k + 1" by metis
  with slot_tenth_bounds [of k i] show "k + 1 - 9 \<le> slot_tenth k i" by linarith
  show "slot_tenth k i \<le> k + 1" using slot_tenth_bounds [of k i] by simp
qed

text \<open>The slots stand for the ten most recent tenths, each exactly once.\<close>

lemma slot_tenth_bij: "bij_betw (slot_tenth k) {..<10} {k - 9 .. k}"
proof (rule bij_betw_byWitness [where f' = "\<lambda>m. nat (m mod 10)"])
  show "\<forall>i \<in> {..<10}. nat (slot_tenth k i mod 10) = i" by (auto simp: slot_tenth_mod)
  show "\<forall>m \<in> {k - 9 .. k}. slot_tenth k (nat (m mod 10)) = m" 
    by (auto intro!: slot_tenth_unique)
  show "slot_tenth k ` {..<10} \<subseteq> {k - 9 .. k}" using slot_tenth_bounds by auto
  show "(\<lambda>m. nat (m mod 10)) ` {k - 9 .. k} \<subseteq> {..<10}" by (auto simp: nat_less_iff)
qed

section \<open>The operations keep the relation\<close>

lemma AdvanceInit_repr:
  assumes "\<not> cb_initialized b" and "cb_buckets b = replicate 10 Bucket_empty"
  shows "ring_repr (AdvanceInit b) [] 0"
  using assms
  by (auto simp: AdvanceInit_def ring_repr_def slot_repr_def count_in_def Bucket_empty_def nth_list_update)

lemma AdvanceOne_repr:
  assumes "ring_repr b log k"
  shows "ring_repr (AdvanceOne b) log (k + 1)"
proof -
  let ?i = "(cb_active_index b + 1) mod 10"
  let ?bd = "bucket_duration (cb_config b)"
  have act: "int (cb_active_index b) = k mod 10" using assms by (simp add: ring_repr_def)
  have "int ?i = (int (cb_active_index b) + 1) mod 10" by (simp add: zmod_int add.commute)
  then have idx: "int ?i = (k + 1) mod 10" by (simp add: act mod_add_left_eq)
  have future: "count_in b log ok {k + 1} = 0" for ok
    using assms by (intro count_in_future [of log b k]) (auto simp: ring_repr_def)
  have old: "slot_repr b log (slot_tenth (k + 1) i) (cb_buckets b ! i)" if "i < 10" "i \<noteq> ?i" for i
  proof -
    have "int i \<noteq> (k + 1) mod 10" using that(2) by (simp flip: idx)
    with that(1) slot_tenth_Suc assms show ?thesis by (simp add: ring_repr_def)
  qed
  have frame: "tenth (AdvanceOne b) = tenth b" "count_in (AdvanceOne b) = count_in b"
    by (rule tenth_cong, simp_all) (rule count_in_cong, simp_all)
  have buckets: "cb_buckets (AdvanceOne b) = (cb_buckets b)[?i :=
      \<lparr>bkt_start = cb_active_start b + ?bd, bkt_success = 0, bkt_failure = 0\<rparr>]"
    and pos: "cb_active_index (AdvanceOne b) = ?i" "cb_active_start (AdvanceOne b) = cb_active_start b + ?bd"
    by (simp_all add: AdvanceOne_def Let_def kBucketCount_def)
  have len: "length (cb_buckets b) = 10" and st: "cb_active_start b = cb_epoch b + k * ?bd"
    and init: "cb_initialized b" and k: "0 \<le> k"
    using assms by (simp_all add: ring_repr_def)
  have slots: "slot_repr (AdvanceOne b) log (slot_tenth (k + 1) i) (cb_buckets (AdvanceOne b) ! i)"
    if "i < 10" for i
  proof (cases "i = ?i")
    case True
    have "slot_tenth (k + 1) i = k + 1" using True idx by (intro slot_tenth_active) simp
    then show ?thesis unfolding slot_repr_def frame buckets using True len that by (simp add: future)
  next
    case False
    with old [OF that False] show ?thesis unfolding slot_repr_def frame buckets by simp
  qed
  have le: "\<forall>(t, ok) \<in> set log. tenth (AdvanceOne b) t \<le> k + 1"
    unfolding frame using assms by (fastforce simp: ring_repr_def)
  show ?thesis unfolding ring_repr_def
  proof (intro conjI)
    show "\<forall>(t, ok) \<in> set log. tenth (AdvanceOne b) t \<le> k + 1" by (rule le)
    show "\<forall>i < 10. slot_repr (AdvanceOne b) log (slot_tenth (k + 1) i) (cb_buckets (AdvanceOne b) ! i)"
      using slots by blast
    show "int (cb_active_index (AdvanceOne b)) = (k + 1) mod 10" unfolding pos by (rule idx)
    show "bkt_start (cb_buckets (AdvanceOne b) ! cb_active_index (AdvanceOne b)) = cb_active_start (AdvanceOne b)"
      unfolding pos buckets using len by simp
  qed (use init len k st in \<open>simp_all add: pos algebra_simps\<close>)
qed

lemma AdvanceOne_pow_repr: "ring_repr b log k \<Longrightarrow> ring_repr ((AdvanceOne ^^ n) b) log (k + int n)"
proof (induction n)
  case (Suc n)
  then show ?case using AdvanceOne_repr [of "(AdvanceOne ^^ n) b" log "k + int n"] by (simp add: ac_simps)
qed simp

lemma tenth_shift:
  assumes "0 < bucket_duration (cb_config b)"
  shows "tenth b now = k + (now - (cb_epoch b + k * bucket_duration (cb_config b))) div bucket_duration (cb_config b)"
  using assms div_mult_self2 [of "bucket_duration (cb_config b)"
      "now - (cb_epoch b + k * bucket_duration (cb_config b))" k]
  by (simp add: tenth_def algebra_simps)

lemma jump_repr:
  assumes "ring_repr b log k" and "k + 10 \<le> q" and "length (cb_buckets b) = 10"
  defines "start \<equiv> cb_epoch b + q * bucket_duration (cb_config b)"
  shows "ring_repr (b\<lparr>cb_active_start := start, cb_active_index := nat q mod 10,
      cb_buckets := (replicate 10 Bucket_empty)[nat q mod 10 := \<lparr>bkt_start = start, bkt_success = 0, bkt_failure = 0\<rparr>]\<rparr>)
    log q" (is "ring_repr ?b log q")
proof -
  have frame: "tenth ?b = tenth b" "count_in ?b = count_in b"
    by (rule tenth_cong, simp_all) (rule count_in_cong, simp_all)
  have le: "\<forall>(t, ok) \<in> set log. tenth b t \<le> k" using assms(1) by (simp add: ring_repr_def)
  have zero: "count_in b log ok {slot_tenth q i} = 0" for ok i
    using slot_tenth_bounds [of q i] assms(2) by (intro count_in_future [OF le]) linarith
  have q: "0 \<le> q" "int (nat q mod 10) = q mod 10"
    using assms(1,2) by (simp_all add: ring_repr_def zmod_int)
  have slots: "slot_repr ?b log (slot_tenth q i) (cb_buckets ?b ! i)" if "i < 10" for i
    unfolding slot_repr_def frame zero using that by (simp add: nth_list_update Bucket_empty_def)
  have le': "\<forall>(t, ok) \<in> set log. tenth ?b t \<le> q" unfolding frame using le assms(2) by fastforce
  have init: "cb_initialized b" using assms(1) by (simp add: ring_repr_def)
  show ?thesis unfolding ring_repr_def
  proof (intro conjI)
    show "\<forall>(t, ok) \<in> set log. tenth ?b t \<le> q" by (rule le')
    show "\<forall>i < 10. slot_repr ?b log (slot_tenth q i) (cb_buckets ?b ! i)" using slots by blast
  qed (use init q in \<open>simp_all add: start_def\<close>)
qed

lemma AdvanceTo_repr:
  assumes "ring_repr (AdvanceInit b) log k" and "breaker_config_ok (cb_config b)"
    and "cb_active_start (AdvanceInit b) \<le> now"
  shows "ring_repr (AdvanceTo b now) log (tenth b now)"
proof -
  let ?bd = "bucket_duration (cb_config b)"
  have bd: "0 < ?bd" using bucket_duration_pos [OF assms(2)] by simp
  define a where "a = AdvanceInit b"
  have frame: "cb_config a = cb_config b" "cb_epoch a = cb_epoch b" by (simp_all add: a_def)
  have repr: "ring_repr a log k" using assms(1) by (simp add: a_def)
  have st: "cb_active_start a = cb_epoch b + k * ?bd" and k: "0 \<le> k"
    using repr frame by (auto simp: ring_repr_def)
  have d0: "0 \<le> now - cb_active_start a" using assms(3) by (simp add: a_def)
  have shift: "tenth b now = k + (now - cb_active_start a) div ?bd"
    using tenth_shift [OF bd, of now k] st by simp
  have epoch: "\<not> now < cb_epoch b" using d0 st k bd by (smt (verit) mult_nonneg_nonneg)
  have div0: "0 \<le> (now - cb_active_start a) div ?bd" using d0 bd by (simp add: pos_imp_zdiv_nonneg_iff)
  show ?thesis
  proof (cases "now < cb_active_start a + ?bd")
    case True
    then have "(now - cb_active_start a) div ?bd = 0" using d0 by (simp add: div_pos_pos_trivial)
    with True repr epoch shift show ?thesis by (simp add: AdvanceTo_def Let_def flip: a_def)
  next
    case later: False
    show ?thesis
    proof (cases "10 \<le> nat ((now - cb_active_start a) div ?bd)")
      case True
      have q: "k + 10 \<le> tenth b now" using True shift div0 by linarith
      have now: "now - (now - cb_epoch b) mod ?bd = cb_epoch b + tenth b now * ?bd"
        by (simp add: tenth_def minus_mod_eq_div_mult [symmetric] algebra_simps)
      have "length (cb_buckets a) = 10" using repr by (simp add: ring_repr_def)
      from jump_repr [OF repr q this] True later epoch d0 bd frame now show ?thesis
        by (simp add: AdvanceTo_def Let_def kBucketCount_def tenth_def flip: a_def)
    next
      case False
      have "AdvanceTo b now = (AdvanceOne ^^ nat ((now - cb_active_start a) div ?bd)) a"
        using False later epoch d0 bd by (simp add: AdvanceTo_def Let_def kBucketCount_def frame flip: a_def)
      with AdvanceOne_pow_repr [OF repr, of "nat ((now - cb_active_start a) div ?bd)"] shift div0
      show ?thesis by simp
    qed
  qed
qed

lemma Count_repr:
  assumes "ring_repr b log k" and "tenth b now = k" and "length log + 1 < 2 ^ 32"
  shows "ring_repr (CountSuccess b) (log @ [(now, True)]) k"
    and "ring_repr (CountFailure b) (log @ [(now, False)]) k"
proof -
  have idx: "int (cb_active_index b) = k mod 10" and lt: "cb_active_index b < 10"
    using assms(1) pos_mod_bound [of 10 k] by (auto simp: ring_repr_def)
  have act: "slot_tenth k (cb_active_index b) = k" by (rule slot_tenth_active [OF idx])
  have other: "slot_tenth k i \<noteq> k" if "i < 10" "i \<noteq> cb_active_index b" for i
    using that slot_tenth_mod [of k i] idx by auto
  have slot: "slot_repr b log (slot_tenth k i) (cb_buckets b ! i)" if "i < 10" for i
    using assms(1) that by (simp add: ring_repr_def)
  have len: "length (cb_buckets b) = 10" using assms(1) by (simp add: ring_repr_def)
  let ?s = "cb_buckets b ! cb_active_index b"
  have small: "bkt_success ?s + 1 < 2 ^ 32" "bkt_failure ?s + 1 < 2 ^ 32"
    using slot [OF lt] assms(3) count_in_le [of b log True "{k}"] count_in_le [of b log False "{k}"]
    unfolding slot_repr_def act by linarith+
  have start: "bkt_start ?s = cb_epoch b + k * bucket_duration (cb_config b)"
    using assms(1) by (simp add: ring_repr_def)
  have keep: "ring_repr b' (log @ [(now, ok)]) k"
    if frame: "cb_config b' = cb_config b" "cb_epoch b' = cb_epoch b" "cb_initialized b' = cb_initialized b"
      "cb_active_start b' = cb_active_start b" "cb_active_index b' = cb_active_index b"
      and upd: "cb_buckets b' = (cb_buckets b)[cb_active_index b := s']" "bkt_start s' = bkt_start ?s"
      "bkt_success s' = bkt_success ?s + of_bool ok" "bkt_failure s' = bkt_failure ?s + of_bool (\<not> ok)"
    for b' ok s'
  proof -
    have t: "tenth b' = tenth b" "count_in b' = count_in b"
      using frame tenth_cong count_in_cong by blast+
    have "slot_repr b' (log @ [(now, ok)]) (slot_tenth k i) (cb_buckets b' ! i)" if "i < 10" for i
    proof (cases "i = cb_active_index b")
      case True
      then show ?thesis using slot [OF that] upd act len lt start frame assms(2)
        by (simp add: slot_repr_def t count_in_snoc)
    next
      case False
      then show ?thesis using slot [OF that] upd other [OF that False] frame assms(2)
        by (simp add: slot_repr_def t count_in_snoc)
    qed
    moreover have "\<forall>(t, ok) \<in> set (log @ [(now, ok)]). tenth b' t \<le> k"
      using assms(1,2) by (auto simp: ring_repr_def t)
    ultimately show ?thesis using assms(1) frame upd len lt by (simp add: ring_repr_def)
  qed
  show "ring_repr (CountSuccess b) (log @ [(now, True)]) k"
    by (rule keep [where s' = "?s\<lparr>bkt_success := (bkt_success ?s + 1) mod 2 ^ 32\<rparr>"])
      (use small in \<open>simp_all add: CountSuccess_def\<close>)
  show "ring_repr (CountFailure b) (log @ [(now, False)]) k"
    by (rule keep [where s' = "?s\<lparr>bkt_failure := (bkt_failure ?s + 1) mod 2 ^ 32\<rparr>"])
      (use small in \<open>simp_all add: CountFailure_def\<close>)
qed

section \<open>The sums of the ring are the counts of the window\<close>

lemma Aggregate_sums:
  "Aggregate b now =
     (\<Sum>s\<leftarrow>cb_buckets b. if now - window_ns (cb_config b) < bkt_start s then bkt_success s else 0,
      \<Sum>s\<leftarrow>cb_buckets b. if now - window_ns (cb_config b) < bkt_start s then bkt_failure s else 0)"
proof -
  have "foldl (\<lambda>(x, y) s. if P s then (x + f s, y + g s) else (x, y)) (x0, y0) ss
      = (x0 + (\<Sum>s\<leftarrow>ss. if P s then f s else 0), y0 + (\<Sum>s\<leftarrow>ss. if P s then g s else 0))"
    for P :: "bucket \<Rightarrow> bool" and f g :: "bucket \<Rightarrow> nat" and x0 y0 ss
    by (induction ss arbitrary: x0 y0) auto
  then show ?thesis unfolding Aggregate_def by simp
qed

lemma Aggregate_repr:
  assumes "ring_repr b log k" and "tenth b now = k" and "breaker_config_ok (cb_config b)"
  shows "Aggregate b now = window_counts b log now"
proof -
  let ?bd = "bucket_duration (cb_config b)" and ?w = "window_ns (cb_config b)"
  have bd: "0 < ?bd" "?w = 10 * ?bd" using bucket_duration_pos [OF assms(3)] by auto
  have len: "length (cb_buckets b) = 10" using assms(1) by (simp add: ring_repr_def)
  have slot: "slot_repr b log (slot_tenth k i) (cb_buckets b ! i)" if "i < 10" for i
    using assms(1) that by (simp add: ring_repr_def)
  have now: "now < cb_epoch b + (k + 1) * ?bd"
  proof -
    have "(now - cb_epoch b) mod ?bd < ?bd" using bd by simp
    then show ?thesis using assms(2) div_mult_mod_eq [of "now - cb_epoch b" ?bd]
      by (simp add: tenth_def algebra_simps)
  qed
  have live: "now - ?w < bkt_start (cb_buckets b ! i)"
    if "i < 10" "0 < bkt_success (cb_buckets b ! i) + bkt_failure (cb_buckets b ! i)" for i
  proof -
    have "bkt_start (cb_buckets b ! i) = cb_epoch b + slot_tenth k i * ?bd"
      using slot [OF that(1)] that(2) unfolding slot_repr_def by blast
    moreover have "(k - 9) * ?bd \<le> slot_tenth k i * ?bd"
      using slot_tenth_bounds [of k i] bd by (intro mult_right_mono) auto
    ultimately show ?thesis using now bd(2) by (simp add: algebra_simps)
  qed
  have sum: "(\<Sum>s\<leftarrow>cb_buckets b. if now - ?w < bkt_start s then f s else 0) = count_in b log ok {k - 9 .. k}"
    if f: "\<And>i. i < 10 \<Longrightarrow> f (cb_buckets b ! i) = count_in b log ok {slot_tenth k i}"
      "\<And>s. 0 < f s \<Longrightarrow> 0 < bkt_success s + bkt_failure s" for f :: "bucket \<Rightarrow> nat" and ok
  proof -
    have "(\<Sum>s\<leftarrow>cb_buckets b. if now - ?w < bkt_start s then f s else 0)
        = (\<Sum>i<10. if now - ?w < bkt_start (cb_buckets b ! i) then f (cb_buckets b ! i) else 0)"
      by (simp add: sum_list_sum_nth len atLeast0LessThan)
    also have "\<dots> = (\<Sum>i<10. count_in b log ok {slot_tenth k i})"
    proof (rule sum.cong [OF refl])
      fix i :: nat assume "i \<in> {..<10}"
      then have i: "i < 10" by simp
      show "(if now - ?w < bkt_start (cb_buckets b ! i) then f (cb_buckets b ! i) else 0)
          = count_in b log ok {slot_tenth k i}"
        using f(1) [OF i] f(2) [of "cb_buckets b ! i"] live [OF i] by (cases "f (cb_buckets b ! i)") auto
    qed
    also have "\<dots> = (\<Sum>m \<in> {k - 9 .. k}. count_in b log ok {m})"
      by (rule sum.reindex_bij_betw [OF slot_tenth_bij])
    also have "\<dots> = count_in b log ok {k - 9 .. k}" by (rule count_in_sum [symmetric]) simp
    finally show ?thesis .
  qed
  show ?thesis
    unfolding Aggregate_sums window_counts_def assms(2) Let_def
    by (intro arg_cong2 [where f = Pair] sum) (use slot in \<open>auto simp: slot_repr_def\<close>)
qed

section \<open>When a closed breaker opens\<close>

text \<open>A closed breaker that has recorded \<open>log\<close>, the last outcome not after \<open>t\<close>.\<close>

definition closed_with :: "u64 \<Rightarrow> circuit_breaker \<Rightarrow> circuit_breaker \<Rightarrow> outcome_log \<Rightarrow> time_point \<Rightarrow> bool" where
  "closed_with g b0 b log t \<longleftrightarrow>
     cb_state b = kClosed \<and> cb_generation b = g \<and> cb_config b = cb_config b0 \<and> cb_epoch b = cb_epoch b0
     \<and> breaker_config_ok (cb_config b)
     \<and> (\<exists>k. ring_repr (AdvanceInit b) log k \<and> cb_active_start (AdvanceInit b) \<le> t)"

lemma record_step:
  assumes "closed_with g b0 b log t" and "t \<le> now" and "length log + 1 < 2 ^ 32"
    and "pm_generation permit = g" and "pm_selection permit = kAllowed"
  shows "if trips (cb_config b0) (window_counts b0 (log @ [(now, ok)]) now)
    then cb_state (record_outcome permit (now, ok) b) = kOpen
       \<and> cb_generation (record_outcome permit (now, ok) b) \<noteq> g
    else closed_with g b0 (record_outcome permit (now, ok) b) (log @ [(now, ok)]) now"
proof -
  define a where "a = AdvanceTo b now"
  define d where "d = (if ok then CountSuccess a else CountFailure a)"
  from assms(1) obtain k where k: "ring_repr (AdvanceInit b) log k" "cb_active_start (AdvanceInit b) \<le> t"
    and cfg: "breaker_config_ok (cb_config b)" by (auto simp: closed_with_def)
  have a: "cb_state a = kClosed" "cb_generation a = g" "cb_config a = cb_config b0" "cb_epoch a = cb_epoch b0"
    using assms(1) by (simp_all add: a_def closed_with_def)
  have ta: "tenth a = tenth b" by (rule tenth_cong) (simp_all add: a_def)
  have ra: "ring_repr a log (tenth a now)"
    using AdvanceTo_repr [OF k(1) cfg] k(2) assms(2) by (simp add: a_def ta [unfolded a_def])
  have rd: "ring_repr d (log @ [(now, ok)]) (tenth a now)"
    using Count_repr [OF ra refl assms(3)] by (cases ok) (simp_all add: d_def)
  have d: "cb_state d = kClosed" "cb_generation d = g" "cb_config d = cb_config b0" "cb_epoch d = cb_epoch b0"
    "cb_initialized d"
    using a rd by (simp_all add: d_def CountSuccess_def CountFailure_def ring_repr_def)
  have td: "tenth d = tenth a" by (rule tenth_cong) (simp_all add: a d)
  have wc: "window_counts d = window_counts b0"
    using d count_in_cong [of d b0] tenth_cong [of d b0] by (simp add: window_counts_def fun_eq_iff)
  have agg: "Aggregate d now = window_counts b0 (log @ [(now, ok)]) now"
  proof -
    have "breaker_config_ok (cb_config d)" using cfg d(3) assms(1) by (auto simp: closed_with_def)
    with Aggregate_repr [OF rd, of now] td show ?thesis by (simp add: wc)
  qed
  have out: "record_outcome permit (now, ok) b = Evaluate d now"
    unfolding record_outcome_def RecordSuccess_def RecordFailure_def Let_def prod.case
      a_def [symmetric] d_def
    using a assms(4,5) by (cases ok) simp_all
  have start: "cb_active_start d \<le> now"
  proof -
    have "0 < bucket_duration (cb_config b)" using bucket_duration_pos [OF cfg] by simp
    then have "tenth b now * bucket_duration (cb_config b) \<le> now - cb_epoch b"
      by (simp add: tenth_def minus_mod_eq_div_mult [symmetric])
    then show ?thesis using rd assms(1) d by (simp add: ring_repr_def ta closed_with_def)
  qed
  show ?thesis
  proof (cases "trips (cb_config b0) (window_counts b0 (log @ [(now, ok)]) now)")
    case True
    then show ?thesis
      using d by (simp add: out Evaluate_def agg Open_def AdvanceGeneration_def)
  next
    case False
    moreover have "AdvanceInit d = d" using d by (simp add: AdvanceInit_def)
    ultimately show ?thesis
      using d rd start assms(1) by (auto simp: out Evaluate_def agg closed_with_def)
  qed
qed

lemma stale_outcomes:
  "cb_generation b \<noteq> pm_generation permit \<Longrightarrow> cb_state (record_outcomes permit es b) = cb_state b"
proof (induction es arbitrary: b)
  case (Cons e es)
  obtain now ok where e: "e = (now, ok)" by (cases e)
  have "record_outcome permit e b = AdvanceTo b now"
    using Cons.prems by (auto simp: e record_outcome_def RecordSuccess_def RecordFailure_def Let_def)
  with Cons show ?case by (simp add: record_outcomes_def)
qed (simp add: record_outcomes_def)

lemma closed_run:
  assumes "closed_with g b0 b log t" and "sorted (map fst es)" and "\<forall>(now, ok) \<in> set es. t \<le> now"
    and "length log + length es < 2 ^ 32" and "pm_generation permit = g" and "pm_selection permit = kAllowed"
  shows "cb_state (record_outcomes permit es b) =
    (if \<exists>n. 0 < n \<and> n \<le> length es
        \<and> trips (cb_config b0) (window_counts b0 (log @ take n es) (fst (es ! (n - 1))))
     then kOpen else kClosed)"
  using assms
proof (induction es arbitrary: b log t)
  case Nil
  then show ?case by (simp add: record_outcomes_def closed_with_def)
next
  case (Cons e es)
  obtain now ok where e: "e = (now, ok)" by (cases e)
  let ?T = "\<lambda>l t'. trips (cb_config b0) (window_counts b0 l t')"
  let ?b' = "record_outcome permit (now, ok) b"
  have run: "record_outcomes permit (e # es) b = record_outcomes permit es ?b'"
    by (simp add: record_outcomes_def e)
  have step: "if ?T (log @ [(now, ok)]) now then cb_state ?b' = kOpen \<and> cb_generation ?b' \<noteq> g
      else closed_with g b0 ?b' (log @ [(now, ok)]) now"
    by (rule record_step [OF Cons.prems(1) _ _ Cons.prems(5,6)]) (use Cons.prems e in auto)
  have ex: "(\<exists>n. 0 < n \<and> n \<le> length (e # es) \<and> ?T (log @ take n (e # es)) (fst ((e # es) ! (n - 1))))
      \<longleftrightarrow> ?T (log @ [(now, ok)]) now
        \<or> (\<exists>n. 0 < n \<and> n \<le> length es \<and> ?T ((log @ [(now, ok)]) @ take n es) (fst (es ! (n - 1))))"
    (is "?L \<longleftrightarrow> ?A \<or> ?R")
  proof
    assume ?L
    then obtain n where n: "0 < n" "n \<le> length (e # es)" "?T (log @ take n (e # es)) (fst ((e # es) ! (n - 1)))"
      by blast
    then obtain m where "n = Suc m" by (cases n) auto
    with n e show "?A \<or> ?R" by (cases m) auto
  next
    assume "?A \<or> ?R"
    then show ?L
    proof
      assume ?A
      then show ?L by (intro exI [of _ 1]) (simp add: e)
    next
      assume ?R
      then obtain n where "0 < n" "n \<le> length es" "?T ((log @ [(now, ok)]) @ take n es) (fst (es ! (n - 1)))"
        by blast
      then show ?L by (intro exI [of _ "Suc n"]) (simp add: e nth_Cons')
    qed
  qed
  show ?case
  proof (cases "?T (log @ [(now, ok)]) now")
    case True
    with step stale_outcomes [of ?b' permit es] Cons.prems(5) show ?thesis unfolding run ex by auto
  next
    case False
    with step have "closed_with g b0 ?b' (log @ [(now, ok)]) now" by simp
    moreover have "sorted (map fst es)" "\<forall>(t', ok') \<in> set es. now \<le> t'"
      "length (log @ [(now, ok)]) + length es < 2 ^ 32"
      using Cons.prems(2,4) e by auto
    ultimately have "cb_state (record_outcomes permit es ?b') = (if \<exists>n. 0 < n \<and> n \<le> length es
        \<and> ?T ((log @ [(now, ok)]) @ take n es) (fst (es ! (n - 1))) then kOpen else kClosed)"
      using Cons.prems(5,6) by (rule Cons.IH)
    then show ?thesis unfolding run ex using False by simp
  qed
qed

text \<open>
   C9. The ring of ten buckets is an exact sliding window: a fresh breaker that records
  outcomes at non-decreasing clock readings (from its construction on, fewer than \<open>2 ^ 32\<close>)
  is open exactly when, at some recorded outcome, the outcomes of the current tenth of the
  window and of the nine tenths before it reach the sample floor and the failure threshold;
  otherwise it is still closed.  This covers every jump of the clock, also past the whole
  window.
\<close>

theorem breaker_opens_iff_window_trips:
  assumes "CircuitBreaker_new config start = Inr b"
    and "sorted (map fst es)" and "\<forall>(now, ok) \<in> set es. start \<le> now" and "length es < 2 ^ 32"
  shows "cb_state (record_outcomes (permit_of kAllowed b 0) es b)
    = (if window_trips b es then kOpen else kClosed)"
proof -
  have b: "\<not> cb_initialized b" "cb_buckets b = replicate 10 Bucket_empty" "cb_state b = kClosed"
    "cb_epoch b = start" "breaker_config_ok (cb_config b)"
    using assms(1) by (auto simp: CircuitBreaker_new_def kBucketCount_def split: if_splits)
  have "closed_with (cb_generation b) b b [] start"
    using b AdvanceInit_repr [OF b(1,2)] by (auto simp: closed_with_def AdvanceInit_def)
  from closed_run [OF this assms(2,3), of "permit_of kAllowed b 0"] assms(4) show ?thesis
    unfolding window_trips_def by (simp add: permit_of_def)
qed

theorem breaker_opens_iff_window_trips_witness:
  "cb_state (record_outcomes (permit_of kAllowed sample_breaker 0)
      [(8, False), (5000000000, True), (5000000001, True), (15000000000, False)] sample_breaker)
    = (if window_trips sample_breaker
          [(8, False), (5000000000, True), (5000000001, True), (15000000000, False)] then kOpen else kClosed)"
  by (rule breaker_opens_iff_window_trips [OF sample_breaker_new]) auto

end
