(* ===== verification/Routing.thy ===== *)
theory Routing
  imports ConfigModel Reservations
begin

text \<open>
  Routing (\<open>src/routing\<close>): longest-prefix route matching (\<open>RouteTable\<close>), the weighted
  round-robin schedule (\<open>WeightedRoundRobin\<close>) and the per-endpoint active counter with its
  guard (\<open>ActiveReservation\<close>).  The lemmas show that the match is the first of the
  longest routes that serve the target, that it respects path boundaries, and that every
  window of \<open>total_weight\<close> consecutive selections returns each endpoint exactly as often as
  its weight says.
\<close>

section \<open>Route table\<close>

fun EqualsIgnoreCase :: "string \<Rightarrow> string \<Rightarrow> bool" where
  "EqualsIgnoreCase [] [] = True"
| "EqualsIgnoreCase (l # left) (r # right) =
     (if lower_char l \<noteq> lower_char r then False else EqualsIgnoreCase left right)"
| "EqualsIgnoreCase _ _ = False"

definition is_target_char :: "char \<Rightarrow> bool" where
  "is_target_char c \<longleftrightarrow> \<not> (code_of c \<le> 32 \<or> code_of c = 127 \<or> c = CHR ''#'')"

definition IsOriginForm :: "string \<Rightarrow> bool" where
  "IsOriginForm target =
     (if target = [] \<or> hd target \<noteq> CHR ''/'' then False else list_all is_target_char target)"

definition PathOnly :: "string \<Rightarrow> string" where
  "PathOnly target = (case find_char (CHR ''?'') target of None \<Rightarrow> target | Some q \<Rightarrow> take q target)"

definition PrefixMatches :: "string \<Rightarrow> string \<Rightarrow> bool" where
  "PrefixMatches path prefix =
     (if prefix = ''/'' then True
      else if \<not> starts_with path prefix then False
      else length path = length prefix \<or> last prefix = CHR ''/'' \<or> path ! length prefix = CHR ''/'')"

definition route_matches :: "string \<Rightarrow> string \<Rightarrow> route \<Rightarrow> bool" where
  "route_matches host path r \<longleftrightarrow> EqualsIgnoreCase (rt_host r) host \<and> PrefixMatches path (rt_path_prefix r)"

fun Match_loop :: "string \<Rightarrow> string \<Rightarrow> route list \<Rightarrow> nat \<Rightarrow> nat option \<Rightarrow> nat \<Rightarrow> nat option" where
  "Match_loop host path [] index best best_prefix_size = best"
| "Match_loop host path (r # rs) index best best_prefix_size =
     (if \<not> route_matches host path r then Match_loop host path rs (index + 1) best best_prefix_size
      else if best = None \<or> length (rt_path_prefix r) > best_prefix_size
      then Match_loop host path rs (index + 1) (Some index) (length (rt_path_prefix r))
      else Match_loop host path rs (index + 1) best best_prefix_size)"

definition RouteTable_Match :: "config \<Rightarrow> string \<Rightarrow> string \<Rightarrow> nat option" where
  "RouteTable_Match c host target =
     (if \<not> IsOriginForm target then None
      else Match_loop host (PathOnly target) (cfg_routes c) 0 None 0)"

section \<open>Weighted round robin\<close>

record weighted_round_robin =
  wrr_endpoints :: "endpoint list"
  wrr_total_weight :: nat
  wrr_next_weight :: nat

fun wrr_sum_weights :: "endpoint list \<Rightarrow> nat \<Rightarrow> cpp_error + nat" where
  "wrr_sum_weights [] total_weight = Inr total_weight"
| "wrr_sum_weights (e # es) total_weight =
     (if ep_weight e = 0 \<or> total_weight > u64_max - ep_weight e then Inl InvalidArgument
      else wrr_sum_weights es (total_weight + ep_weight e))"

definition WeightedRoundRobin_new :: "endpoint list \<Rightarrow> cpp_error + weighted_round_robin" where
  "WeightedRoundRobin_new endpoints =
     res_bind (wrr_sum_weights endpoints 0) (\<lambda>total_weight.
       if total_weight = 0 then Inl InvalidArgument
       else Inr \<lparr>wrr_endpoints = endpoints, wrr_total_weight = total_weight, wrr_next_weight = 0\<rparr>)"

fun wrr_scan :: "endpoint list \<Rightarrow> nat \<Rightarrow> nat \<Rightarrow> nat \<Rightarrow> nat option" where
  "wrr_scan [] selected_weight upper_bound index = None"
| "wrr_scan (e # es) selected_weight upper_bound index =
     (let upper_bound = upper_bound + ep_weight e in
      if selected_weight < upper_bound then Some index
      else wrr_scan es selected_weight upper_bound (index + 1))"

text \<open>\<open>Next\<close> returns a reference to an element; the model returns its index.\<close>

definition WeightedRoundRobin_Next :: "weighted_round_robin \<Rightarrow> nat \<times> weighted_round_robin" where
  "WeightedRoundRobin_Next w =
     (let selected_weight = wrr_next_weight w;
          w' = w\<lparr>wrr_next_weight :=
                 (if wrr_next_weight w + 1 = wrr_total_weight w then 0 else wrr_next_weight w + 1)\<rparr>
      in (case wrr_scan (wrr_endpoints w) selected_weight 0 0 of Some i \<Rightarrow> i | None \<Rightarrow> 0, w'))"

fun wrr_run :: "nat \<Rightarrow> weighted_round_robin \<Rightarrow> nat list \<times> weighted_round_robin" where
  "wrr_run 0 w = ([], w)"
| "wrr_run (Suc n) w =
     (let (i, w') = WeightedRoundRobin_Next w; (picks, w'') = wrr_run n w' in (i # picks, w''))"

section \<open>Active reservations\<close>

record active_state =
  act_count :: nat

text \<open>\<open>++count\<close> on a \<open>std::uint32_t\<close>, as the owners of the counter do.\<close>

definition Active_AcquireOne :: "active_state \<Rightarrow> bool \<times> active_state" where
  "Active_AcquireOne s = (True, s\<lparr>act_count := (act_count s + 1) mod 2 ^ 32\<rparr>)"

definition Active_ReleaseOne :: "active_state \<Rightarrow> active_state" where
  "Active_ReleaseOne s = (if act_count s \<noteq> 0 then s\<lparr>act_count := act_count s - 1\<rparr> else s)"

definition Active_guards :: "guard_op list \<Rightarrow> active_state guarded \<Rightarrow> active_state guarded" where
  "Active_guards = guard_run Active_AcquireOne Active_ReleaseOne"

section \<open>Matching\<close>

lemma EqualsIgnoreCase_iff: "EqualsIgnoreCase l r \<longleftrightarrow> LowerAscii l = LowerAscii r"
  by (induction l r rule: EqualsIgnoreCase.induct) (simp_all add: LowerAscii_def)

text \<open>The first of the longest matches, by the position and by the prefix length.\<close>

definition best_match :: "(route \<Rightarrow> bool) \<Rightarrow> route list \<Rightarrow> nat option \<Rightarrow> bool" where
  "best_match matches rs best =
     (case best of
        None \<Rightarrow> (\<forall>r \<in> set rs. \<not> matches r)
      | Some i \<Rightarrow> i < length rs \<and> matches (rs ! i)
          \<and> (\<forall>j < length rs. matches (rs ! j) \<longrightarrow>
               (if j < i then length (rt_path_prefix (rs ! j)) < length (rt_path_prefix (rs ! i))
                else length (rt_path_prefix (rs ! j)) \<le> length (rt_path_prefix (rs ! i)))))"

lemma best_match_unique: "best_match matches rs best \<Longrightarrow> best_match matches rs best' \<Longrightarrow> best = best'"
proof (cases best; cases best')
  fix i i'
  assume some: "best = Some i" "best' = Some i'"
    and m: "best_match matches rs best" and m': "best_match matches rs best'"
  have "if i' < i then length (rt_path_prefix (rs ! i')) < length (rt_path_prefix (rs ! i))
      else length (rt_path_prefix (rs ! i')) \<le> length (rt_path_prefix (rs ! i))"
    and "if i < i' then length (rt_path_prefix (rs ! i)) < length (rt_path_prefix (rs ! i'))
      else length (rt_path_prefix (rs ! i)) \<le> length (rt_path_prefix (rs ! i'))"
    using m m' some by (simp_all add: best_match_def)
  then show "best = best'" using some by (cases i i' rule: linorder_cases) auto
qed (auto simp: best_match_def)

lemma best_match_skip:
  "best_match matches rs best \<Longrightarrow> \<not> matches r \<Longrightarrow> best_match matches (rs @ [r]) best"
  by (auto simp: best_match_def nth_append less_Suc_eq split: option.splits)

lemma best_match_worse:
  assumes "best_match matches rs (Some b)" "length (rt_path_prefix r) \<le> length (rt_path_prefix (rs ! b))"
  shows "best_match matches (rs @ [r]) (Some b)"
  using assms by (auto simp: best_match_def nth_append less_Suc_eq)

lemma best_match_first: "best_match matches rs None \<Longrightarrow> matches r \<Longrightarrow> best_match matches (rs @ [r]) (Some (length rs))"
  by (auto simp: best_match_def nth_append less_Suc_eq all_set_conv_all_nth)

lemma best_match_better:
  assumes "best_match matches rs (Some b)" "matches r" "length (rt_path_prefix r) > length (rt_path_prefix (rs ! b))"
  shows "best_match matches (rs @ [r]) (Some (length rs))"
proof -
  have "length (rt_path_prefix (rs ! j)) < length (rt_path_prefix r)" if "j < length rs" "matches (rs ! j)" for j
    using assms(1,3) that by (fastforce simp: best_match_def split: if_splits)
  then show ?thesis using assms(2) by (auto simp: best_match_def nth_append less_Suc_eq)
qed

lemma Match_loop_best:
  assumes "best_match (route_matches host path) seen best"
    and "\<And>b. best = Some b \<Longrightarrow> longest = length (rt_path_prefix (seen ! b))"
  shows "best_match (route_matches host path) (seen @ rs) (Match_loop host path rs (length seen) best longest)"
  using assms
proof (induction rs arbitrary: seen best longest)
  case (Cons r rs)
  let ?best = "if \<not> route_matches host path r then best else if best = None \<or> length (rt_path_prefix r) > longest
    then Some (length seen) else best"
  let ?longest = "if \<not> route_matches host path r then longest else if best = None \<or> length (rt_path_prefix r) > longest
    then length (rt_path_prefix r) else longest"
  have "best_match (route_matches host path) (seen @ [r]) ?best"
    using Cons.prems by (cases best) (auto intro: best_match_skip best_match_worse best_match_first best_match_better)
  moreover have "?longest = length (rt_path_prefix ((seen @ [r]) ! b))" if "?best = Some b" for b
    using that Cons.prems by (auto simp: nth_append best_match_def split: if_splits)
  ultimately have "best_match (route_matches host path) ((seen @ [r]) @ rs) (Match_loop host path rs (length (seen @ [r])) ?best ?longest)"
    by (rule Cons.IH)
  then show ?case by (auto split: if_splits)
qed simp

lemma RouteTable_Match_best:
  "IsOriginForm target \<Longrightarrow> best_match (route_matches host (PathOnly target)) (cfg_routes c) (RouteTable_Match c host target)"
  using Match_loop_best [of host "PathOnly target" "[]" None 0 "cfg_routes c"] by (simp add: RouteTable_Match_def best_match_def)

lemma PathOnly_origin: "IsOriginForm target \<Longrightarrow> \<exists>rest. PathOnly target = CHR ''/'' # rest"
proof -
  assume "IsOriginForm target"
  then obtain rest where t: "target = CHR ''/'' # rest"
    by (cases target) (auto simp: IsOriginForm_def split: if_splits)
  show ?thesis
  proof (cases "find_char (CHR ''?'') target")
    case (Some q)
    then have "q \<noteq> 0" using find_char_Some [OF Some] t by (cases q) auto
    with Some t show ?thesis by (cases q) (simp_all add: PathOnly_def)
  next
    case None
    have "PathOnly target = target" unfolding PathOnly_def None by simp
    with t show ?thesis by simp
  qed
qed

lemma prefix_taken:
  assumes "IsOriginForm target" and "PrefixMatches (PathOnly target) prefix"
  shows "take (length prefix) (PathOnly target) = prefix"
  using assms PathOnly_origin [OF assms(1)] by (auto simp: PrefixMatches_def starts_with_def split: if_splits)

text \<open>What a route serves, stated without the matching code.\<close>

definition serves :: "string \<Rightarrow> string \<Rightarrow> route \<Rightarrow> bool" where
  "serves host target r \<longleftrightarrow>
     LowerAscii (rt_host r) = LowerAscii host
     \<and> (\<exists>rest. takeWhile (\<lambda>c. c \<noteq> CHR ''?'') target = rt_path_prefix r @ rest
          \<and> (rest = [] \<or> last (rt_path_prefix r) = CHR ''/'' \<or> hd rest = CHR ''/''))"

lemma PathOnly_takeWhile: "PathOnly target = takeWhile (\<lambda>c. c \<noteq> CHR ''?'') target"
  by (auto simp: PathOnly_def find_char_def takeWhile_eq_take [of _ target, symmetric] intro!: takeWhile_eq_all_conv [THEN iffD2, symmetric])

lemma serves_iff: "IsOriginForm target \<Longrightarrow> route_matches host (PathOnly target) r \<longleftrightarrow> serves host target r"
proof -
  assume origin: "IsOriginForm target"
  let ?path = "PathOnly target" and ?prefix = "rt_path_prefix r"
  have "PrefixMatches ?path ?prefix \<longleftrightarrow>
      (\<exists>rest. ?path = ?prefix @ rest \<and> (rest = [] \<or> last ?prefix = CHR ''/'' \<or> hd rest = CHR ''/''))" (is "_ = ?R")
  proof
    assume m: "PrefixMatches ?path ?prefix"
    have "?path = ?prefix @ drop (length ?prefix) ?path"
      using prefix_taken [OF origin m] append_take_drop_id [of "length ?prefix" ?path] by simp
    moreover from this have "drop (length ?prefix) ?path = [] \<or> last ?prefix = CHR ''/'' \<or> hd (drop (length ?prefix) ?path) = CHR ''/''"
      using m hd_drop_conv_nth [of "length ?prefix" ?path] by (auto simp: PrefixMatches_def split: if_splits)
    ultimately show ?R by blast
  next
    assume ?R
    then show "PrefixMatches ?path ?prefix" by (auto simp: PrefixMatches_def starts_with_def nth_append hd_conv_nth)
  qed
  then show ?thesis by (simp add: route_matches_def EqualsIgnoreCase_iff serves_def PathOnly_takeWhile)
qed

lemma best_match_cong: "(\<And>r. p r = q r) \<Longrightarrow> best_match p rs best = best_match q rs best"
  by (simp add: best_match_def split: option.split)

text \<open>
  C12. Longest-prefix matching, for every configuration whose prefixes are not empty: \<open>Match\<close>
  returns route \<open>i\<close> exactly when the target is in origin form, route \<open>i\<close> serves it (the hosts
  agree up to ASCII case, and the path without the query is the prefix or continues it at a
  slash, so that \<open>/api\<close> does not receive \<open>/apiary\<close>), every serving route before \<open>i\<close> has a
  strictly shorter prefix and every one after it a prefix that is not longer.  It returns nothing
  exactly when the target is not in origin form or no route serves it.
\<close>

theorem RouteTable_Match_longest:
  assumes "\<forall>r \<in> set (cfg_routes c). rt_path_prefix r \<noteq> []"
  shows "(RouteTable_Match c host target = Some i \<longleftrightarrow>
      IsOriginForm target \<and> i < length (cfg_routes c) \<and> serves host target (cfg_routes c ! i)
      \<and> (\<forall>j < length (cfg_routes c). serves host target (cfg_routes c ! j) \<longrightarrow>
           (if j < i then length (rt_path_prefix (cfg_routes c ! j)) < length (rt_path_prefix (cfg_routes c ! i))
            else length (rt_path_prefix (cfg_routes c ! j)) \<le> length (rt_path_prefix (cfg_routes c ! i)))))
    \<and> (RouteTable_Match c host target = None \<longleftrightarrow>
      \<not> IsOriginForm target \<or> (\<forall>r \<in> set (cfg_routes c). \<not> serves host target r))"
proof (cases "IsOriginForm target")
  case True
  have m: "best_match (serves host target) (cfg_routes c) (RouteTable_Match c host target)"
    using RouteTable_Match_best [OF True, of host c] best_match_cong [OF serves_iff [OF True]] by simp
  have "best_match (serves host target) (cfg_routes c) best \<longleftrightarrow> RouteTable_Match c host target = best" for best
    using m best_match_unique by blast
  from this [of "Some i"] this [of None] show ?thesis using True by (auto simp: best_match_def)
qed (simp add: RouteTable_Match_def)

definition sample_routes :: config where
  "sample_routes = sample_config\<lparr>cfg_routes := cfg_routes sample_config
     @ [(hd (cfg_routes sample_config))\<lparr>rt_name := ''root'', rt_path_prefix := ''/''\<rparr>,
        (hd (cfg_routes sample_config))\<lparr>rt_name := ''other'', rt_path_prefix := ''/''\<rparr>]\<rparr>"

theorem RouteTable_Match_longest_witness:
  "serves ''EXAMPLE.com:80'' ''/a%2Fx'' (cfg_routes sample_routes ! 1)
   \<and> \<not> serves ''EXAMPLE.com:80'' ''/a%2Fx'' (cfg_routes sample_routes ! 0)"
proof -
  have prefixes: "\<forall>r \<in> set (cfg_routes sample_routes). rt_path_prefix r \<noteq> []" by code_simp
  have "RouteTable_Match sample_routes ''EXAMPLE.com:80'' ''/a%2Fx'' = Some 1" by code_simp
  note best = RouteTable_Match_longest [OF prefixes, of "''EXAMPLE.com:80''" "''/a%2Fx''" 1, THEN conjunct1, THEN iffD1, OF this]
  have "0 < length (cfg_routes sample_routes)"
    "\<not> length (rt_path_prefix (cfg_routes sample_routes ! 0)) < length (rt_path_prefix (cfg_routes sample_routes ! 1))"
    by code_simp+
  with best [THEN conjunct2, THEN conjunct2, THEN conjunct2, rule_format, of 0]
  have "\<not> serves ''EXAMPLE.com:80'' ''/a%2Fx'' (cfg_routes sample_routes ! 0)" by fastforce
  with best show ?thesis by blast
qed

section \<open>Fairness of the schedule\<close>

definition weights :: "endpoint list \<Rightarrow> nat" where
  "weights es = sum_list (map ep_weight es)"

lemma wrr_sum_weights_Inr:
  "wrr_sum_weights es t0 = Inr t \<Longrightarrow> t0 \<le> u64_max \<Longrightarrow> \<forall>e \<in> set es. ep_weight e \<le> u32_max \<Longrightarrow>
   t = t0 + weights es \<and> t \<le> u64_max \<and> (\<forall>e \<in> set es. 0 < ep_weight e)"
proof (induction es arbitrary: t0)
  case (Cons e es)
  then have "0 < ep_weight e" "t0 + ep_weight e \<le> u64_max"
    and "wrr_sum_weights es (t0 + ep_weight e) = Inr t"
    by (auto split: if_splits)
  with Cons.IH [of "t0 + ep_weight e"] Cons.prems(3) show ?case by (simp add: weights_def)
qed (simp add: weights_def)

text \<open>The scan finds the endpoint whose interval of the weight line contains the position.\<close>

lemma wrr_scan_iff:
  "wrr_scan es s u index = Some k \<longleftrightarrow>
     (\<exists>i < length es. k = index + i \<and> (i = 0 \<or> u + weights (take i es) \<le> s) \<and> s < u + weights (take (Suc i) es))"
proof (induction es arbitrary: u index)
  case (Cons e es)
  have ex: "(\<exists>i < length (e # es). P i) \<longleftrightarrow> P 0 \<or> (\<exists>i < length es. P (Suc i))" for P
    by (auto simp: less_Suc_eq_0_disj)
  show ?case
  proof (cases "s < u + ep_weight e")
    case True
    then show ?thesis unfolding ex by (auto simp: weights_def)
  next
    case False
    have IH: "wrr_scan es s (u + ep_weight e) (Suc index) = Some k \<longleftrightarrow>
      (\<exists>i < length es. k = Suc index + i \<and> (i = 0 \<or> u + ep_weight e + weights (take i es) \<le> s)
         \<and> s < u + ep_weight e + weights (take (Suc i) es))"
      by (rule Cons.IH)
    have step: "(i = 0 \<or> u + ep_weight e + weights (take i es) \<le> s) \<longleftrightarrow> u + ep_weight e + weights (take i es) \<le> s" for i
      using False by (auto simp: weights_def)
    show ?thesis unfolding ex using False IH unfolding step by (auto simp: weights_def add.assoc)
  qed
qed simp

lemma weights_take_mono: "i \<le> j \<Longrightarrow> weights (take i es) \<le> weights (take j es)"
proof -
  assume "i \<le> j"
  then have "take j es = take i es @ take (j - i) (drop i es)" by (metis le_add_diff_inverse take_add)
  then show ?thesis by (simp add: weights_def)
qed

definition wrr_pick :: "endpoint list \<Rightarrow> nat \<Rightarrow> nat" where
  "wrr_pick es s = (case wrr_scan es s 0 0 of Some i \<Rightarrow> i | None \<Rightarrow> 0)"

lemma wrr_pick_iff:
  assumes "s < weights es" and "i < length es"
  shows "wrr_pick es s = i \<longleftrightarrow> weights (take i es) \<le> s \<and> s < weights (take (Suc i) es)"
proof
  assume r: "weights (take i es) \<le> s \<and> s < weights (take (Suc i) es)"
  then have "wrr_scan es s 0 0 = Some i" using assms(2) by (auto simp: wrr_scan_iff)
  then show "wrr_pick es s = i" by (simp add: wrr_pick_def)
next
  assume p: "wrr_pick es s = i"
  have "\<exists>k < length es. weights (take k es) \<le> s \<and> s < weights (take (Suc k) es)"
  proof -
    define k where "k = (LEAST k. s < weights (take k es))"
    have ex: "s < weights (take (length es) es)" using assms(1) by simp
    have k: "s < weights (take k es)" unfolding k_def by (rule LeastI [of _ "length es"]) (rule ex)
    then obtain m where m: "k = Suc m" by (cases k) (simp_all add: weights_def)
    have "\<not> s < weights (take m es)" using not_less_Least [of m "\<lambda>k. s < weights (take k es)"] m k_def by simp
    moreover have "k \<le> length es" unfolding k_def by (rule Least_le) (rule ex)
    ultimately show ?thesis using k m by (intro exI [of _ m]) auto
  qed
  then obtain k where k: "k < length es" "weights (take k es) \<le> s" "s < weights (take (Suc k) es)" by blast
  then have "wrr_scan es s 0 0 = Some k" by (auto simp: wrr_scan_iff)
  with p have "k = i" by (simp add: wrr_pick_def)
  with k show "weights (take i es) \<le> s \<and> s < weights (take (Suc i) es)" by simp
qed

lemma wrr_pick_count:
  assumes "i < length es"
  shows "card {s. s < weights es \<and> wrr_pick es s = i} = ep_weight (es ! i)"
proof -
  have "weights (take (Suc i) es) = weights (take i es) + ep_weight (es ! i)"
    using assms by (simp add: weights_def take_Suc_conv_app_nth)
  moreover have le: "weights (take (Suc i) es) \<le> weights es"
    using weights_take_mono [of "Suc i" "length es" es] assms by simp
  have "s < weights es \<and> wrr_pick es s = i \<longleftrightarrow> weights (take i es) \<le> s \<and> s < weights (take (Suc i) es)" for s
  proof (cases "s < weights es")
    case True
    with wrr_pick_iff [OF True assms] show ?thesis by simp
  next
    case False
    with le have "\<not> s < weights (take (Suc i) es)" by linarith
    with False show ?thesis by blast
  qed
  then have "{s. s < weights es \<and> wrr_pick es s = i} = {weights (take i es) ..< weights (take (Suc i) es)}"
    unfolding set_eq_iff mem_Collect_eq atLeastLessThan_iff by blast
  ultimately show ?thesis by simp
qed

definition wrr_wf :: "weighted_round_robin \<Rightarrow> bool" where
  "wrr_wf w \<longleftrightarrow> wrr_total_weight w = weights (wrr_endpoints w) \<and> wrr_next_weight w < wrr_total_weight w
     \<and> wrr_total_weight w \<le> u64_max"

lemma wrr_run_picks:
  assumes "wrr_wf w"
  shows "fst (wrr_run n w) =
      map (\<lambda>k. wrr_pick (wrr_endpoints w) ((wrr_next_weight w + k) mod wrr_total_weight w)) [0..<n]
    \<and> snd (wrr_run n w) = w\<lparr>wrr_next_weight := (wrr_next_weight w + n) mod wrr_total_weight w\<rparr>"
  using assms
proof (induction n arbitrary: w)
  case 0
  then show ?case by (simp add: wrr_wf_def)
next
  case (Suc n)
  let ?T = "wrr_total_weight w" and ?x = "wrr_next_weight w"
  define w' where "w' = w\<lparr>wrr_next_weight := (?x + 1) mod ?T\<rparr>"
  have T: "?x < ?T" using Suc.prems by (simp add: wrr_wf_def)
  have step: "WeightedRoundRobin_Next w = (wrr_pick (wrr_endpoints w) ?x, w')"
    using T by (auto simp: WeightedRoundRobin_Next_def wrr_pick_def w'_def mod_Suc Let_def)
  have "wrr_wf w'" using Suc.prems T by (simp add: wrr_wf_def w'_def)
  note IH = Suc.IH [OF this]
  have shift: "(Suc ?x mod ?T + k) mod ?T = Suc (?x + k) mod ?T" for k
    using mod_add_left_eq [of "Suc ?x" ?T k] by simp
  have "map (\<lambda>k. wrr_pick (wrr_endpoints w) ((?x + k) mod ?T)) [0..<Suc n]
      = wrr_pick (wrr_endpoints w) ?x # map (\<lambda>k. wrr_pick (wrr_endpoints w) ((?x + Suc k) mod ?T)) [0..<n]"
    using T by (simp add: upt_conv_Cons map_Suc_upt [symmetric] del: upt_Suc map_Suc_upt)
  then show ?case
    using IH shift [of n] by (simp add: step w'_def shift Let_def split_beta del: upt_Suc)
qed

lemma mod_window_count:
  assumes "x < (T :: nat)"
  shows "card {k. k < T \<and> P ((x + k) mod T)} = card {s. s < T \<and> P s}"
proof -
  let ?f = "\<lambda>k. (x + k) mod T" and ?g = "\<lambda>s. (s + (T - x)) mod T"
  have gf: "?g (?f k) = k" if "k < T" for k
  proof -
    have "?g (?f k) = (x + k + (T - x)) mod T" by (simp add: mod_add_left_eq)
    also have "\<dots> = k" using assms that by simp
    finally show ?thesis .
  qed
  have fg: "?f (?g s) = s" if "s < T" for s
  proof -
    have "?f (?g s) = (x + (s + (T - x))) mod T" by (simp add: mod_add_right_eq)
    also have "\<dots> = s" using assms that by simp
    finally show ?thesis .
  qed
  have "bij_betw ?f {k. k < T \<and> P (?f k)} {s. s < T \<and> P s}"
    by (rule bij_betw_byWitness [where f' = ?g]) (use assms gf fg in auto)
  then show ?thesis by (rule bij_betw_same_card)
qed

lemma count_list_map_upt: "count_list (map f [0..<n]) y = card {k. k < n \<and> f k = y}"
proof (induction n)
  case (Suc n)
  have "{k. k < Suc n \<and> f k = y} = {k. k < n \<and> f k = y} \<union> (if f n = y then {n} else {})"
    by (auto simp: less_Suc_eq)
  with Suc show ?case by (auto simp: card_insert_if)
qed simp

lemma wrr_run_wf: "wrr_wf w \<Longrightarrow> wrr_wf (snd (wrr_run m w))
    \<and> wrr_endpoints (snd (wrr_run m w)) = wrr_endpoints w \<and> wrr_total_weight (snd (wrr_run m w)) = wrr_total_weight w"
  using wrr_run_picks [of w m] by (simp add: wrr_wf_def)

text \<open>
   C13. Weighted fairness: after any number \<open>m\<close> of earlier selections, the next
  \<open>total_weight\<close> selections return every endpoint exactly as often as its weight, with a
  schedule that stores no expanded weights; the total of the 32-bit weights does not
  overflow 64 bits.
\<close>

theorem WeightedRoundRobin_fair:
  assumes "WeightedRoundRobin_new es = Inr w" and "i < length es" and "\<forall>e \<in> set es. ep_weight e \<le> u32_max"
  defines "T \<equiv> sum_list (map ep_weight es)"
  shows "count_list (fst (wrr_run T (snd (wrr_run m w)))) i = ep_weight (es ! i) \<and> T \<le> u64_max"
proof -
  have w: "wrr_endpoints w = es" "wrr_total_weight w = weights es" "wrr_wf w" "weights es \<le> u64_max"
    using assms(1,3) wrr_sum_weights_Inr [of es 0]
    by (auto simp: WeightedRoundRobin_new_def wrr_wf_def split: if_splits)
  define v where "v = snd (wrr_run m w)"
  have v: "wrr_wf v" "wrr_endpoints v = es" "wrr_total_weight v = weights es"
    using wrr_run_wf [OF w(3)] w by (simp_all add: v_def)
  have T: "T = weights es" by (simp add: T_def weights_def)
  have "count_list (fst (wrr_run T v)) i
      = card {k. k < weights es \<and> wrr_pick es ((wrr_next_weight v + k) mod weights es) = i}"
    using wrr_run_picks [OF v(1), of T] by (simp add: T v count_list_map_upt)
  also have "\<dots> = card {s. s < weights es \<and> wrr_pick es s = i}"
    using v by (intro mod_window_count) (simp add: wrr_wf_def)
  also have "\<dots> = ep_weight (es ! i)" by (rule wrr_pick_count [OF assms(2)])
  finally show ?thesis using w(4) by (simp add: v_def T)
qed

definition sample_endpoints :: "endpoint list" where
  "sample_endpoints = rt_endpoints (hd (cfg_routes sample_config))"

theorem WeightedRoundRobin_fair_witness:
  "\<exists>w. WeightedRoundRobin_new sample_endpoints = Inr w
    \<and> count_list (fst (wrr_run 3 (snd (wrr_run 1 w)))) 0 = 2"
proof -
  obtain w where w: "WeightedRoundRobin_new sample_endpoints = Inr w"
    by (simp add: WeightedRoundRobin_new_def sample_endpoints_def sample_config_def Route_new_def)
  have "sum_list (map ep_weight sample_endpoints) = 3" "ep_weight (sample_endpoints ! 0) = 2"
    "0 < length sample_endpoints" "\<forall>e \<in> set sample_endpoints. ep_weight e \<le> u32_max"
    by (simp_all add: sample_endpoints_def sample_config_def Route_new_def)
  with WeightedRoundRobin_fair [OF w, of 0 1] w show ?thesis by auto
qed

text \<open>A configured route always yields a schedule.\<close>

lemma WeightedRoundRobin_valid_route:
  "route_valid r \<Longrightarrow> weights (rt_endpoints r) \<le> u64_max \<Longrightarrow> \<exists>w. WeightedRoundRobin_new (rt_endpoints r) = Inr w"
proof -
  have sums: "wrr_sum_weights es t0 = Inr (t0 + weights es)"
    if "\<forall>e \<in> set es. 0 < ep_weight e" "t0 + weights es \<le> u64_max" for es t0
    using that
  proof (induction es arbitrary: t0)
    case (Cons e es)
    then show ?case by (auto simp: weights_def)
  qed (simp add: weights_def)
  assume "route_valid r" "weights (rt_endpoints r) \<le> u64_max"
  moreover from this have pos: "\<forall>e \<in> set (rt_endpoints r). 0 < ep_weight e"
    by (auto simp: route_valid_def list_all_iff endpoint_valid_def u32_positive_def)
  moreover have "weights (rt_endpoints r) \<noteq> 0"
    using \<open>route_valid r\<close> pos by (cases "rt_endpoints r") (auto simp: weights_def route_valid_def)
  ultimately show ?thesis by (simp add: WeightedRoundRobin_new_def sums)
qed

section \<open>Active counters\<close>

interpretation act: counted_slots Active_AcquireOne Active_ReleaseOne act_count "\<lambda>_. u32_max"
  by unfold_locales (auto simp: Active_AcquireOne_def Active_ReleaseOne_def)

text \<open>
   C14. The active count of an endpoint equals the number of guards that hold a slot, after any
  sequence of acquisitions, moves and releases of fewer than \<open>2 ^ 32 - 1\<close> guards: it never
  underflows and never counts a guard twice.
\<close>

theorem ActiveReservation_accounting:
  assumes "n < u32_max"
    and "shared (Active_guards ops (guards_init n \<lparr>act_count = 0\<rparr>)) = Some s"
  shows "act_count s = held_count (Active_guards ops (guards_init n \<lparr>act_count = 0\<rparr>))"
  using act.run_counts_guards [of "\<lparr>act_count = 0\<rparr>" n ops s] assms unfolding Active_guards_def by simp

theorem ActiveReservation_accounting_witness:
  "held_count (Active_guards [GAcquire 0, GAcquire 1, GMove 0 1, GRelease 1, GRelease 1]
     (guards_init 2 \<lparr>act_count = 0\<rparr>)) = 1"
proof -
  have "shared (Active_guards [GAcquire 0, GAcquire 1, GMove 0 1, GRelease 1, GRelease 1]
     (guards_init 2 \<lparr>act_count = 0\<rparr>)) = Some \<lparr>act_count = 1\<rparr>" by code_simp
  from ActiveReservation_accounting [OF _ this] show ?thesis by simp
qed

end
