(* ===== verification/CoordState.thy ===== *)
theory CoordState
  imports BreakerCycle ConfigModel
begin

text \<open>
  The coordinator's single-writer health and breaker state (\<open>CoordinatorState\<close>), the
  availability of an endpoint (\<open>EndpointHealth.h\<close>), and the protection snapshot that a
  reload carries from one coordinator to the next (\<open>ProtectionSnapshot\<close>).

  The per-cycle probe slot objects are shared between the coordinator and the snapshots that
  workers hold, and \<open>ClaimProbe\<close> compares their addresses; the model keeps them in a heap, a
  list that only grows, with the index of an object as its address.
\<close>

section \<open>Data\<close>

datatype health_state = kImplicitHealthy | kUnknown | kHealthy | kUnhealthy

definition EndpointHealth_Healthy :: "health_state \<Rightarrow> bool" where
  "EndpointHealth_Healthy h \<longleftrightarrow> h = kImplicitHealthy \<or> h = kHealthy"

definition EndpointHealth_RecordCheckResult :: "bool \<Rightarrow> health_state" where
  "EndpointHealth_RecordCheckResult ok = (if ok then kHealthy else kUnhealthy)"

record route_identity =
  ri_name :: string
  ri_host :: string
  ri_path_prefix :: string

record endpoint_identity =
  ei_host :: string
  ei_address :: "nat list"
  ei_port :: nat

record endpoint_protection =
  ep_route :: route_identity
  ep_endpoint :: endpoint_identity
  ep_health_state :: health_state
  ep_source_health_policy :: "health_check_settings option"
  ep_source_breaker_policy :: "circuit_breaker_settings option"
  ep_breaker :: "breaker_snapshot option"

definition RouteKey :: "route \<Rightarrow> route_identity" where
  "RouteKey r = \<lparr>ri_name = rt_name r, ri_host = rt_host r, ri_path_prefix = rt_path_prefix r\<rparr>"

definition EndpointKey :: "endpoint \<Rightarrow> endpoint_identity" where
  "EndpointKey e = \<lparr>ei_host = ep_host e, ei_address = ep_address e, ei_port = ep_port e\<rparr>"

definition SameRouteIdentity :: "route_identity \<Rightarrow> route \<Rightarrow> bool" where
  "SameRouteIdentity k r \<longleftrightarrow>
     ri_name k = rt_name r \<and> ri_host k = rt_host r \<and> ri_path_prefix k = rt_path_prefix r"

definition SameEndpointIdentity :: "endpoint_identity \<Rightarrow> endpoint \<Rightarrow> bool" where
  "SameEndpointIdentity k e \<longleftrightarrow>
     ei_host k = ep_host e \<and> ei_address k = ep_address e \<and> ei_port k = ep_port e"

definition SameHealthPolicy :: "health_check_settings option \<Rightarrow> health_check_settings option \<Rightarrow> bool" where
  "SameHealthPolicy left right =
     (case (left, right) of
        (None, None) \<Rightarrow> True
      | (Some l, Some r) \<Rightarrow> interval_ms l = interval_ms r \<and> timeout_ms l = timeout_ms r
      | _ \<Rightarrow> False)"

definition SameBreakerPolicy :: "circuit_breaker_settings option \<Rightarrow> circuit_breaker_settings option \<Rightarrow> bool" where
  "SameBreakerPolicy left right =
     (case (left, right) of
        (None, None) \<Rightarrow> True
      | (Some l, Some r) \<Rightarrow>
          window_seconds l = window_seconds r \<and> min_requests l = min_requests r
          \<and> failure_threshold_permille l = failure_threshold_permille r
          \<and> open_seconds l = open_seconds r \<and> half_open_probes l = half_open_probes r
      | _ \<Rightarrow> False)"

record probe_slot_state =
  ps_remaining :: nat
  ps_issued :: u64
  ps_probe_base :: u64
  ps_generation :: u64
  ps_quota :: nat

record endpoint_decision =
  ed_healthy :: bool
  ed_breaker_state :: breaker_state
  ed_generation :: u64
  ed_probe_base :: u64
  ed_probe_quota :: nat
  ed_probe_slots :: "nat option"

record health_circuit_snapshot =
  hs_version :: u64
  hs_endpoints :: "endpoint_decision list list"

record attempt_permit =
  ap_probe :: bool
  ap_generation :: u64
  ap_probe_id :: u64

record attempt_result =
  ar_route_index :: nat
  ar_endpoint_index :: nat
  ar_permit :: attempt_permit
  ar_success :: bool

record endpoint_state =
  es_health :: health_state
  es_breaker :: "circuit_breaker option"
  es_probe_slots :: "nat option"

record coordinator_state =
  cs_config :: config
  cs_endpoints :: "endpoint_state list list"
  cs_version :: u64
  cs_heap :: "probe_slot_state list"

section \<open>Operations\<close>

definition has_endpoint :: "coordinator_state \<Rightarrow> nat \<Rightarrow> nat \<Rightarrow> bool" where
  "has_endpoint s route endpoint \<longleftrightarrow>
     \<not> (route \<ge> length (cs_endpoints s) \<or> endpoint \<ge> length (cs_endpoints s ! route))"

definition endpoint_at :: "coordinator_state \<Rightarrow> nat \<Rightarrow> nat \<Rightarrow> endpoint_state" where
  "endpoint_at s route endpoint = cs_endpoints s ! route ! endpoint"

definition set_endpoint :: "coordinator_state \<Rightarrow> nat \<Rightarrow> nat \<Rightarrow> endpoint_state \<Rightarrow> coordinator_state" where
  "set_endpoint s route endpoint e =
     s\<lparr>cs_endpoints := (cs_endpoints s)[route := (cs_endpoints s ! route)[endpoint := e]]\<rparr>"

text \<open>Seconds become milliseconds when the settings are converted to durations.\<close>

definition breaker_config_of :: "circuit_breaker_settings \<Rightarrow> breaker_config" where
  "breaker_config_of b =
     \<lparr>bc_window = int (window_seconds b) * 1000, bc_min_requests = min_requests b,
      bc_failure_threshold_permille = failure_threshold_permille b,
      bc_open_duration = int (open_seconds b) * 1000, bc_half_open_probes = half_open_probes b\<rparr>"

definition route_states :: "route \<Rightarrow> time_point \<Rightarrow> cpp_error + endpoint_state list" where
  "route_states r now =
     res_map (\<lambda>_. case rt_circuit_breaker r of
         None \<Rightarrow> Inr \<lparr>es_health = kImplicitHealthy, es_breaker = None, es_probe_slots = None\<rparr>
       | Some b \<Rightarrow> res_bind (CircuitBreaker_new (breaker_config_of b) now) (\<lambda>breaker.
           Inr \<lparr>es_health = kImplicitHealthy, es_breaker = Some breaker, es_probe_slots = None\<rparr>))
       (rt_endpoints r)"

definition CoordinatorState_new :: "config \<Rightarrow> time_point \<Rightarrow> cpp_error + coordinator_state" where
  "CoordinatorState_new c now =
     res_bind (res_map (\<lambda>r. route_states r now) (cfg_routes c)) (\<lambda>endpoints.
       Inr \<lparr>cs_config = c, cs_endpoints = endpoints, cs_version = 0, cs_heap = []\<rparr>)"

definition PrepareForMigration :: "coordinator_state \<Rightarrow> coordinator_state" where
  "PrepareForMigration s =
     s\<lparr>cs_endpoints := map2 (\<lambda>r. map (\<lambda>e. e\<lparr>es_health :=
         (if rt_health_check r \<noteq> None then kUnknown else kImplicitHealthy)\<rparr>))
       (cfg_routes (cs_config s)) (cs_endpoints s)\<rparr>"

definition export_endpoint :: "time_point \<Rightarrow> route \<Rightarrow> endpoint \<Rightarrow> endpoint_state \<Rightarrow> endpoint_protection" where
  "export_endpoint now r e st =
     \<lparr>ep_route = RouteKey r, ep_endpoint = EndpointKey e, ep_health_state = es_health st,
      ep_source_health_policy = rt_health_check r, ep_source_breaker_policy = rt_circuit_breaker r,
      ep_breaker = map_option (\<lambda>b. ExportSnapshot b now) (es_breaker st)\<rparr>"

definition ExportProtectionSnapshot :: "coordinator_state \<Rightarrow> time_point \<Rightarrow> endpoint_protection list" where
  "ExportProtectionSnapshot s now =
     concat (map2 (\<lambda>r sts. map2 (export_endpoint now r) (rt_endpoints r) sts)
       (cfg_routes (cs_config s)) (cs_endpoints s))"

definition new_slots :: "half_open_cycle \<Rightarrow> probe_slot_state" where
  "new_slots cycle = \<lparr>ps_remaining = hc_quota cycle, ps_issued = 0, ps_probe_base = hc_probe_base cycle,
     ps_generation = hc_generation cycle, ps_quota = hc_quota cycle\<rparr>"

text \<open>The body of the import loop for a matching endpoint.\<close>

definition import_into ::
    "endpoint_protection \<Rightarrow> route \<Rightarrow> time_point \<Rightarrow> nat \<Rightarrow> nat \<Rightarrow> coordinator_state \<Rightarrow> coordinator_state" where
  "import_into source r now route endpoint s =
     (let target = endpoint_at s route endpoint;
          target = (if SameHealthPolicy (ep_source_health_policy source) (rt_health_check r)
                    then target\<lparr>es_health := ep_health_state source\<rparr> else target)
      in case (es_breaker target, ep_breaker source) of
           (Some b, Some snapshot) \<Rightarrow>
             if SameBreakerPolicy (ep_source_breaker_policy source) (rt_circuit_breaker r) then
               (case ImportSnapshot b snapshot now of
                  (Some cycle, b') \<Rightarrow>
                    set_endpoint (s\<lparr>cs_heap := cs_heap s @ [new_slots cycle]\<rparr>) route endpoint
                      (target\<lparr>es_breaker := Some b', es_probe_slots := Some (length (cs_heap s))\<rparr>)
                | (None, b') \<Rightarrow> set_endpoint s route endpoint (target\<lparr>es_breaker := Some b'\<rparr>))
             else set_endpoint s route endpoint target
         | _ \<Rightarrow> set_endpoint s route endpoint target)"

text \<open>
  The two inner loops stop at the first route, and within it at the first endpoint, with the
  source's identity.
\<close>

definition find_index :: "('a \<Rightarrow> bool) \<Rightarrow> 'a list \<Rightarrow> nat option" where
  "find_index P xs = (if \<exists>x \<in> set xs. P x then Some (length (takeWhile (\<lambda>x. \<not> P x) xs)) else None)"

definition import_record :: "time_point \<Rightarrow> endpoint_protection \<Rightarrow> coordinator_state \<Rightarrow> coordinator_state" where
  "import_record now source s =
     (case find_index (SameRouteIdentity (ep_route source)) (cfg_routes (cs_config s)) of
        None \<Rightarrow> s
      | Some route \<Rightarrow>
          let r = cfg_routes (cs_config s) ! route in
          case find_index (SameEndpointIdentity (ep_endpoint source)) (rt_endpoints r) of
            None \<Rightarrow> s
          | Some endpoint \<Rightarrow> import_into source r now route endpoint s)"

definition ImportProtectionSnapshot ::
    "coordinator_state \<Rightarrow> endpoint_protection list \<Rightarrow> time_point \<Rightarrow> coordinator_state" where
  "ImportProtectionSnapshot s snapshot now =
     fold (import_record now) snapshot (PrepareForMigration s)"

definition RecordHealth :: "coordinator_state \<Rightarrow> nat \<Rightarrow> nat \<Rightarrow> bool \<Rightarrow> coordinator_state" where
  "RecordHealth s route endpoint healthy =
     (if \<not> has_endpoint s route endpoint then s
      else set_endpoint s route endpoint
             ((endpoint_at s route endpoint)\<lparr>es_health := EndpointHealth_RecordCheckResult healthy\<rparr>))"

definition permit_for :: "attempt_permit \<Rightarrow> request_permit" where
  "permit_for p = \<lparr>pm_selection = (if ap_probe p then kProbe else kAllowed),
     pm_generation = ap_generation p, pm_probe_id = ap_probe_id p\<rparr>"

definition RecordResult :: "coordinator_state \<Rightarrow> attempt_result \<Rightarrow> time_point \<Rightarrow> coordinator_state" where
  "RecordResult s result now =
     (if \<not> has_endpoint s (ar_route_index result) (ar_endpoint_index result) then s
      else let state = endpoint_at s (ar_route_index result) (ar_endpoint_index result) in
        case es_breaker state of
          None \<Rightarrow> s
        | Some breaker \<Rightarrow>
            let permit = permit_for (ar_permit result);
                breaker = (if ar_success result then RecordSuccess breaker now permit
                           else RecordFailure breaker now permit)
            in set_endpoint s (ar_route_index result) (ar_endpoint_index result)
                 (state\<lparr>es_breaker := Some breaker\<rparr>))"

definition ArmHalfOpen :: "coordinator_state \<Rightarrow> nat \<Rightarrow> nat \<Rightarrow> time_point \<Rightarrow> coordinator_state" where
  "ArmHalfOpen s route endpoint now =
     (if \<not> has_endpoint s route endpoint then s
      else let state = endpoint_at s route endpoint in
        case es_breaker state of
          None \<Rightarrow> s
        | Some breaker \<Rightarrow>
            if cb_state breaker \<noteq> kOpen then s
            else if now < cb_open_until breaker then s
            else let (cycle, breaker) = BeginFreshHalfOpenCycle breaker
                 in set_endpoint (s\<lparr>cs_heap := cs_heap s @ [new_slots cycle]\<rparr>) route endpoint
                      (state\<lparr>es_breaker := Some breaker, es_probe_slots := Some (length (cs_heap s))\<rparr>))"

definition decision_of :: "coordinator_state \<Rightarrow> endpoint_state \<Rightarrow> endpoint_decision" where
  "decision_of s state =
     (case es_breaker state of
        None \<Rightarrow>
          \<lparr>ed_healthy = EndpointHealth_Healthy (es_health state), ed_breaker_state = kClosed,
           ed_generation = 0, ed_probe_base = 0, ed_probe_quota = 0, ed_probe_slots = None\<rparr>
      | Some breaker \<Rightarrow>
          \<lparr>ed_healthy = EndpointHealth_Healthy (es_health state), ed_breaker_state = cb_state breaker,
           ed_generation = cb_generation breaker,
           ed_probe_base = (case es_probe_slots state of None \<Rightarrow> 0 | Some p \<Rightarrow> ps_probe_base (cs_heap s ! p)),
           ed_probe_quota = (case es_probe_slots state of None \<Rightarrow> 0 | Some p \<Rightarrow> ps_quota (cs_heap s ! p)),
           ed_probe_slots = es_probe_slots state\<rparr>)"

definition BuildSnapshot :: "coordinator_state \<Rightarrow> health_circuit_snapshot \<times> coordinator_state" where
  "BuildSnapshot s =
     (let s = s\<lparr>cs_version := cs_version s + 1\<rparr>
      in (\<lparr>hs_version = cs_version s, hs_endpoints = map (map (decision_of s)) (cs_endpoints s)\<rparr>, s))"

text \<open>
  Claiming a probe from the snapshot's own slot object.  \<open>probe_id\<close> is the base plus the
  value of \<open>issued\<close> before its increment.
\<close>

definition ClaimProbe ::
    "coordinator_state \<Rightarrow> nat \<Rightarrow> nat \<Rightarrow> health_circuit_snapshot \<Rightarrow> attempt_permit option \<times> coordinator_state" where
  "ClaimProbe s route endpoint snapshot =
     (if route \<ge> length (hs_endpoints snapshot) \<or> endpoint \<ge> length (hs_endpoints snapshot ! route) then (None, s)
      else let decision = hs_endpoints snapshot ! route ! endpoint in
        if ed_breaker_state decision \<noteq> kHalfOpen then (None, s)
        else case ed_probe_slots decision of
          None \<Rightarrow> (None, s)
        | Some p \<Rightarrow>
            let slots = cs_heap s ! p in
            if ps_remaining slots > 0 then
              let index = ps_issued slots;
                  s = s\<lparr>cs_heap := (cs_heap s)[p := slots\<lparr>ps_remaining := ps_remaining slots - 1,
                          ps_issued := ps_issued slots + 1\<rparr>]\<rparr>
              in if \<not> has_endpoint s route endpoint
                    \<or> es_probe_slots (endpoint_at s route endpoint) \<noteq> Some p then (None, s)
                 else (Some \<lparr>ap_probe = True, ap_generation = ps_generation slots,
                             ap_probe_id = ps_probe_base slots + index\<rparr>, s)
            else (None, s))"

definition ProbeAvailable :: "coordinator_state \<Rightarrow> nat \<Rightarrow> nat \<Rightarrow> bool" where
  "ProbeAvailable s route endpoint =
     (if \<not> has_endpoint s route endpoint then False
      else case es_probe_slots (endpoint_at s route endpoint) of
             None \<Rightarrow> False
           | Some p \<Rightarrow> ps_remaining (cs_heap s ! p) > 0)"

definition BreakerState :: "coordinator_state \<Rightarrow> nat \<Rightarrow> nat \<Rightarrow> breaker_state" where
  "BreakerState s route endpoint =
     (if \<not> has_endpoint s route endpoint then kClosed
      else case es_breaker (endpoint_at s route endpoint) of
             None \<Rightarrow> kClosed | Some b \<Rightarrow> cb_state b)"

definition IsOpen :: "coordinator_state \<Rightarrow> nat \<Rightarrow> nat \<Rightarrow> bool" where
  "IsOpen s route endpoint \<longleftrightarrow> BreakerState s route endpoint = kOpen"

text \<open>\<open>None\<close> stands for \<open>time_point::max()\<close>.\<close>

definition OpenUntil :: "coordinator_state \<Rightarrow> nat \<Rightarrow> nat \<Rightarrow> time_point option" where
  "OpenUntil s route endpoint =
     (if \<not> has_endpoint s route endpoint then None
      else map_option cb_open_until (es_breaker (endpoint_at s route endpoint)))"

definition Healthy :: "coordinator_state \<Rightarrow> nat \<Rightarrow> nat \<Rightarrow> bool" where
  "Healthy s route endpoint =
     (if \<not> has_endpoint s route endpoint then True
      else EndpointHealth_Healthy (es_health (endpoint_at s route endpoint)))"

definition Health :: "coordinator_state \<Rightarrow> nat \<Rightarrow> nat \<Rightarrow> health_state" where
  "Health s route endpoint =
     (if \<not> has_endpoint s route endpoint then kImplicitHealthy
      else es_health (endpoint_at s route endpoint))"

definition Generation :: "coordinator_state \<Rightarrow> nat \<Rightarrow> nat \<Rightarrow> u64" where
  "Generation s route endpoint =
     (if \<not> has_endpoint s route endpoint then 0
      else case es_breaker (endpoint_at s route endpoint) of None \<Rightarrow> 0 | Some b \<Rightarrow> cb_generation b)"

section \<open>Finding a position\<close>

lemma first_match: "x \<in> set xs \<Longrightarrow> P x \<Longrightarrow>
  length (takeWhile (\<lambda>x. \<not> P x) xs) < length xs \<and> P (xs ! length (takeWhile (\<lambda>x. \<not> P x) xs))"
  by (induction xs) auto

lemma find_index_Some:
  assumes "find_index P xs = Some i"
  shows "i < length xs" "P (xs ! i)"
  using assms first_match [of _ xs P] by (auto simp: find_index_def split: if_splits)

end
