(* ===== verification/CoordProbe.thy ===== *)
theory CoordProbe
  imports CoordState
begin

text \<open>
  Half-open probes between the coordinator and the workers.  Workers claim probe slots from
  published snapshots while the coordinator records results and starts new cycles.  The
  reachable states of this interplay keep an invariant that ties every slot object to the
  breaker's pending probes; from it follow that no permit is handed out twice, that a permit
  of the running cycle names a probe the breaker is waiting for, and that a fresh cycle hands
  out exactly its quota.
\<close>

section \<open>Concurrent claims\<close>

text \<open>
  The claim loop at the granularity of its atomic operations: a compare-exchange on
  \<open>remaining\<close> (which may also fail spuriously and reload) and a separate \<open>fetch_add\<close> on
  \<open>issued\<close>.
\<close>

datatype claim_pc = Trying | Won | Issued u64 | GaveUp

record claim_state =
  cl_remaining :: nat
  cl_issued :: u64
  cl_pcs :: "nat \<Rightarrow> claim_pc"

inductive claim_step :: "claim_state \<Rightarrow> claim_state \<Rightarrow> bool" where
  win: "cl_pcs s i = Trying \<Longrightarrow> 0 < cl_remaining s \<Longrightarrow>
    claim_step s (s\<lparr>cl_remaining := cl_remaining s - 1, cl_pcs := (cl_pcs s)(i := Won)\<rparr>)"
| give_up: "cl_pcs s i = Trying \<Longrightarrow> cl_remaining s = 0 \<Longrightarrow>
    claim_step s (s\<lparr>cl_pcs := (cl_pcs s)(i := GaveUp)\<rparr>)"
| issue: "cl_pcs s i = Won \<Longrightarrow>
    claim_step s (s\<lparr>cl_issued := cl_issued s + 1, cl_pcs := (cl_pcs s)(i := Issued (cl_issued s))\<rparr>)"

inductive_cases claim_stepE: "claim_step s s'"

definition claim_init :: "nat \<Rightarrow> claim_state" where
  "claim_init quota = \<lparr>cl_remaining = quota, cl_issued = 0, cl_pcs = (\<lambda>_. Trying)\<rparr>"

section \<open>The system of coordinator and workers\<close>

text \<open>
  \<open>permits\<close> are the permits handed out so far, with their route and endpoint; \<open>snaps\<close> are the
  snapshots workers may hold.  Results carry a permit that was handed out, or an ordinary
  (non-probe) permit with any generation.
\<close>

record coord_system =
  sys_state :: coordinator_state
  sys_permits :: "(nat \<times> nat \<times> attempt_permit) list"
  sys_snaps :: "health_circuit_snapshot set"

inductive coord_step :: "coord_system \<Rightarrow> coord_system \<Rightarrow> bool" where
  health: "coord_step y (y\<lparr>sys_state := RecordHealth (sys_state y) r e ok\<rparr>)"
| result: "\<not> ap_probe (ar_permit res)
      \<or> (ar_route_index res, ar_endpoint_index res, ar_permit res) \<in> set (sys_permits y) \<Longrightarrow>
    coord_step y (y\<lparr>sys_state := RecordResult (sys_state y) res now\<rparr>)"
| arm: "coord_step y (y\<lparr>sys_state := ArmHalfOpen (sys_state y) r e now\<rparr>)"
| publish: "BuildSnapshot (sys_state y) = (snap, s') \<Longrightarrow>
    coord_step y (y\<lparr>sys_state := s', sys_snaps := insert snap (sys_snaps y)\<rparr>)"
| claim: "snap \<in> sys_snaps y \<Longrightarrow> ClaimProbe (sys_state y) r e snap = (Some p, s') \<Longrightarrow>
    coord_step y (y\<lparr>sys_state := s', sys_permits := (r, e, p) # sys_permits y\<rparr>)"
| claim_refused: "snap \<in> sys_snaps y \<Longrightarrow> ClaimProbe (sys_state y) r e snap = (None, s') \<Longrightarrow>
    coord_step y (y\<lparr>sys_state := s'\<rparr>)"

definition coord_system_init :: "coordinator_state \<Rightarrow> coord_system" where
  "coord_system_init s = \<lparr>sys_state = s, sys_permits = [], sys_snaps = {}\<rparr>"

section \<open>Invariant\<close>

definition slots_ok :: "probe_slot_state \<Rightarrow> bool" where
  "slots_ok p \<longleftrightarrow> ps_remaining p + unat (ps_issued p) = ps_quota p \<and> ps_quota p \<le> u32_max"

text \<open>
  The slot object of a half-open breaker: same generation, and every probe not yet claimed is
  still pending.
\<close>

definition slots_match :: "probe_slot_state \<Rightarrow> circuit_breaker \<Rightarrow> bool" where
  "slots_match p b \<longleftrightarrow>
     ps_generation p = cb_generation b
     \<and> (\<forall>i. unat (ps_issued p) \<le> i \<and> i < ps_quota p \<longrightarrow> ps_probe_base p + of_nat i \<in> set (cb_pending_probes b))"

text \<open>Every permit of the object's generation carries an identifier the object has issued.\<close>

definition permits_issued :: "probe_slot_state \<Rightarrow> attempt_permit set \<Rightarrow> bool" where
  "permits_issued p perms \<longleftrightarrow>
     (\<forall>a \<in> perms. ap_generation a = ps_generation p \<longrightarrow>
        (\<exists>i < unat (ps_issued p). ap_probe_id a = ps_probe_base p + of_nat i))"

text \<open>
  One endpoint: \<open>g\<close> is the first generation of its breaker and \<open>n\<close> the number of transitions
  since, which bounds the age of every slot object and permit.
\<close>

definition endpoint_inv ::
    "nat \<Rightarrow> probe_slot_state list \<Rightarrow> attempt_permit set \<Rightarrow> endpoint_state \<Rightarrow> bool" where
  "endpoint_inv limit heap perms st \<longleftrightarrow>
     (\<forall>p. es_probe_slots st = Some p \<longrightarrow> p < length heap \<and> permits_issued (heap ! p) perms)
     \<and> (case es_breaker st of
          None \<Rightarrow> es_probe_slots st = None
        | Some b \<Rightarrow>
            breaker_inv b
            \<and> (\<exists>g n. g \<noteq> 0 \<and> n \<le> limit \<and> cb_generation b = advance_generations n g
                 \<and> (\<forall>q. es_probe_slots st = Some q \<longrightarrow>
                      (\<exists>k \<le> n. ps_generation (heap ! q) = advance_generations k g))
                 \<and> (\<forall>a \<in> perms. \<exists>k \<le> n. ap_generation a = advance_generations k g))
            \<and> (cb_state b = kHalfOpen \<longrightarrow>
                 (\<exists>q. es_probe_slots st = Some q \<and> slots_match (heap ! q) b)))"

definition permits_for :: "(nat \<times> nat \<times> attempt_permit) list \<Rightarrow> nat \<Rightarrow> nat \<Rightarrow> attempt_permit set" where
  "permits_for ps r e = {a. (r, e, a) \<in> set ps}"

definition snap_slots :: "health_circuit_snapshot \<Rightarrow> nat \<Rightarrow> nat \<Rightarrow> nat option" where
  "snap_slots snap r e =
     (if r < length (hs_endpoints snap) \<and> e < length (hs_endpoints snap ! r)
      then ed_probe_slots (hs_endpoints snap ! r ! e) else None)"

definition coord_inv :: "nat \<Rightarrow> coord_system \<Rightarrow> bool" where
  "coord_inv limit y \<longleftrightarrow>
     (\<forall>r e. has_endpoint (sys_state y) r e \<longrightarrow>
        endpoint_inv limit (cs_heap (sys_state y)) (permits_for (sys_permits y) r e)
          (endpoint_at (sys_state y) r e))
     \<and> list_all slots_ok (cs_heap (sys_state y))
     \<and> (\<exists>own.
          (\<forall>r e p. has_endpoint (sys_state y) r e \<longrightarrow>
             es_probe_slots (endpoint_at (sys_state y) r e) = Some p \<longrightarrow> own p = (r, e))
          \<and> (\<forall>snap \<in> sys_snaps y. \<forall>r e p. snap_slots snap r e = Some p \<longrightarrow>
               own p = (r, e) \<and> p < length (cs_heap (sys_state y))))"

subsection \<open>Endpoint updates\<close>

lemma has_endpoint_set [simp]: "has_endpoint (set_endpoint s r e st) r' e' = has_endpoint s r' e'"
  by (cases "r = r'"; cases "r < length (cs_endpoints s)")
    (auto simp: has_endpoint_def set_endpoint_def)

lemma endpoint_at_set:
  "has_endpoint s r' e' \<Longrightarrow>
   endpoint_at (set_endpoint s r e st) r' e' = (if r = r' \<and> e = e' then st else endpoint_at s r' e')"
  by (cases "r = r'") (auto simp: has_endpoint_def set_endpoint_def endpoint_at_def nth_list_update)

lemma heap_set [simp]: "cs_heap (set_endpoint s r e st) = cs_heap s"
  by (simp add: set_endpoint_def)

lemma endpoints_heap_update [simp]:
  "has_endpoint (s\<lparr>cs_heap := h\<rparr>) r e = has_endpoint s r e"
  "endpoint_at (s\<lparr>cs_heap := h\<rparr>) r e = endpoint_at s r e"
  "has_endpoint (s\<lparr>cs_version := v\<rparr>) r e = has_endpoint s r e"
  "endpoint_at (s\<lparr>cs_version := v\<rparr>) r e = endpoint_at s r e"
  by (simp_all add: has_endpoint_def endpoint_at_def)

text \<open>The endpoint invariant only looks at the endpoint's own slot object.\<close>

lemma endpoint_inv_mono:
  assumes "endpoint_inv limit heap perms st" and "limit \<le> limit'"
    and "\<And>p. es_probe_slots st = Some p \<Longrightarrow> p < length heap' \<and> heap' ! p = heap ! p"
  shows "endpoint_inv limit' heap' perms st"
proof (cases "es_breaker st")
  case None
  with assms show ?thesis by (auto simp: endpoint_inv_def)
next
  case (Some b)
  from assms(1) Some obtain g n where gn: "g \<noteq> 0" "n \<le> limit" "cb_generation b = advance_generations n g"
    "\<And>q. es_probe_slots st = Some q \<Longrightarrow> \<exists>k \<le> n. ps_generation (heap ! q) = advance_generations k g"
    "\<forall>a \<in> perms. \<exists>k \<le> n. ap_generation a = advance_generations k g"
    and rest: "breaker_inv b" "cb_state b = kHalfOpen \<Longrightarrow> \<exists>q. es_probe_slots st = Some q \<and> slots_match (heap ! q) b"
    and issued: "\<And>q. es_probe_slots st = Some q \<Longrightarrow> permits_issued (heap ! q) perms"
    by (auto simp: endpoint_inv_def)
  have "\<exists>g n. g \<noteq> 0 \<and> n \<le> limit' \<and> cb_generation b = advance_generations n g
      \<and> (\<forall>q. es_probe_slots st = Some q \<longrightarrow> (\<exists>k \<le> n. ps_generation (heap' ! q) = advance_generations k g))
      \<and> (\<forall>a \<in> perms. \<exists>k \<le> n. ap_generation a = advance_generations k g)"
  proof (intro exI conjI)
    show "n \<le> limit'" using gn(2) assms(2) by simp
    show "\<forall>q. es_probe_slots st = Some q \<longrightarrow> (\<exists>k \<le> n. ps_generation (heap' ! q) = advance_generations k g)"
      using gn(4) assms(3) by simp
  qed (use gn in simp_all)
  moreover have "\<exists>q. es_probe_slots st = Some q \<and> slots_match (heap' ! q) b" if h: "cb_state b = kHalfOpen"
    using rest(2) [OF h] assms(3) by auto
  moreover have "p < length heap' \<and> permits_issued (heap' ! p) perms" if "es_probe_slots st = Some p" for p
    using issued [OF that] assms(3) [OF that] by simp
  ultimately show ?thesis using Some rest(1) unfolding endpoint_inv_def by simp
qed

lemma endpoint_inv_slot: "endpoint_inv limit heap perms st \<Longrightarrow> es_probe_slots st = Some p \<Longrightarrow> p < length heap"
  by (simp add: endpoint_inv_def)

lemma coord_inv_endpoint:
  "coord_inv limit y \<Longrightarrow> has_endpoint (sys_state y) r e \<Longrightarrow>
   endpoint_inv limit (cs_heap (sys_state y)) (permits_for (sys_permits y) r e) (endpoint_at (sys_state y) r e)"
  by (simp add: coord_inv_def)

lemma coord_inv_later:
  "coord_inv limit y \<Longrightarrow> has_endpoint (sys_state y) r e \<Longrightarrow>
   endpoint_inv (Suc limit) (cs_heap (sys_state y)) (permits_for (sys_permits y) r e) (endpoint_at (sys_state y) r e)"
  by (rule endpoint_inv_mono [OF coord_inv_endpoint]) (auto dest: coord_inv_endpoint endpoint_inv_slot)

lemma coord_inv_own:
  assumes "coord_inv limit y"
  obtains own where
    "\<And>r e p. has_endpoint (sys_state y) r e \<Longrightarrow> es_probe_slots (endpoint_at (sys_state y) r e) = Some p \<Longrightarrow>
       own p = (r, e)"
    "\<And>snap r e p. snap \<in> sys_snaps y \<Longrightarrow> snap_slots snap r e = Some p \<Longrightarrow>
       own p = (r, e) \<and> p < length (cs_heap (sys_state y))"
proof -
  from assms obtain own where own:
    "\<forall>r e p. has_endpoint (sys_state y) r e \<longrightarrow> es_probe_slots (endpoint_at (sys_state y) r e) = Some p \<longrightarrow>
       own p = (r, e)"
    "\<forall>snap \<in> sys_snaps y. \<forall>r e p. snap_slots snap r e = Some p \<longrightarrow>
       own p = (r, e) \<and> p < length (cs_heap (sys_state y))"
    unfolding coord_inv_def by blast
  show ?thesis by (rule that [of own]) (use own in blast)+
qed

text \<open>One endpoint gets a new state, with the heap and the permits unchanged.\<close>

lemma coord_inv_set:
  assumes inv: "coord_inv limit y" and "has_endpoint (sys_state y) r e"
    and slots: "es_probe_slots st = es_probe_slots (endpoint_at (sys_state y) r e)"
    and st: "endpoint_inv limit' (cs_heap (sys_state y)) (permits_for (sys_permits y) r e) st" and le: "limit \<le> limit'"
  shows "coord_inv limit' (y\<lparr>sys_state := set_endpoint (sys_state y) r e st\<rparr>)"
proof -
  let ?s = "set_endpoint (sys_state y) r e st"
  have "endpoint_inv limit' (cs_heap ?s) (permits_for (sys_permits y) r' e') (endpoint_at ?s r' e')"
    if "has_endpoint (sys_state y) r' e'" for r' e'
    using that st endpoint_inv_mono [OF coord_inv_endpoint [OF inv that] le] endpoint_inv_slot [OF coord_inv_endpoint [OF inv that]]
    by (auto simp: endpoint_at_set)
  moreover have "es_probe_slots (endpoint_at ?s r' e') = es_probe_slots (endpoint_at (sys_state y) r' e')"
    if "has_endpoint (sys_state y) r' e'" for r' e'
    using that slots by (auto simp: endpoint_at_set)
  ultimately show ?thesis using inv unfolding coord_inv_def by simp
qed

text \<open>One endpoint gets a fresh slot object.\<close>

lemma coord_inv_new_slots:
  assumes inv: "coord_inv limit y" and has: "has_endpoint (sys_state y) r e"
    and slots: "es_probe_slots st = Some (length (cs_heap (sys_state y)))" "slots_ok p"
    and st: "endpoint_inv limit' (cs_heap (sys_state y) @ [p]) (permits_for (sys_permits y) r e) st" and le: "limit \<le> limit'"
  shows "coord_inv limit' (y\<lparr>sys_state :=
    set_endpoint ((sys_state y)\<lparr>cs_heap := cs_heap (sys_state y) @ [p]\<rparr>) r e st\<rparr>)"
proof -
  let ?s = "sys_state y"
  define s' where "s' = set_endpoint (?s\<lparr>cs_heap := cs_heap ?s @ [p]\<rparr>) r e st"
  have has': "has_endpoint s' r' e' = has_endpoint ?s r' e'" for r' e' by (simp add: s'_def)
  have at: "endpoint_at s' r' e' = (if r = r' \<and> e = e' then st else endpoint_at ?s r' e')" if "has_endpoint ?s r' e'" for r' e'
    using that by (simp add: s'_def endpoint_at_set)
  have 1: "endpoint_inv limit' (cs_heap s') (permits_for (sys_permits y) r' e') (endpoint_at s' r' e')" if h: "has_endpoint ?s r' e'" for r' e'
  proof (cases "r = r' \<and> e = e'")
    case True
    with st at [OF h] show ?thesis by (simp add: s'_def)
  next
    case False
    have "endpoint_inv limit' (cs_heap s') (permits_for (sys_permits y) r' e') (endpoint_at ?s r' e')"
      by (rule endpoint_inv_mono [OF coord_inv_endpoint [OF inv h] le])
        (use endpoint_inv_slot [OF coord_inv_endpoint [OF inv h]] in \<open>auto simp: s'_def nth_append\<close>)
    with False at [OF h] show ?thesis by auto
  qed
  have 2: "list_all slots_ok (cs_heap s')" using inv slots(2) by (simp add: coord_inv_def s'_def)
  from coord_inv_own [OF inv] obtain own where own:
      "\<And>r e p. has_endpoint ?s r e \<Longrightarrow> es_probe_slots (endpoint_at ?s r e) = Some p \<Longrightarrow> own p = (r, e)"
      "\<And>snap r e p. snap \<in> sys_snaps y \<Longrightarrow> snap_slots snap r e = Some p \<Longrightarrow> own p = (r, e) \<and> p < length (cs_heap ?s)"
    by blast
  let ?own = "own(length (cs_heap ?s) := (r, e))"
  have 3: "?own p = (r', e')"
    if "has_endpoint ?s r' e'" "es_probe_slots (endpoint_at s' r' e') = Some p" for r' e' p
    using that own(1) [OF that(1)] at [OF that(1)] endpoint_inv_slot [OF coord_inv_endpoint [OF inv that(1)]] slots(1)
    by (auto split: if_splits)
  have 4: "?own p = (r', e') \<and> p < length (cs_heap s')"
    if "snap \<in> sys_snaps y" "snap_slots snap r' e' = Some p" for snap r' e' p
    using own(2) [OF that] by (auto simp: s'_def)
  show ?thesis unfolding s'_def [symmetric] coord_inv_def using 1 2 3 4 has' by (auto intro!: exI [of _ ?own])
qed

subsection \<open>The steps keep the invariant\<close>

lemma endpoint_inv_health [simp]:
  "endpoint_inv limit heap perms (st\<lparr>es_health := h\<rparr>) = endpoint_inv limit heap perms st"
  by (cases "es_breaker st") (simp_all add: endpoint_inv_def)

lemma unchanged_inv: "coord_inv limit y \<Longrightarrow> coord_inv (Suc limit) y"
  using coord_inv_later unfolding coord_inv_def by simp

lemma health_inv:
  assumes "coord_inv limit y"
  shows "coord_inv (Suc limit) (y\<lparr>sys_state := RecordHealth (sys_state y) r e ok\<rparr>)"
proof (cases "has_endpoint (sys_state y) r e")
  case True
  let ?st = "(endpoint_at (sys_state y) r e)\<lparr>es_health := EndpointHealth_RecordCheckResult ok\<rparr>"
  have "endpoint_inv (Suc limit) (cs_heap (sys_state y)) (permits_for (sys_permits y) r e) ?st"
    using coord_inv_later [OF assms True] by simp
  with True assms show ?thesis by (simp add: RecordHealth_def coord_inv_set)
next
  case False
  then show ?thesis using unchanged_inv [OF assms] by (simp add: RecordHealth_def)
qed

text \<open>What an outcome can do to the probes: nothing, consume one, or leave the cycle.\<close>

lemma record_effect:
  assumes "b' = RecordSuccess b now permit \<or> b' = RecordFailure b now permit"
  shows "(cb_generation b' = cb_generation b
      \<and> (cb_state b' = kHalfOpen \<longrightarrow> cb_state b = kHalfOpen
           \<and> (cb_pending_probes b' = cb_pending_probes b
              \<or> pm_generation permit = cb_generation b \<and> pm_selection permit = kProbe
                \<and> cb_pending_probes b' = remove1 (pm_probe_id permit) (cb_pending_probes b))))
    \<or> cb_generation b' = next_generation (cb_generation b) \<and> cb_state b' \<noteq> kHalfOpen"
  using assms
  by (auto simp: RecordSuccess_def RecordFailure_def Evaluate_def Open_def Close_def AdvanceGeneration_def
      CountSuccess_def CountFailure_def ConsumeProbe_def Let_def split: breaker_state.splits if_splits)

lemma unclaimed_kept:
  assumes "slots_match p b" and "i < unat (ps_issued p)" and "ps_quota p \<le> u32_max"
    and "distinct (cb_pending_probes b)"
    and "cb_generation b' = cb_generation b"
    and "cb_pending_probes b' = remove1 (ps_probe_base p + of_nat i) (cb_pending_probes b)"
  shows "slots_match p b'"
proof -
  have "ps_probe_base p + of_nat j \<noteq> ps_probe_base p + of_nat i"
    if "unat (ps_issued p) \<le> j" "j < ps_quota p" for j
  proof -
    have "i < 2 ^ 64" "j < 2 ^ 64" "i \<noteq> j" using that assms(2,3) by auto
    then have "(of_nat j :: u64) \<noteq> of_nat i" by (simp add: word_of_nat_eq_iff take_bit_nat_eq_self)
    then show ?thesis by simp
  qed
  with assms show ?thesis by (auto simp: slots_match_def)
qed

lemma advance_generations_Suc: "advance_generations (Suc n) g = next_generation (advance_generations n g)"
  by (simp add: advance_generations_def)

lemma result_endpoint_inv:
  assumes inv: "endpoint_inv limit heap perms st" and ok: "list_all slots_ok heap"
    and b: "es_breaker st = Some b"
    and b': "b' = RecordSuccess b now (permit_for a) \<or> b' = RecordFailure b now (permit_for a)"
    and perm: "ap_probe a \<Longrightarrow> a \<in> perms"
  shows "endpoint_inv (Suc limit) heap perms (st\<lparr>es_breaker := Some b'\<rparr>)"
proof -
  from inv b obtain g n where gn: "g \<noteq> 0" "n \<le> limit" "cb_generation b = advance_generations n g"
      "\<forall>q. es_probe_slots st = Some q \<longrightarrow> (\<exists>k \<le> n. ps_generation (heap ! q) = advance_generations k g)"
      "\<forall>a \<in> perms. \<exists>k \<le> n. ap_generation a = advance_generations k g"
    and binv: "breaker_inv b" and half: "cb_state b = kHalfOpen \<longrightarrow>
      (\<exists>q. es_probe_slots st = Some q \<and> slots_match (heap ! q) b)"
    and lt: "\<forall>p. es_probe_slots st = Some p \<longrightarrow> p < length heap \<and> permits_issued (heap ! p) perms"
    by (auto simp: endpoint_inv_def)
  have binv': "breaker_inv b'" using b' binv RecordSuccess_inv RecordFailure_inv by auto
  show ?thesis
  proof (cases "cb_generation b' = next_generation (cb_generation b) \<and> cb_state b' \<noteq> kHalfOpen")
    case True
    have "\<exists>g n. g \<noteq> 0 \<and> n \<le> Suc limit \<and> cb_generation b' = advance_generations n g
      \<and> (\<forall>q. es_probe_slots st = Some q \<longrightarrow> (\<exists>k \<le> n. ps_generation (heap ! q) = advance_generations k g))
      \<and> (\<forall>a \<in> perms. \<exists>k \<le> n. ap_generation a = advance_generations k g)"
    proof (intro exI [of _ g] exI [of _ "Suc n"] conjI)
      show "\<forall>q. es_probe_slots st = Some q \<longrightarrow> (\<exists>k \<le> Suc n. ps_generation (heap ! q) = advance_generations k g)"
        using gn(4) by (meson le_SucI)
      show "\<forall>a \<in> perms. \<exists>k \<le> Suc n. ap_generation a = advance_generations k g"
        using gn(5) by (meson le_SucI)
    qed (use True gn in \<open>simp_all add: advance_generations_Suc\<close>)
    with True binv' lt show ?thesis by (simp add: endpoint_inv_def)
  next
    case False
    with record_effect [OF b'] have same: "cb_generation b' = cb_generation b"
      and eff: "cb_state b' = kHalfOpen \<Longrightarrow> cb_state b = kHalfOpen
           \<and> (cb_pending_probes b' = cb_pending_probes b
              \<or> ap_generation a = cb_generation b \<and> ap_probe a
                \<and> cb_pending_probes b' = remove1 (ap_probe_id a) (cb_pending_probes b))"
      by (auto simp: permit_for_def split: if_splits)
    have "\<exists>q. es_probe_slots st = Some q \<and> slots_match (heap ! q) b'" if h: "cb_state b' = kHalfOpen"
    proof -
      from eff [OF h] half obtain q where q: "es_probe_slots st = Some q" "slots_match (heap ! q) b"
        by blast
      have quota: "ps_quota (heap ! q) \<le> u32_max" using ok lt q(1) by (auto simp: list_all_length slots_ok_def)
      have dist: "distinct (cb_pending_probes b)"
        using binv eff [OF h] by (auto simp: breaker_inv_def probes_ok_def)
      have "slots_match (heap ! q) b'"
        using eff [OF h]
      proof (elim conjE disjE)
        assume "cb_pending_probes b' = cb_pending_probes b"
        with q(2) same show ?thesis by (simp add: slots_match_def)
      next
        assume c: "ap_generation a = cb_generation b" "ap_probe a"
          "cb_pending_probes b' = remove1 (ap_probe_id a) (cb_pending_probes b)"
        then obtain i where "i < unat (ps_issued (heap ! q))" "ap_probe_id a = ps_probe_base (heap ! q) + of_nat i"
          using q perm lt by (auto simp: permits_issued_def slots_match_def)
        with c unclaimed_kept [OF q(2) _ quota dist same] show ?thesis by simp
      qed
      with q show ?thesis by simp
    qed
    moreover have "\<exists>g n. g \<noteq> 0 \<and> n \<le> Suc limit \<and> cb_generation b' = advance_generations n g
      \<and> (\<forall>q. es_probe_slots st = Some q \<longrightarrow> (\<exists>k \<le> n. ps_generation (heap ! q) = advance_generations k g))
      \<and> (\<forall>a \<in> perms. \<exists>k \<le> n. ap_generation a = advance_generations k g)"
      using same gn by (intro exI [of _ g] exI [of _ n]) auto
    ultimately show ?thesis using binv' lt by (simp add: endpoint_inv_def)
  qed
qed

lemma result_inv:
  assumes inv: "coord_inv limit y"
    and perm: "\<not> ap_probe (ar_permit res)
      \<or> (ar_route_index res, ar_endpoint_index res, ar_permit res) \<in> set (sys_permits y)"
  shows "coord_inv (Suc limit) (y\<lparr>sys_state := RecordResult (sys_state y) res now\<rparr>)"
proof (cases "has_endpoint (sys_state y) (ar_route_index res) (ar_endpoint_index res)
    \<and> es_breaker (endpoint_at (sys_state y) (ar_route_index res) (ar_endpoint_index res)) \<noteq> None")
  case False
  then have "RecordResult (sys_state y) res now = sys_state y" by (auto simp: RecordResult_def Let_def)
  with unchanged_inv [OF inv] show ?thesis by simp
next
  case True
  let ?r = "ar_route_index res" and ?e = "ar_endpoint_index res"
  let ?st = "endpoint_at (sys_state y) ?r ?e"
  from True obtain b where b: "es_breaker ?st = Some b" and has: "has_endpoint (sys_state y) ?r ?e" by blast
  define b' where "b' = (if ar_success res then RecordSuccess b now (permit_for (ar_permit res))
    else RecordFailure b now (permit_for (ar_permit res)))"
  have "endpoint_inv (Suc limit) (cs_heap (sys_state y)) (permits_for (sys_permits y) ?r ?e) (?st\<lparr>es_breaker := Some b'\<rparr>)"
    by (rule result_endpoint_inv [OF coord_inv_endpoint [OF inv has] _ b, of _ now "ar_permit res"])
      (use inv perm in \<open>auto simp: coord_inv_def b'_def permits_for_def\<close>)
  with coord_inv_set [OF inv has] show ?thesis
    by (simp add: RecordResult_def has b Let_def b'_def)
qed

text \<open>A fresh cycle: no permit handed out so far carries its generation.\<close>

lemma arm_endpoint_inv:
  assumes inv: "endpoint_inv limit heap perms st" and small: "Suc limit < 2 ^ 64 - 1"
    and b: "es_breaker st = Some b" and c: "BeginFreshHalfOpenCycle b = (c, b')"
  shows "endpoint_inv (Suc limit) (heap @ [new_slots c]) perms
    (st\<lparr>es_breaker := Some b', es_probe_slots := Some (length heap)\<rparr>)"
proof -
  from inv b obtain g n where gn: "g \<noteq> 0" "n \<le> limit" "cb_generation b = advance_generations n g"
      "\<forall>a \<in> perms. \<exists>k \<le> n. ap_generation a = advance_generations k g"
    and binv: "breaker_inv b" by (auto simp: endpoint_inv_def)
  have binv': "breaker_inv b'"
    using BeginFresh_inv [of b] binv c by (simp add: breaker_inv_def)
  from c have gen: "cb_generation b' = advance_generations (Suc n) g"
      "ps_generation (new_slots c) = advance_generations (Suc n) g"
    by (auto simp: BeginFresh_eq gn(3) advance_generations_Suc new_slots_def)
  have fresh: "ap_generation a \<noteq> cb_generation b'" if "a \<in> perms" for a
  proof -
    from gn(4) that obtain k where k: "k \<le> n" "ap_generation a = advance_generations k g" by blast
    then have "k < Suc n" "Suc n - k < 2 ^ 64 - 1" using gn(2) small by simp_all
    from advance_generations_inj [OF gn(1) this] k gen(1) show ?thesis by simp
  qed
  then have "permits_issued (new_slots c) perms" using gen by (auto simp: permits_issued_def)
  moreover have "slots_match (new_slots c) b'"
    using c by (auto simp: BeginFresh_eq slots_match_def new_slots_def)
  moreover have "\<exists>g n. g \<noteq> 0 \<and> n \<le> Suc limit \<and> cb_generation b' = advance_generations n g
      \<and> (\<exists>k \<le> n. ps_generation (new_slots c) = advance_generations k g)
      \<and> (\<forall>a \<in> perms. \<exists>k \<le> n. ap_generation a = advance_generations k g)"
  proof (intro exI [of _ g] exI [of _ "Suc n"] conjI)
    show "\<forall>a \<in> perms. \<exists>k \<le> Suc n. ap_generation a = advance_generations k g"
      using gn(4) by (meson le_SucI)
  qed (use gn gen in simp_all)
  ultimately show ?thesis using binv' by (simp add: endpoint_inv_def)
qed

lemma arm_inv:
  assumes inv: "coord_inv limit y" and small: "Suc limit < 2 ^ 64 - 1"
  shows "coord_inv (Suc limit) (y\<lparr>sys_state := ArmHalfOpen (sys_state y) r e now\<rparr>)"
proof (cases "ArmHalfOpen (sys_state y) r e now = sys_state y")
  case True
  with unchanged_inv [OF inv] show ?thesis by simp
next
  case False
  let ?s = "sys_state y" and ?st = "endpoint_at (sys_state y) r e"
  from False obtain b where b: "es_breaker ?st = Some b" and has: "has_endpoint ?s r e"
    and guards: "cb_state b = kOpen" "\<not> now < cb_open_until b"
    by (auto simp: ArmHalfOpen_def Let_def split: if_splits option.splits)
  obtain c b' where c: "BeginFreshHalfOpenCycle b = (c, b')" by fastforce
  have "hc_quota c \<le> u32_max"
    using coord_inv_endpoint [OF inv has] b c by (auto simp: endpoint_inv_def breaker_inv_def BeginFresh_eq)
  then have "slots_ok (new_slots c)" by (simp add: slots_ok_def new_slots_def)
  from coord_inv_new_slots [OF inv has _ this arm_endpoint_inv [OF coord_inv_endpoint [OF inv has] small b c]]
  show ?thesis using b has guards c by (simp add: ArmHalfOpen_def Let_def)
qed

lemma publish_inv:
  assumes inv: "coord_inv limit y" and b: "BuildSnapshot (sys_state y) = (snap, s')"
  shows "coord_inv (Suc limit) (y\<lparr>sys_state := s', sys_snaps := insert snap (sys_snaps y)\<rparr>)"
proof -
  let ?s = "sys_state y"
  from b have s': "s' = ?s\<lparr>cs_version := cs_version ?s + 1\<rparr>"
    and snap: "hs_endpoints snap = map (map (decision_of s')) (cs_endpoints ?s)"
    by (auto simp: BuildSnapshot_def Let_def)
  have slots: "has_endpoint ?s r e \<and> es_probe_slots (endpoint_at ?s r e) = Some p"
    if "snap_slots snap r e = Some p" for r e p
    using that by (auto simp: snap_slots_def snap has_endpoint_def endpoint_at_def decision_of_def
        split: if_splits option.splits)
  from coord_inv_own [OF inv] obtain own where own:
      "\<And>r e p. has_endpoint ?s r e \<Longrightarrow> es_probe_slots (endpoint_at ?s r e) = Some p \<Longrightarrow> own p = (r, e)"
      "\<And>snap r e p. snap \<in> sys_snaps y \<Longrightarrow> snap_slots snap r e = Some p \<Longrightarrow> own p = (r, e) \<and> p < length (cs_heap ?s)"
    by blast
  have "own p = (r, e) \<and> p < length (cs_heap ?s)"
    if "sn = snap \<or> sn \<in> sys_snaps y" "snap_slots sn r e = Some p" for sn r e p
    using that slots [of r e p] own(1) [of r e p] own(2) [of sn r e p]
      coord_inv_endpoint [OF inv, THEN endpoint_inv_slot, of r e p] by auto
  with own(1) have "\<exists>own.
      (\<forall>r e p. has_endpoint ?s r e \<longrightarrow> es_probe_slots (endpoint_at ?s r e) = Some p \<longrightarrow> own p = (r, e))
      \<and> (\<forall>sn. sn = snap \<or> sn \<in> sys_snaps y \<longrightarrow> (\<forall>r e p. snap_slots sn r e = Some p \<longrightarrow>
               own p = (r, e) \<and> p < length (cs_heap ?s)))"
    by (intro exI [of _ own]) simp
  then show ?thesis using unchanged_inv [OF inv] unfolding coord_inv_def Ball_def by (simp add: s')
qed

text \<open>The one slot object a claim touches belongs to the claiming endpoint.\<close>

definition claimed :: "probe_slot_state \<Rightarrow> probe_slot_state" where
  "claimed p = p\<lparr>ps_remaining := ps_remaining p - 1, ps_issued := ps_issued p + 1\<rparr>"

lemma claimed_ok:
  assumes "slots_ok p" and "0 < ps_remaining p"
  shows "slots_ok (claimed p)" and "unat (ps_issued p + 1) = Suc (unat (ps_issued p))"
    and "unat (ps_issued p) < ps_quota p"
proof -
  show lt: "unat (ps_issued p) < ps_quota p" using assms by (simp add: slots_ok_def)
  then have "Suc (unat (ps_issued p)) < 2 ^ 64" using assms(1) by (simp add: slots_ok_def)
  then show s: "unat (ps_issued p + 1) = Suc (unat (ps_issued p))" by (simp add: unat_word_ariths)
  show "slots_ok (claimed p)" using assms lt by (simp add: slots_ok_def claimed_def s)
qed

lemma claim_slots:
  assumes "ClaimProbe s r e snap = (result, s')" and "s' \<noteq> s \<or> result \<noteq> None"
  obtains q where "snap_slots snap r e = Some q" "0 < ps_remaining (cs_heap s ! q)"
    "s' = s\<lparr>cs_heap := (cs_heap s)[q := claimed (cs_heap s ! q)]\<rparr>"
    "result = (if has_endpoint s r e \<and> es_probe_slots (endpoint_at s r e) = Some q
       then Some \<lparr>ap_probe = True, ap_generation = ps_generation (cs_heap s ! q),
         ap_probe_id = ps_probe_base (cs_heap s ! q) + ps_issued (cs_heap s ! q)\<rparr> else None)"
proof -
  from assms obtain q where q: "snap_slots snap r e = Some q" "0 < ps_remaining (cs_heap s ! q)"
    by (auto simp: ClaimProbe_def snap_slots_def Let_def split: if_splits option.splits)
  show ?thesis
    by (rule that [OF q]) (use assms q in \<open>auto simp: ClaimProbe_def snap_slots_def claimed_def Let_def
      split: if_splits option.splits\<close>)
qed

lemma claim_success:
  assumes "ClaimProbe s r e snap = (Some a, s')"
  obtains q where "snap_slots snap r e = Some q" "0 < ps_remaining (cs_heap s ! q)"
    "s' = s\<lparr>cs_heap := (cs_heap s)[q := claimed (cs_heap s ! q)]\<rparr>"
    "has_endpoint s r e" "es_probe_slots (endpoint_at s r e) = Some q"
    "ap_probe a" "ap_generation a = ps_generation (cs_heap s ! q)"
    "ap_probe_id a = ps_probe_base (cs_heap s ! q) + ps_issued (cs_heap s ! q)"
proof (rule claim_slots [OF assms])
  fix q
  assume q: "snap_slots snap r e = Some q" "0 < ps_remaining (cs_heap s ! q)"
    "s' = s\<lparr>cs_heap := (cs_heap s)[q := claimed (cs_heap s ! q)]\<rparr>"
    "Some a = (if has_endpoint s r e \<and> es_probe_slots (endpoint_at s r e) = Some q
       then Some \<lparr>ap_probe = True, ap_generation = ps_generation (cs_heap s ! q),
         ap_probe_id = ps_probe_base (cs_heap s ! q) + ps_issued (cs_heap s ! q)\<rparr> else None)"
  show thesis by (rule that [OF q(1-3)]) (use q(4) in \<open>auto split: if_splits\<close>)
qed simp

lemma claim_endpoint_inv:
  assumes inv: "endpoint_inv limit heap perms st" and ok: "list_all slots_ok heap"
    and q: "es_probe_slots st = Some q" "0 < ps_remaining (heap ! q)"
    and a: "ap_generation a = ps_generation (heap ! q)" "ap_probe_id a = ps_probe_base (heap ! q) + ps_issued (heap ! q)"
  shows "endpoint_inv limit (heap[q := claimed (heap ! q)]) (insert a perms) st"
proof -
  from inv q(1) obtain b where b: "es_breaker st = Some b" by (auto simp: endpoint_inv_def split: option.splits)
  from inv q b obtain g n where gn: "g \<noteq> 0" "n \<le> limit" "cb_generation b = advance_generations n g"
      "\<exists>k \<le> n. ps_generation (heap ! q) = advance_generations k g"
      "\<forall>a \<in> perms. \<exists>k \<le> n. ap_generation a = advance_generations k g"
    and binv: "breaker_inv b" and lt: "q < length heap" and issued: "permits_issued (heap ! q) perms"
    and half: "cb_state b = kHalfOpen \<longrightarrow> slots_match (heap ! q) b"
    by (auto simp: endpoint_inv_def)
  have okq: "slots_ok (heap ! q)" using ok lt by (simp add: list_all_length)
  note cl = claimed_ok [OF okq q(2)]
  have "slots_match (claimed (heap ! q)) b" if "slots_match (heap ! q) b"
    using that cl(2) by (auto simp: slots_match_def claimed_def)
  moreover have "permits_issued (claimed (heap ! q)) (insert a perms)"
    unfolding permits_issued_def
  proof (intro ballI impI)
    fix x assume x: "x \<in> insert a perms" "ap_generation x = ps_generation (claimed (heap ! q))"
    have "\<exists>i < Suc (unat (ps_issued (heap ! q))). ap_probe_id x = ps_probe_base (heap ! q) + of_nat i"
    proof (cases "x = a")
      case True
      with a(2) show ?thesis by (intro exI [of _ "unat (ps_issued (heap ! q))"]) simp
    next
      case False
      with x issued obtain i where "i < unat (ps_issued (heap ! q))"
        "ap_probe_id x = ps_probe_base (heap ! q) + of_nat i"
        by (auto simp: permits_issued_def claimed_def)
      then show ?thesis by (intro exI [of _ i]) simp
    qed
    then show "\<exists>i < unat (ps_issued (claimed (heap ! q))).
        ap_probe_id x = ps_probe_base (claimed (heap ! q)) + of_nat i"
      using cl(2) by (simp add: claimed_def)
  qed
  moreover have "\<exists>g n. g \<noteq> 0 \<and> n \<le> limit \<and> cb_generation b = advance_generations n g
      \<and> (\<exists>k \<le> n. ps_generation (claimed (heap ! q)) = advance_generations k g)
      \<and> (\<forall>a \<in> insert a perms. \<exists>k \<le> n. ap_generation a = advance_generations k g)"
    using gn a(1) by (intro exI [of _ g] exI [of _ n]) (simp add: claimed_def)
  ultimately show ?thesis using b q lt half binv by (simp add: endpoint_inv_def)
qed

text \<open>A claim changes one slot object, which no other endpoint refers to.\<close>

lemma claim_others:
  assumes inv: "coord_inv limit y" and snap: "snap \<in> sys_snaps y" "snap_slots snap r e = Some q"
    and has: "has_endpoint (sys_state y) r' e'"
    and ne: "es_probe_slots (endpoint_at (sys_state y) r' e') \<noteq> Some q"
  shows "endpoint_inv (Suc limit) ((cs_heap (sys_state y))[q := x]) (permits_for (sys_permits y) r' e')
    (endpoint_at (sys_state y) r' e')"
  by (rule endpoint_inv_mono [OF coord_inv_endpoint [OF inv has]])
    (use ne endpoint_inv_slot [OF coord_inv_endpoint [OF inv has]] in auto)

lemma claim_heap_ok:
  assumes inv: "coord_inv limit y" and snap: "snap \<in> sys_snaps y" "snap_slots snap r e = Some q"
    and pos: "0 < ps_remaining (cs_heap (sys_state y) ! q)"
  shows "list_all slots_ok ((cs_heap (sys_state y))[q := claimed (cs_heap (sys_state y) ! q)])"
proof -
  from coord_inv_own [OF inv] snap have "q < length (cs_heap (sys_state y))" by metis
  moreover have ok: "list_all slots_ok (cs_heap (sys_state y))" using inv by (simp add: coord_inv_def)
  ultimately show ?thesis
    using claimed_ok(1) [OF _ pos] by (simp add: list_all_length nth_list_update)
qed

lemma claim_inv:
  assumes inv: "coord_inv limit y" and snap: "snap \<in> sys_snaps y"
    and claim: "ClaimProbe (sys_state y) r e snap = (Some a, s')"
  shows "coord_inv (Suc limit) (y\<lparr>sys_state := s', sys_permits := (r, e, a) # sys_permits y\<rparr>)"
proof -
  let ?s = "sys_state y"
  obtain q where q: "snap_slots snap r e = Some q" "0 < ps_remaining (cs_heap ?s ! q)"
      "s' = ?s\<lparr>cs_heap := (cs_heap ?s)[q := claimed (cs_heap ?s ! q)]\<rparr>"
    and has: "has_endpoint ?s r e" "es_probe_slots (endpoint_at ?s r e) = Some q"
    and a: "ap_generation a = ps_generation (cs_heap ?s ! q)"
      "ap_probe_id a = ps_probe_base (cs_heap ?s ! q) + ps_issued (cs_heap ?s ! q)"
    using claim_success [OF claim] by blast
  from coord_inv_own [OF inv] obtain own where own:
      "\<And>r e p. has_endpoint ?s r e \<Longrightarrow> es_probe_slots (endpoint_at ?s r e) = Some p \<Longrightarrow> own p = (r, e)"
      "\<And>snap r e p. snap \<in> sys_snaps y \<Longrightarrow> snap_slots snap r e = Some p \<Longrightarrow> own p = (r, e) \<and> p < length (cs_heap ?s)"
    by blast
  have "endpoint_inv (Suc limit) ((cs_heap ?s)[q := claimed (cs_heap ?s ! q)])
      (permits_for ((r, e, a) # sys_permits y) r' e') (endpoint_at ?s r' e')"
    if h: "has_endpoint ?s r' e'" for r' e'
  proof (cases "r' = r \<and> e' = e")
    case True
    have "permits_for ((r, e, a) # sys_permits y) r e = insert a (permits_for (sys_permits y) r e)"
      by (auto simp: permits_for_def)
    with claim_endpoint_inv [OF coord_inv_later [OF inv has(1)] _ has(2) q(2) a] inv True show ?thesis
      by (simp add: coord_inv_def)
  next
    case False
    then have "permits_for ((r, e, a) # sys_permits y) r' e' = permits_for (sys_permits y) r' e'"
      by (auto simp: permits_for_def)
    moreover have "es_probe_slots (endpoint_at ?s r' e') \<noteq> Some q"
      using False own(1) [OF h] own(1) [OF has] by auto
    ultimately show ?thesis using claim_others [OF inv snap q(1) h] by simp
  qed
  with claim_heap_ok [OF inv snap q(1,2)] inv show ?thesis by (simp add: coord_inv_def q(3))
qed

lemma claim_refused_inv:
  assumes inv: "coord_inv limit y" and snap: "snap \<in> sys_snaps y"
    and claim: "ClaimProbe (sys_state y) r e snap = (None, s')"
  shows "coord_inv (Suc limit) (y\<lparr>sys_state := s'\<rparr>)"
proof (cases "s' = sys_state y")
  case True
  with unchanged_inv [OF inv] show ?thesis by simp
next
  case False
  let ?s = "sys_state y"
  from False have "s' \<noteq> ?s \<or> (None :: attempt_permit option) \<noteq> None" by simp
  from claim_slots [OF claim this] obtain q where q: "snap_slots snap r e = Some q" "0 < ps_remaining (cs_heap ?s ! q)"
      "s' = ?s\<lparr>cs_heap := (cs_heap ?s)[q := claimed (cs_heap ?s ! q)]\<rparr>"
    and stale: "has_endpoint ?s r e \<Longrightarrow> es_probe_slots (endpoint_at ?s r e) \<noteq> Some q"
    by (metis option.distinct(1))
  from coord_inv_own [OF inv] obtain own where own:
      "\<And>r e p. has_endpoint ?s r e \<Longrightarrow> es_probe_slots (endpoint_at ?s r e) = Some p \<Longrightarrow> own p = (r, e)"
      "\<And>snap r e p. snap \<in> sys_snaps y \<Longrightarrow> snap_slots snap r e = Some p \<Longrightarrow> own p = (r, e) \<and> p < length (cs_heap ?s)"
    by blast
  have "es_probe_slots (endpoint_at ?s r' e') \<noteq> Some q" if "has_endpoint ?s r' e'" for r' e'
    using stale that own(1) [OF that, of q] own(2) [OF snap q(1)] by auto
  then have "endpoint_inv (Suc limit) ((cs_heap ?s)[q := claimed (cs_heap ?s ! q)])
      (permits_for (sys_permits y) r' e') (endpoint_at ?s r' e')" if "has_endpoint ?s r' e'" for r' e'
    using that claim_others [OF inv snap q(1) that] by blast
  with claim_heap_ok [OF inv snap q(1,2)] inv show ?thesis by (simp add: coord_inv_def q(3))
qed

lemma coord_step_inv:
  assumes "coord_step y y'" and "coord_inv limit y" and "Suc limit < 2 ^ 64 - 1"
  shows "coord_inv (Suc limit) y'"
  using assms
  by (cases rule: coord_step.cases)
    (simp_all add: health_inv result_inv arm_inv publish_inv claim_inv claim_refused_inv)

lemma CircuitBreaker_new_closed: "CircuitBreaker_new c now = Inr b \<Longrightarrow> cb_state b = kClosed"
  by (auto simp: CircuitBreaker_new_def split: if_splits)

lemma new_endpoint_inv:
  assumes c: "config_valid c" and new: "CoordinatorState_new c now = Inr s" and has: "has_endpoint s r e"
  shows "es_probe_slots (endpoint_at s r e) = None \<and>
    (case es_breaker (endpoint_at s r e) of None \<Rightarrow> True | Some b \<Rightarrow> breaker_inv b \<and> cb_state b = kClosed)"
proof -
  from new have eps: "res_map (\<lambda>r. route_states r now) (cfg_routes c) = Inr (cs_endpoints s)"
    by (auto simp: CoordinatorState_new_def)
  from has have r: "r < length (cs_endpoints s)" and e: "e < length (cs_endpoints s ! r)"
    by (auto simp: has_endpoint_def)
  let ?r = "cfg_routes c ! r"
  have sts: "route_states ?r now = Inr (cs_endpoints s ! r)" and rl: "r < length (cfg_routes c)"
    using r list_all2_nthD2 [OF res_map_Inr [OF eps] r] list_all2_lengthD [OF res_map_Inr [OF eps]] by auto
  from c rl have "route_valid ?r" by (simp add: config_valid_def list_all_length)
  then have quota: "half_open_probes b \<le> u32_max" if "rt_circuit_breaker ?r = Some b" for b
    using that by (auto simp: route_valid_def breaker_settings_valid_def u32_positive_def)
  note st = list_all2_nthD2 [OF res_map_Inr [OF sts [unfolded route_states_def]] e]
  show ?thesis
  proof (cases "rt_circuit_breaker ?r")
    case None
    with st have "cs_endpoints s ! r ! e = \<lparr>es_health = kImplicitHealthy, es_breaker = None, es_probe_slots = None\<rparr>"
      by simp
    then show ?thesis by (simp add: endpoint_at_def)
  next
    case (Some b)
    with st obtain x where x: "CircuitBreaker_new (breaker_config_of b) now = Inr x"
      "cs_endpoints s ! r ! e = \<lparr>es_health = kImplicitHealthy, es_breaker = Some x, es_probe_slots = None\<rparr>"
      by auto
    with CircuitBreaker_new_inv [OF x(1)] CircuitBreaker_new_closed [OF x(1)] quota [OF Some] show ?thesis
      by (simp add: endpoint_at_def breaker_config_of_def)
  qed
qed

lemma coord_system_init_inv:
  assumes "config_valid c" and "CoordinatorState_new c now = Inr s"
  shows "coord_inv 0 (coord_system_init s)"
proof -
  have "endpoint_inv 0 (cs_heap s) {} (endpoint_at s r e)" if "has_endpoint s r e" for r e
  proof (cases "es_breaker (endpoint_at s r e)")
    case None
    with new_endpoint_inv [OF assms that] show ?thesis by (simp add: endpoint_inv_def)
  next
    case (Some b)
    with new_endpoint_inv [OF assms that] assms(2)
    have b: "es_probe_slots (endpoint_at s r e) = None" "breaker_inv b" and half: "cb_state b = kClosed" by auto
    have "cb_generation b = advance_generations 0 (cb_generation b)" "cb_generation b \<noteq> 0"
      using b(2) by (simp_all add: advance_generations_def breaker_inv_def)
    with b half Some show ?thesis by (auto simp: endpoint_inv_def)
  qed
  with assms(2) new_endpoint_inv [OF assms] show ?thesis
    by (auto simp: coord_inv_def coord_system_init_def permits_for_def CoordinatorState_new_def)
qed

subsection \<open>A coordinator that imports the protection state of another\<close>

text \<open>
  A reload builds a coordinator state, imports what the previous coordinator exported, and only
  then lets workers use it.
\<close>

definition coordinator_start :: "config \<Rightarrow> coordinator_state \<Rightarrow> bool" where
  "coordinator_start c s \<longleftrightarrow>
     (\<exists>now s0. CoordinatorState_new c now = Inr s0
        \<and> (s = s0 \<or> (\<exists>source exported imported. config_valid (cs_config source)
             \<and> s = ImportProtectionSnapshot s0 (ExportProtectionSnapshot source exported) imported)))"

definition protection_key :: "endpoint_protection \<Rightarrow> route_identity \<times> endpoint_identity" where
  "protection_key p = (ep_route p, ep_endpoint p)"

definition endpoint_key :: "config \<Rightarrow> nat \<Rightarrow> nat \<Rightarrow> route_identity \<times> endpoint_identity" where
  "endpoint_key c r e = (RouteKey (cfg_routes c ! r), EndpointKey (rt_endpoints (cfg_routes c ! r) ! e))"

lemma identity_keys: "SameRouteIdentity k r \<longleftrightarrow> k = RouteKey r" "SameEndpointIdentity k' e \<longleftrightarrow> k' = EndpointKey e"
  by (cases k; auto simp: SameRouteIdentity_def RouteKey_def) (cases k'; auto simp: SameEndpointIdentity_def EndpointKey_def)

text \<open>An exported snapshot of a valid configuration names every endpoint once.\<close>

lemma exported_route_keys:
  "map protection_key (map2 (export_endpoint now r) es sts) = map (\<lambda>e. (RouteKey r, EndpointKey e)) (take (length sts) es)"
  by (induction es sts rule: list_induct2') (simp_all add: protection_key_def export_endpoint_def)

lemma RouteKey_inj: "distinct (map rt_name rs) \<Longrightarrow> distinct (map RouteKey rs)"
  by (auto simp: distinct_map RouteKey_def inj_on_def)

lemma EndpointKey_inj: "distinct (map (\<lambda>e. (ep_address e, ep_port e)) es) \<Longrightarrow> distinct (map EndpointKey es)"
  by (auto simp: distinct_map EndpointKey_def inj_on_def)

lemma exported_keys_distinct:
  assumes "distinct (map rt_name rs)" and "list_all route_valid rs"
  shows "distinct (map protection_key (concat (map2 (\<lambda>r sts. map2 (export_endpoint now r) (rt_endpoints r) sts) rs stss)))"
  using assms
proof (induction rs stss rule: list_induct2')
  case (4 r rs sts stss)
  have "distinct (map EndpointKey (rt_endpoints r))" using 4(3) by (auto simp: route_valid_def intro: EndpointKey_inj)
  then have "distinct (map (\<lambda>e. (RouteKey r, EndpointKey e)) (rt_endpoints r))" by (auto simp: distinct_map inj_on_def)
  then have here: "distinct (map protection_key (map2 (export_endpoint now r) (rt_endpoints r) sts))"
    unfolding exported_route_keys by (metis distinct_take take_map)
  have later: "distinct (map protection_key (concat (map2 (\<lambda>r sts. map2 (export_endpoint now r) (rt_endpoints r) sts) rs stss)))"
    by (rule 4(1)) (use 4(2,3) in simp_all)
  have names: "fst k \<in> RouteKey ` set rs"
    if k: "k \<in> protection_key ` set (concat (map2 (\<lambda>r sts. map2 (export_endpoint now r) (rt_endpoints r) sts) rs stss))" for k
  proof -
    from k obtain r' sts' e st where z: "(r', sts') \<in> set (zip rs stss)" and "k = protection_key (export_endpoint now r' e st)"
      by auto
    then have "fst k = RouteKey r'" by (simp add: protection_key_def export_endpoint_def)
    with set_zip_leftD [OF z] show ?thesis by blast
  qed
  have "RouteKey r \<notin> RouteKey ` set rs" using RouteKey_inj [OF 4(2)] by simp
  then have "set (map protection_key (map2 (export_endpoint now r) (rt_endpoints r) sts))
      \<inter> protection_key ` set (concat (map2 (\<lambda>r sts. map2 (export_endpoint now r) (rt_endpoints r) sts) rs stss)) = {}"
  proof (intro equals0I, elim IntE)
    fix k
    assume "RouteKey r \<notin> RouteKey ` set rs"
      and here: "k \<in> set (map protection_key (map2 (export_endpoint now r) (rt_endpoints r) sts))"
      and there: "k \<in> protection_key ` set (concat (map2 (\<lambda>r sts. map2 (export_endpoint now r) (rt_endpoints r) sts) rs stss))"
    have "fst k = RouteKey r" using here unfolding exported_route_keys by auto
    with names [OF there] \<open>RouteKey r \<notin> RouteKey ` set rs\<close> show False by simp
  qed
  then show ?case using here later by simp
qed simp_all

lemma Export_keys_distinct:
  "config_valid (cs_config source) \<Longrightarrow> distinct (map protection_key (ExportProtectionSnapshot source now))"
  unfolding ExportProtectionSnapshot_def by (rule exported_keys_distinct) (simp_all add: config_valid_def)

text \<open>The state during the import: only endpoints named so far have a slot object.\<close>

definition import_inv :: "config \<Rightarrow> (route_identity \<times> endpoint_identity) set \<Rightarrow> coordinator_state \<Rightarrow> bool" where
  "import_inv c keys s \<longleftrightarrow>
     coord_inv 0 (coord_system_init s) \<and> cs_config s = c
     \<and> map length (cs_endpoints s) = map (\<lambda>r. length (rt_endpoints r)) (cfg_routes c)
     \<and> (\<forall>r e. has_endpoint s r e \<longrightarrow> es_probe_slots (endpoint_at s r e) \<noteq> None \<longrightarrow> endpoint_key c r e \<in> keys)"

lemma permits_for_Nil [simp]: "permits_for [] r e = {}"
  by (simp add: permits_for_def)

lemma imported_endpoint_inv:
  assumes inv: "endpoint_inv 0 heap {} st" and b: "es_breaker st = Some b" and none: "es_probe_slots st = None"
  shows "ImportSnapshot b snapshot now = (None, b') \<Longrightarrow> endpoint_inv 0 heap {} (st\<lparr>es_breaker := Some b'\<rparr>)"
    and "ImportSnapshot b snapshot now = (Some cycle, b') \<Longrightarrow>
      slots_ok (new_slots cycle) \<and> endpoint_inv 0 (heap @ [new_slots cycle]) {}
        (st\<lparr>es_breaker := Some b', es_probe_slots := Some (length heap)\<rparr>)"
proof -
  have binv: "breaker_inv b" using inv b by (simp add: endpoint_inv_def)
  have binv': "breaker_inv b'" if "ImportSnapshot b snapshot now = (r, b')" for r
    using ImportSnapshot_inv [OF binv, of snapshot now] that by simp
  have gen: "\<exists>g n. g \<noteq> 0 \<and> n \<le> (0 :: nat) \<and> cb_generation b' = advance_generations n g \<and> P g n"
    if "breaker_inv b'" "P (cb_generation b') 0" for P
    using that by (auto simp: breaker_inv_def advance_generations_def intro!: exI [of _ "cb_generation b'"])
  show "endpoint_inv 0 heap {} (st\<lparr>es_breaker := Some b'\<rparr>)" if imp: "ImportSnapshot b snapshot now = (None, b')"
  proof -
    have "cb_state b' \<noteq> kHalfOpen" using imp by (auto simp: ImportSnapshot_def Let_def split: if_splits prod.splits)
    with binv' [OF imp] gen [OF binv' [OF imp], of "\<lambda>_ _. True"] none show ?thesis by (simp add: endpoint_inv_def)
  qed
  assume imp: "ImportSnapshot b snapshot now = (Some cycle, b')"
  define a where "a = ImportReset b (sn_source_generation snapshot) now"
  have fresh: "BeginFreshHalfOpenCycle a = (cycle, b')"
    using imp by (auto simp: ImportSnapshot_def Let_def a_def split: if_splits prod.splits)
  have "hc_quota cycle \<le> u32_max" using fresh binv by (auto simp: BeginFresh_eq a_def ImportReset_fields breaker_inv_def)
  then have "slots_ok (new_slots cycle)" by (simp add: slots_ok_def new_slots_def)
  moreover have "slots_match (new_slots cycle) b'" "ps_generation (new_slots cycle) = cb_generation b'"
    using fresh by (auto simp: BeginFresh_eq slots_match_def new_slots_def)
  moreover have "\<exists>g n. g \<noteq> 0 \<and> n \<le> (0 :: nat) \<and> cb_generation b' = advance_generations n g
      \<and> (\<exists>k \<le> n. ps_generation (new_slots cycle) = advance_generations k g)"
    by (rule gen [OF binv' [OF imp]]) (simp add: calculation(3) advance_generations_def)
  ultimately show "slots_ok (new_slots cycle) \<and> endpoint_inv 0 (heap @ [new_slots cycle]) {}
      (st\<lparr>es_breaker := Some b', es_probe_slots := Some (length heap)\<rparr>)"
    using binv' [OF imp] by (simp add: endpoint_inv_def permits_issued_def)
qed

lemma coord_inv_init_set:
  assumes "coord_inv 0 (coord_system_init s)" and "has_endpoint s r e"
    and "es_probe_slots st = es_probe_slots (endpoint_at s r e)" and "endpoint_inv 0 (cs_heap s) {} st"
  shows "coord_inv 0 (coord_system_init (set_endpoint s r e st))"
  using coord_inv_set [of 0 "coord_system_init s" r e st 0] assms by (simp add: coord_system_init_def)

lemma coord_inv_init_new_slots:
  assumes "coord_inv 0 (coord_system_init s)" and "has_endpoint s r e"
    and "es_probe_slots st = Some (length (cs_heap s))" "slots_ok p" and "endpoint_inv 0 (cs_heap s @ [p]) {} st"
  shows "coord_inv 0 (coord_system_init (set_endpoint (s\<lparr>cs_heap := cs_heap s @ [p]\<rparr>) r e st))"
  using coord_inv_new_slots [of 0 "coord_system_init s" r e st p 0] assms by (simp add: coord_system_init_def)

lemma coord_inv_init_endpoint:
  "coord_inv 0 (coord_system_init s) \<Longrightarrow> has_endpoint s r e \<Longrightarrow> endpoint_inv 0 (cs_heap s) {} (endpoint_at s r e)"
  using coord_inv_endpoint [of 0 "coord_system_init s" r e] by (simp add: coord_system_init_def)

lemma import_into_inv:
  assumes inv: "coord_inv 0 (coord_system_init s)" and has: "has_endpoint s r e" and none: "es_probe_slots (endpoint_at s r e) = None"
  shows "coord_inv 0 (coord_system_init (import_into source rt now r e s))"
proof -
  define target where "target = (if SameHealthPolicy (ep_source_health_policy source) (rt_health_check rt)
    then (endpoint_at s r e)\<lparr>es_health := ep_health_state source\<rparr> else endpoint_at s r e)"
  have t: "endpoint_inv 0 (cs_heap s) {} target" "es_probe_slots target = None"
    using coord_inv_init_endpoint [OF inv has] none by (simp_all add: target_def)
  note plain = coord_inv_init_set [OF inv has, of target]
  show ?thesis
  proof (cases "es_breaker target = None \<or> ep_breaker source = None
      \<or> \<not> SameBreakerPolicy (ep_source_breaker_policy source) (rt_circuit_breaker rt)")
    case True
    then have "import_into source rt now r e s = set_endpoint s r e target"
      unfolding import_into_def Let_def target_def [symmetric] by (auto split: option.split)
    then show ?thesis using plain t none by simp
  next
    case False
    then obtain b snapshot where b: "es_breaker target = Some b" "ep_breaker source = Some snapshot" by auto
    obtain cycle b' where imp: "ImportSnapshot b snapshot now = (cycle, b')" by fastforce
    have eq: "import_into source rt now r e s =
       (case cycle of
          Some cycle \<Rightarrow> set_endpoint (s\<lparr>cs_heap := cs_heap s @ [new_slots cycle]\<rparr>) r e
            (target\<lparr>es_breaker := Some b', es_probe_slots := Some (length (cs_heap s))\<rparr>)
        | None \<Rightarrow> set_endpoint s r e (target\<lparr>es_breaker := Some b'\<rparr>))"
      using False b imp unfolding import_into_def Let_def target_def [symmetric] by simp
    show ?thesis
    proof (cases cycle)
      case None
      with imported_endpoint_inv(1) [OF t(1) b(1) t(2)] imp show ?thesis
        unfolding eq using coord_inv_init_set [OF inv has, of "target\<lparr>es_breaker := Some b'\<rparr>"] t(2) none by simp
    next
      case (Some x)
      with imported_endpoint_inv(2) [OF t(1) b(1) t(2)] imp show ?thesis
        unfolding eq using coord_inv_init_new_slots [OF inv has] by simp
    qed
  qed
qed

lemma import_into_sets: "\<exists>heap st. import_into source rt now r e s = set_endpoint (s\<lparr>cs_heap := heap\<rparr>) r e st"
proof -
  have keep: "\<exists>heap st. set_endpoint s r e t = set_endpoint (s\<lparr>cs_heap := heap\<rparr>) r e st" for t
    by (rule exI [of _ "cs_heap s"], rule exI [of _ t]) simp
  have new: "\<exists>heap st. set_endpoint (s\<lparr>cs_heap := h\<rparr>) r e t = set_endpoint (s\<lparr>cs_heap := heap\<rparr>) r e st" for h t
    by blast
  obtain cycle b' where imp: "ImportSnapshot (the (es_breaker (endpoint_at s r e))) (the (ep_breaker source)) now = (cycle, b')"
    by fastforce
  show ?thesis
  proof (cases "es_breaker (endpoint_at s r e) \<noteq> None \<and> ep_breaker source \<noteq> None")
    case True
    then show ?thesis
      using imp by (cases cycle) (auto simp: import_into_def Let_def simp del: ex_simps intro: keep new)
  next
    case False
    then show ?thesis unfolding import_into_def Let_def by (auto split: option.split intro: keep)
  qed
qed

lemma set_endpoint_shape [simp]: "map length (cs_endpoints (set_endpoint s r e st)) = map length (cs_endpoints s)"
  by (cases "r < length (cs_endpoints s)") (simp_all add: set_endpoint_def map_update list_update_same_conv list_update_beyond)

lemma set_endpoint_config [simp]: "cs_config (set_endpoint s r e st) = cs_config s"
  by (simp add: set_endpoint_def)

lemma shape_has_endpoint:
  assumes "map length (cs_endpoints s) = map (\<lambda>r. length (rt_endpoints r)) (cfg_routes c)"
    and "r < length (cfg_routes c)" "e < length (rt_endpoints (cfg_routes c ! r))"
  shows "has_endpoint s r e"
proof -
  have "length (cs_endpoints s) = length (cfg_routes c)" using arg_cong [OF assms(1), of length] by simp
  moreover have "length (cs_endpoints s ! r) = length (rt_endpoints (cfg_routes c ! r))"
    using arg_cong [OF assms(1), of "\<lambda>l. l ! r"] assms(2) calculation by simp
  ultimately show ?thesis using assms(2,3) by (simp add: has_endpoint_def)
qed

lemma import_record_inv:
  assumes inv: "import_inv c keys s" and fresh: "protection_key p \<notin> keys"
  shows "import_inv c (insert (protection_key p) keys) (import_record now p s)"
proof (cases "find_index (SameRouteIdentity (ep_route p)) (cfg_routes c)")
  case None
  then show ?thesis using inv by (simp add: import_record_def import_inv_def)
next
  case (Some r)
  note r = find_index_Some [OF Some]
  show ?thesis
  proof (cases "find_index (SameEndpointIdentity (ep_endpoint p)) (rt_endpoints (cfg_routes c ! r))")
    case None
    then show ?thesis using inv Some by (simp add: import_record_def import_inv_def Let_def)
  next
    case e: (Some e)
    let ?s = "import_into p (cfg_routes c ! r) now r e s"
    have eq: "import_record now p s = ?s" using inv Some e by (simp add: import_record_def import_inv_def Let_def)
    have key: "protection_key p = endpoint_key c r e"
      using r(2) find_index_Some(2) [OF e] by (simp add: identity_keys protection_key_def endpoint_key_def)
    have has: "has_endpoint s r e" using inv r(1) find_index_Some(1) [OF e] by (auto simp: import_inv_def intro: shape_has_endpoint)
    then have "es_probe_slots (endpoint_at s r e) = None" using inv fresh key unfolding import_inv_def by metis
    then have "coord_inv 0 (coord_system_init ?s)" using import_into_inv [OF _ has] inv by (simp add: import_inv_def)
    moreover obtain heap st where "?s = set_endpoint (s\<lparr>cs_heap := heap\<rparr>) r e st" using import_into_sets by blast
    ultimately show ?thesis
      using inv key unfolding eq by (auto simp: import_inv_def endpoint_at_set)
  qed
qed

lemma import_records_inv:
  assumes "import_inv c keys s" and "distinct (map protection_key ps)" and "keys \<inter> protection_key ` set ps = {}"
  shows "import_inv c (keys \<union> protection_key ` set ps) (fold (import_record now) ps s)"
  using assms
proof (induction ps arbitrary: keys s)
  case (Cons p ps)
  have "import_inv c (insert (protection_key p) keys) (import_record now p s)" using import_record_inv Cons.prems by simp
  from Cons.IH [OF this] Cons.prems show ?case by auto
qed simp

lemma PrepareForMigration_inv:
  assumes "import_inv c {} s"
  shows "import_inv c {} (PrepareForMigration s)"
proof -
  let ?s = "PrepareForMigration s"
  have len: "length (cs_endpoints s) = length (cfg_routes (cs_config s))"
    using assms unfolding import_inv_def by (metis length_map)
  have at: "has_endpoint ?s r e = has_endpoint s r e"
    "has_endpoint s r e \<Longrightarrow> \<exists>h. endpoint_at ?s r e = (endpoint_at s r e)\<lparr>es_health := h\<rparr>" for r e
    using len by (auto simp: has_endpoint_def endpoint_at_def PrepareForMigration_def)
  have heap: "cs_heap ?s = cs_heap s" "cs_config ?s = cs_config s" by (simp_all add: PrepareForMigration_def)
  have shape: "map length (cs_endpoints ?s) = map length (cs_endpoints s)"
    using len by (simp add: PrepareForMigration_def list_eq_iff_nth_eq)
  have ep: "endpoint_inv 0 (cs_heap s) {} (endpoint_at ?s r e)" "es_probe_slots (endpoint_at ?s r e) = None" if "has_endpoint s r e" for r e
    using at(2) [OF that] coord_inv_init_endpoint [OF _ that] assms that by (auto simp: import_inv_def)
  have "coord_inv 0 (coord_system_init ?s)"
    using ep at(1) assms by (simp add: coord_inv_def coord_system_init_def heap import_inv_def)
  then show ?thesis using assms ep at(1) heap shape by (simp add: import_inv_def)
qed

lemma coordinator_start_inv:
  assumes "config_valid c" and "coordinator_start c s"
  shows "coord_inv 0 (coord_system_init s)"
proof -
  obtain now s0 where new: "CoordinatorState_new c now = Inr s0"
    and s: "s = s0 \<or> (\<exists>source exported imported. config_valid (cs_config source)
      \<and> s = ImportProtectionSnapshot s0 (ExportProtectionSnapshot source exported) imported)"
    using assms(2) unfolding coordinator_start_def by blast
  note init = coord_system_init_inv [OF assms(1) new]
  have eps: "res_map (\<lambda>r. route_states r now) (cfg_routes c) = Inr (cs_endpoints s0)" and "cs_config s0 = c"
    using new by (auto simp: CoordinatorState_new_def)
  have "map length (cs_endpoints s0) = map (\<lambda>r. length (rt_endpoints r)) (cfg_routes c)"
  proof (rule nth_equalityI)
    show "length (map length (cs_endpoints s0)) = length (map (\<lambda>r. length (rt_endpoints r)) (cfg_routes c))"
      using list_all2_lengthD [OF res_map_Inr [OF eps]] by simp
    fix i assume "i < length (map length (cs_endpoints s0))"
    then have i: "i < length (cs_endpoints s0)" by simp
    have "route_states (cfg_routes c ! i) now = Inr (cs_endpoints s0 ! i)" using list_all2_nthD2 [OF res_map_Inr [OF eps] i] .
    then show "map length (cs_endpoints s0) ! i = map (\<lambda>r. length (rt_endpoints r)) (cfg_routes c) ! i"
      using i list_all2_lengthD [OF res_map_Inr [OF eps]] list_all2_lengthD [OF res_map_Inr] by (fastforce simp: route_states_def)
  qed
  then have start: "import_inv c {} s0"
    using init new_endpoint_inv [OF assms(1) new] \<open>cs_config s0 = c\<close> by (simp add: import_inv_def)
  have "coord_inv 0 (coord_system_init (ImportProtectionSnapshot s0 (ExportProtectionSnapshot source exported) imported))"
    if "config_valid (cs_config source)" for source exported imported
    using import_records_inv [OF PrepareForMigration_inv [OF start] Export_keys_distinct [OF that]]
    by (simp add: ImportProtectionSnapshot_def import_inv_def)
  then show ?thesis using s init by blast
qed

lemma coord_reachable_inv:
  assumes "config_valid c" and "coordinator_start c s"
    and "(coord_step ^^ n) (coord_system_init s) y" and "n < 2 ^ 64 - 1"
  shows "coord_inv n y"
  using assms(3,4)
proof (induction n arbitrary: y)
  case 0
  with coordinator_start_inv [OF assms(1,2)] show ?case by simp
next
  case (Suc n)
  then obtain z where "(coord_step ^^ n) (coord_system_init s) z" "coord_step z y" by auto
  with Suc coord_step_inv show ?case by simp
qed

lemma claim_fresh:
  assumes inv: "coord_inv limit y" and snap: "snap \<in> sys_snaps y"
    and claim: "ClaimProbe (sys_state y) r e snap = (Some a, s')"
  shows "\<exists>b. es_breaker (endpoint_at (sys_state y) r e) = Some b"
    and "es_breaker (endpoint_at (sys_state y) r e) = Some b \<Longrightarrow> cb_state b = kHalfOpen \<Longrightarrow>
      ap_generation a = cb_generation b \<and> ap_probe_id a \<in> set (cb_pending_probes b)"
    and "(r, e, a) \<notin> set (sys_permits y)"
proof -
  let ?s = "sys_state y"
  obtain q where q: "snap_slots snap r e = Some q" "0 < ps_remaining (cs_heap ?s ! q)"
    and has: "has_endpoint ?s r e" "es_probe_slots (endpoint_at ?s r e) = Some q"
    and a: "ap_generation a = ps_generation (cs_heap ?s ! q)"
      "ap_probe_id a = ps_probe_base (cs_heap ?s ! q) + ps_issued (cs_heap ?s ! q)"
    using claim_success [OF claim] by blast
  note ep = coord_inv_endpoint [OF inv has(1)]
  from ep has show "\<exists>b. es_breaker (endpoint_at ?s r e) = Some b"
    by (auto simp: endpoint_inv_def split: option.splits)
  from ep has(2) have lt: "q < length (cs_heap ?s)"
    and issued: "permits_issued (cs_heap ?s ! q) (permits_for (sys_permits y) r e)"
    by (auto simp: endpoint_inv_def)
  have ok: "slots_ok (cs_heap ?s ! q)" using inv lt by (simp add: coord_inv_def list_all_length)
  have quota: "unat (ps_issued (cs_heap ?s ! q)) < ps_quota (cs_heap ?s ! q)"
    using ok q(2) by (rule claimed_ok(3))
  show "ap_generation a = cb_generation b \<and> ap_probe_id a \<in> set (cb_pending_probes b)"
    if "es_breaker (endpoint_at ?s r e) = Some b" "cb_state b = kHalfOpen"
  proof -
    from ep that has(2) have "slots_match (cs_heap ?s ! q) b" by (simp add: endpoint_inv_def)
    then have "ps_generation (cs_heap ?s ! q) = cb_generation b"
      "ps_probe_base (cs_heap ?s ! q) + of_nat (unat (ps_issued (cs_heap ?s ! q))) \<in> set (cb_pending_probes b)"
      using quota unfolding slots_match_def by blast+
    then show ?thesis using a by simp
  qed
  show "(r, e, a) \<notin> set (sys_permits y)"
  proof
    assume "(r, e, a) \<in> set (sys_permits y)"
    then have "a \<in> permits_for (sys_permits y) r e" by (simp add: permits_for_def)
    with issued a(1) obtain i where i: "i < unat (ps_issued (cs_heap ?s ! q))"
        "ap_probe_id a = ps_probe_base (cs_heap ?s ! q) + of_nat i"
      unfolding permits_issued_def by blast
    with a(2) have "ps_issued (cs_heap ?s ! q) = of_nat i" by simp
    then have "unat (ps_issued (cs_heap ?s ! q)) \<le> i"
      by (simp only:) (simp add: unat_of_nat take_bit_nat_less_eq_self)
    with i(1) show False by simp
  qed
qed

lemma permits_distinct:
  assumes "config_valid c" and "coordinator_start c s"
    and "(coord_step ^^ n) (coord_system_init s) y" and "n < 2 ^ 64 - 1"
  shows "distinct (sys_permits y)"
  using assms(3,4)
proof (induction n arbitrary: y)
  case 0
  then show ?case by (auto simp: coord_system_init_def)
next
  case (Suc n)
  then obtain z where z: "(coord_step ^^ n) (coord_system_init s) z" "coord_step z y" by auto
  with Suc have dist: "distinct (sys_permits z)" and inv: "coord_inv n z"
    using coord_reachable_inv [OF assms(1,2) z(1)] by simp_all
  from z(2) show ?case
  proof (cases rule: coord_step.cases)
    case (claim snap r e a s')
    with claim_fresh(3) [OF inv] have "(r, e, a) \<notin> set (sys_permits z)" by blast
    with dist claim show ?thesis by simp
  qed (simp_all add: dist)
qed

text \<open>
   C15. A coordinator state starts fresh or with the protection state that another coordinator
  exported, which it imports before any worker can claim from it.  Whatever sequence of health
  results, attempt results, arming, publications and worker claims follows (fewer than
  \<open>2 ^ 64 - 1\<close> steps), no probe permit is ever handed out twice, and a permit claimed while the
  breaker is half-open carries the running cycle's generation and names a probe the breaker is
  still waiting for, even when the claim was made from an old snapshot.
\<close>

theorem ClaimProbe_permit:
  assumes "config_valid c" and "coordinator_start c s"
    and "(coord_step ^^ n) (coord_system_init s) y" and "n < 2 ^ 64 - 1"
  shows "distinct (sys_permits y)
    \<and> (\<forall>snap \<in> sys_snaps y. \<forall>r e a s'. ClaimProbe (sys_state y) r e snap = (Some a, s') \<longrightarrow>
         (r, e, a) \<notin> set (sys_permits y)
         \<and> (BreakerState (sys_state y) r e = kHalfOpen \<longrightarrow>
              ap_generation a = Generation (sys_state y) r e
              \<and> (\<exists>b. es_breaker (endpoint_at (sys_state y) r e) = Some b
                    \<and> ap_probe_id a \<in> set (cb_pending_probes b))))"
proof (intro conjI ballI allI impI)
  show "distinct (sys_permits y)" using assms by (rule permits_distinct)
next
  fix snap r e a s'
  assume snap: "snap \<in> sys_snaps y" and claim: "ClaimProbe (sys_state y) r e snap = (Some a, s')"
  note fresh = claim_fresh [OF coord_reachable_inv [OF assms] snap claim]
  show "(r, e, a) \<notin> set (sys_permits y)" by (rule fresh(3))
  assume half: "BreakerState (sys_state y) r e = kHalfOpen"
  from fresh(1) obtain b where b: "es_breaker (endpoint_at (sys_state y) r e) = Some b" by blast
  with half have "cb_state b = kHalfOpen" "has_endpoint (sys_state y) r e"
    by (auto simp: BreakerState_def split: if_splits)
  with fresh(2) [OF b] b show "ap_generation a = Generation (sys_state y) r e"
    and "\<exists>b. es_breaker (endpoint_at (sys_state y) r e) = Some b \<and> ap_probe_id a \<in> set (cb_pending_probes b)"
    by (simp_all add: Generation_def)
qed

text \<open>A breaker that opened before a reload: the import starts its half-open cycle, the coordinator
  publishes, and a worker claims a probe.\<close>

definition probing_config :: config where
  "probing_config = sample_config\<lparr>cfg_routes := map (rt_circuit_breaker_update (\<lambda>_. Some
     \<lparr>window_seconds = 10, min_requests = 1, failure_threshold_permille = 500, open_seconds = 3,
      half_open_probes = 2\<rparr>)) (cfg_routes sample_config)\<rparr>"

definition probing_start :: coordinator_state where
  "probing_start = projr (CoordinatorState_new probing_config 0)"

definition probing_failure :: attempt_result where
  "probing_failure = \<lparr>ar_route_index = 0, ar_endpoint_index = 1,
     ar_permit = \<lparr>ap_probe = False, ap_generation = 1, ap_probe_id = 0\<rparr>, ar_success = False\<rparr>"

definition probing_imported :: coordinator_state where
  "probing_imported = ImportProtectionSnapshot probing_start
     (ExportProtectionSnapshot (RecordResult probing_start probing_failure 1000) 4000000000) 4000000001"

definition probing_snap :: health_circuit_snapshot where
  "probing_snap = fst (BuildSnapshot probing_imported)"

lemma probing_new: "CoordinatorState_new probing_config 0 = Inr probing_start"
  by code_simp

lemma probing_valid: "config_valid probing_config"
  by code_simp

lemma probing_started: "coordinator_start probing_config probing_imported"
proof -
  have "cs_config (RecordResult probing_start probing_failure 1000) = probing_config" by code_simp
  then show ?thesis
    unfolding coordinator_start_def probing_imported_def using probing_new probing_valid by metis
qed

definition probing_system :: coord_system where
  "probing_system = \<lparr>sys_state = snd (BuildSnapshot probing_imported), sys_permits = [], sys_snaps = {probing_snap}\<rparr>"

lemma probing_run: "(coord_step ^^ 1) (coord_system_init probing_imported) probing_system"
  using coord_step.publish [of "coord_system_init probing_imported" probing_snap "snd (BuildSnapshot probing_imported)"]
  by (auto simp: probing_system_def probing_snap_def coord_system_init_def)

theorem ClaimProbe_permit_witness:
  "fst (ClaimProbe (sys_state probing_system) 0 1 probing_snap)
     = Some \<lparr>ap_probe = True, ap_generation = 4, ap_probe_id = 1\<rparr>
   \<and> BreakerState (sys_state probing_system) 0 1 = kHalfOpen
   \<and> Generation (sys_state probing_system) 0 1 = 4 \<and> distinct (sys_permits probing_system)"
proof -
  have claim: "ClaimProbe (sys_state probing_system) 0 1 probing_snap
      = (Some \<lparr>ap_probe = True, ap_generation = 4, ap_probe_id = 1\<rparr>,
         snd (ClaimProbe (sys_state probing_system) 0 1 probing_snap))"
    by code_simp
  have half: "BreakerState (sys_state probing_system) 0 1 = kHalfOpen" by code_simp
  have "probing_snap \<in> sys_snaps probing_system" by (simp add: probing_system_def)
  with ClaimProbe_permit [OF probing_valid probing_started probing_run] claim half
  have "(4 :: u64) = Generation (sys_state probing_system) 0 1" "distinct (sys_permits probing_system)"
    by fastforce+
  moreover have "fst (ClaimProbe (sys_state probing_system) 0 1 probing_snap) = Some \<lparr>ap_probe = True, ap_generation = 4, ap_probe_id = 1\<rparr>"
    by (subst claim) simp
  ultimately show ?thesis using half by metis
qed

section \<open>Concurrent claims share the quota\<close>

definition winners :: "claim_state \<Rightarrow> nat set" where
  "winners s = {i. cl_pcs s i = Won}"

definition holders :: "claim_state \<Rightarrow> nat set" where
  "holders s = {i. \<exists>k. cl_pcs s i = Issued k}"

definition claim_state_inv :: "nat \<Rightarrow> claim_state \<Rightarrow> bool" where
  "claim_state_inv quota s \<longleftrightarrow>
     finite (winners s) \<and> finite (holders s)
     \<and> cl_remaining s + card (winners s) + card (holders s) = quota
     \<and> unat (cl_issued s) = card (holders s)
     \<and> (\<forall>i k. cl_pcs s i = Issued k \<longrightarrow> unat k < card (holders s))
     \<and> (\<forall>i j k. cl_pcs s i = Issued k \<longrightarrow> cl_pcs s j = Issued k \<longrightarrow> i = j)
     \<and> (\<forall>i. cl_pcs s i = GaveUp \<longrightarrow> cl_remaining s = 0)"

lemma claim_step_inv:
  assumes "claim_step s s'" and inv: "claim_state_inv quota s" and quota: "quota \<le> u32_max"
  shows "claim_state_inv quota s'"
  using assms(1)
proof (cases rule: claim_step.cases)
  case (win i)
  then have "winners s' = insert i (winners s)" "holders s' = holders s" "i \<notin> winners s"
    by (auto simp: winners_def holders_def)
  with inv win show ?thesis by (auto simp: claim_state_inv_def)
next
  case (give_up i)
  then have "winners s' = winners s" "holders s' = holders s" by (auto simp: winners_def holders_def)
  with inv give_up show ?thesis by (auto simp: claim_state_inv_def)
next
  case (issue i)
  have w: "winners s' = winners s - {i}" "holders s' = insert i (holders s)"
    and i: "i \<in> winners s" "i \<notin> holders s"
    using issue by (auto simp: winners_def holders_def)
  from inv have fin: "finite (winners s)" "finite (holders s)"
    and sum: "cl_remaining s + card (winners s) + card (holders s) = quota"
    and un: "unat (cl_issued s) = card (holders s)"
    and lt: "\<And>i k. cl_pcs s i = Issued k \<Longrightarrow> unat k < card (holders s)"
    and inj: "\<And>i j k. cl_pcs s i = Issued k \<Longrightarrow> cl_pcs s j = Issued k \<Longrightarrow> i = j"
    and gave: "\<And>i. cl_pcs s i = GaveUp \<Longrightarrow> cl_remaining s = 0"
    unfolding claim_state_inv_def by blast+
  have card: "card (winners s) = Suc (card (winners s - {i}))" "card (holders s') = Suc (card (holders s))"
    using fin i w card.remove [of "winners s" i] by simp_all
  have "Suc (unat (cl_issued s)) < 2 ^ 64" using un sum quota card(1) by simp
  then have un': "unat (cl_issued s + 1) = card (holders s')" using un card(2) by (simp add: unat_word_ariths)
  have pcs: "cl_pcs s' j = (if j = i then Issued (cl_issued s) else cl_pcs s j)" for j
    using issue by simp
  have 1: "unat k < card (holders s')" if "cl_pcs s' j = Issued k" for j k
    using that lt [of j k] un card(2) by (auto simp: pcs split: if_splits)
  have 2: "j = l" if "cl_pcs s' j = Issued k" "cl_pcs s' l = Issued k" for j l k
    using that lt [of j k] lt [of l k] inj [of j k l] un by (auto simp: pcs split: if_splits)
  have 3: "cl_remaining s' = 0" if "cl_pcs s' j = GaveUp" for j
    using that gave [of j] issue by (auto simp: pcs split: if_splits)
  have 4: "cl_remaining s' + card (winners s') + card (holders s') = quota"
    using sum card w issue by simp
  have 5: "unat (cl_issued s') = card (holders s')" using issue un' by simp
  have 6: "finite (winners s')" "finite (holders s')" using fin w by simp_all
  show ?thesis unfolding claim_state_inv_def
    by (intro conjI allI impI) (rule 6 4 5 1 2 3; assumption)+
qed

lemma claims_inv: "claim_step\<^sup>*\<^sup>* (claim_init quota) s \<Longrightarrow> quota \<le> u32_max \<Longrightarrow> claim_state_inv quota s"
proof (induction rule: rtranclp_induct)
  case base
  then show ?case by (simp add: claim_state_inv_def claim_init_def winners_def holders_def)
next
  case (step y z)
  then show ?case by (blast intro: claim_step_inv)
qed

text \<open>
   C16. Any number of workers claiming from one slot object, in any interleaving of their
  compare-exchange and increment operations: at most the quota succeeds, the indices handed
  out are distinct and below the quota, and a worker is only turned away when the whole
  quota has been taken.
\<close>

theorem concurrent_claims:
  assumes "claim_step\<^sup>*\<^sup>* (claim_init quota) s" and "quota \<le> u32_max"
  shows "card (winners s \<union> holders s) \<le> quota
    \<and> (\<forall>i k. cl_pcs s i = Issued k \<longrightarrow> unat k < quota)
    \<and> (\<forall>i j k. cl_pcs s i = Issued k \<longrightarrow> cl_pcs s j = Issued k \<longrightarrow> i = j)
    \<and> (\<forall>i. cl_pcs s i = GaveUp \<longrightarrow> card (winners s \<union> holders s) = quota)"
proof -
  from claims_inv [OF assms] have inv: "finite (winners s)" "finite (holders s)"
    "cl_remaining s + card (winners s) + card (holders s) = quota"
    "\<forall>i k. cl_pcs s i = Issued k \<longrightarrow> unat k < card (holders s)"
    "\<forall>i j k. cl_pcs s i = Issued k \<longrightarrow> cl_pcs s j = Issued k \<longrightarrow> i = j"
    "\<forall>i. cl_pcs s i = GaveUp \<longrightarrow> cl_remaining s = 0"
    unfolding claim_state_inv_def by blast+
  have "winners s \<inter> holders s = {}" by (auto simp: winners_def holders_def)
  with inv(1,2) have card: "card (winners s \<union> holders s) = card (winners s) + card (holders s)"
    by (simp add: card_Un_disjoint)
  have "unat k < quota" if "cl_pcs s i = Issued k" for i k using inv(3,4) that by fastforce
  moreover have "card (winners s \<union> holders s) = quota" if "cl_pcs s i = GaveUp" for i
    using inv(3,6) that card by simp
  moreover have "card (winners s \<union> holders s) \<le> quota" using inv(3) card by simp
  ultimately show ?thesis using inv(5) by (intro conjI) blast+
qed

lemma two_claims:
  "claim_step\<^sup>*\<^sup>* (claim_init 1) ((claim_init 1)\<lparr>cl_remaining := 0, cl_issued := 1,
     cl_pcs := (\<lambda>_. Trying)(0 := Issued 0, 1 := GaveUp)\<rparr>)" (is "claim_step\<^sup>*\<^sup>* ?s0 ?s3")
proof -
  let ?s1 = "?s0\<lparr>cl_remaining := 0, cl_pcs := (\<lambda>_. Trying)(0 := Won)\<rparr>"
  let ?s2 = "?s1\<lparr>cl_pcs := (\<lambda>_. Trying)(0 := Won, 1 := GaveUp)\<rparr>"
  have "claim_step ?s0 ?s1" using claim_step.win [of ?s0 0] by (simp add: claim_init_def)
  moreover have "claim_step ?s1 ?s2" using claim_step.give_up [of ?s1 1] by (simp add: claim_init_def)
  moreover have "claim_step ?s2 ?s3"
    using claim_step.issue [of ?s2 0] by (simp add: claim_init_def fun_upd_twist)
  ultimately show ?thesis by (meson converse_rtranclp_into_rtranclp rtranclp.rtrancl_refl)
qed

theorem concurrent_claims_witness:
  "card (winners ((claim_init 1)\<lparr>cl_remaining := 0, cl_issued := 1,
     cl_pcs := (\<lambda>_. Trying)(0 := Issued 0, 1 := GaveUp)\<rparr>) \<union>
    holders ((claim_init 1)\<lparr>cl_remaining := 0, cl_issued := 1,
     cl_pcs := (\<lambda>_. Trying)(0 := Issued 0, 1 := GaveUp)\<rparr>)) = 1"
  by (rule concurrent_claims [OF two_claims, THEN conjunct2, THEN conjunct2, THEN conjunct2, rule_format, of 1])
    simp_all

end
