(* ===== verification/OutcomeChannel.thy ===== *)
theory OutcomeChannel
  imports CasLoop CoordState
begin

text \<open>
  The bounded outcome ring between the workers (producers) and the coordinator (single
  consumer), \<open>OutcomeChannel\<close>: its operations, the life of a reservation, and the
  interleaving of producers and consumer at the granularity of their atomic operations.
  A refinement to a first-in first-out queue holds as long as the 32-bit head counter has not
  wrapped, or when the capacity divides \<open>2 ^ 32\<close>; otherwise the ring index jumps at the wrap
  and outcomes are lost.
\<close>

section \<open>State\<close>

definition kMaxOutcomeCapacity :: nat where
  "kMaxOutcomeCapacity = 1048576"

record outcome_slot =
  sl_value :: attempt_result
  sl_ready :: bool

record outcome_state =
  oc_accepting :: bool
  oc_available :: nat
  oc_head :: u32
  oc_tail :: u32
  oc_rejected :: u64
  oc_capacity :: nat
  oc_wake_fd :: int
  oc_slots :: "outcome_slot list"

text \<open>\<open>rv_state\<close> says that the shared pointer is set; there is one channel.\<close>

record reservation =
  rv_state :: bool
  rv_finalized :: bool

definition empty_result :: attempt_result where
  "empty_result = \<lparr>ar_route_index = 0, ar_endpoint_index = 0,
     ar_permit = \<lparr>ap_probe = False, ap_generation = 0, ap_probe_id = 0\<rparr>, ar_success = False\<rparr>"

section \<open>Operations\<close>

definition CapacityForRoute :: "nat \<Rightarrow> nat \<Rightarrow> cpp_error + nat" where
  "CapacityForRoute max_inflight retry_budget =
     (let attempts = (max_inflight * ((retry_budget + 1) mod 2 ^ 64)) mod 2 ^ 64
      in if attempts = 0 \<or> attempts > kMaxOutcomeCapacity then Inl InvalidArgument else Inr attempts)"

text \<open>\<open>wake_fd\<close> is what \<open>eventfd\<close> returned.\<close>

definition OutcomeChannel_new :: "int \<Rightarrow> nat \<Rightarrow> cpp_error + outcome_state" where
  "OutcomeChannel_new wake_fd capacity =
     (if capacity = 0 \<or> capacity > kMaxOutcomeCapacity then Inl InvalidArgument
      else if wake_fd < 0 then Inl SystemError
      else Inr \<lparr>oc_accepting = True, oc_available = capacity, oc_head = 0, oc_tail = 0, oc_rejected = 0,
             oc_capacity = capacity, oc_wake_fd = wake_fd,
             oc_slots = replicate capacity \<lparr>sl_value = empty_result, sl_ready = False\<rparr>\<rparr>)"

definition TryReserve_body :: "(nat, bool) cas_body" where
  "TryReserve_body current = (if current > 0 then (Some (current - 1), True) else (None, False))"

definition TryReserve :: "outcome_state \<Rightarrow> reservation option \<times> outcome_state" where
  "TryReserve s =
     (if \<not> oc_accepting s then (None, s\<lparr>oc_rejected := oc_rejected s + 1\<rparr>)
      else let (available, ok) = cas_apply TryReserve_body (oc_available s) in
        if ok then (Some \<lparr>rv_state = True, rv_finalized = False\<rparr>, s\<lparr>oc_available := available\<rparr>)
        else (None, s\<lparr>oc_rejected := oc_rejected s + 1\<rparr>))"

definition restore_credit :: "outcome_state \<Rightarrow> outcome_state" where
  "restore_credit s = s\<lparr>oc_available := (oc_available s + 1) mod 2 ^ 32\<rparr>"

definition slot_index :: "outcome_state \<Rightarrow> u32 \<Rightarrow> nat" where
  "slot_index s i = unat i mod oc_capacity s"

text \<open>One round of the drain loop: the tail slot is emptied and its outcome returned.\<close>

definition drain_take :: "outcome_state \<Rightarrow> (attempt_result \<times> outcome_state) option" where
  "drain_take s =
     (let index = slot_index s (oc_tail s) in
      if \<not> (index < length (oc_slots s) \<and> sl_ready (oc_slots s ! index)) then None
      else Some (sl_value (oc_slots s ! index),
             s\<lparr>oc_slots := (oc_slots s)[index := \<lparr>sl_value = empty_result, sl_ready = False\<rparr>],
               oc_tail := oc_tail s + 1\<rparr>))"

lemma drain_take_fewer:
  assumes "drain_take s = Some (r, s')"
  shows "length (filter sl_ready (oc_slots s')) < length (filter sl_ready (oc_slots s))"
proof -
  let ?i = "slot_index s (oc_tail s)"
  from assms have i: "?i < length (oc_slots s)" "sl_ready (oc_slots s ! ?i)"
    and s': "oc_slots s' = (oc_slots s)[?i := \<lparr>sl_value = empty_result, sl_ready = False\<rparr>]"
    by (auto simp: drain_take_def Let_def split: if_splits)
  have "oc_slots s = take ?i (oc_slots s) @ oc_slots s ! ?i # drop (Suc ?i) (oc_slots s)"
    using i(1) by (rule id_take_nth_drop)
  then have "filter sl_ready (oc_slots s)
      = filter sl_ready (take ?i (oc_slots s)) @ oc_slots s ! ?i # filter sl_ready (drop (Suc ?i) (oc_slots s))"
    using i(2) by (metis filter.simps(2) filter_append)
  then show ?thesis using i(1) by (simp add: s' upd_conv_take_nth_drop)
qed

text \<open>
  The whole drain loop with the consumed outcomes in order.  Each round clears a ready flag,
  so the loop ends.
\<close>

function DrainOnCoordinatorLoop :: "outcome_state \<Rightarrow> attempt_result list \<times> outcome_state" where
  "DrainOnCoordinatorLoop s =
     (case drain_take s of
        None \<Rightarrow> ([], s)
      | Some (result, s') \<Rightarrow>
          let (consumed, s'') = DrainOnCoordinatorLoop (restore_credit s') in (result # consumed, s''))"
  by pat_completeness auto
termination
  by (relation "measure (\<lambda>s. length (filter sl_ready (oc_slots s)))")
    (auto simp: restore_credit_def dest: drain_take_fewer)

declare DrainOnCoordinatorLoop.simps [simp del]

definition BeginStopping :: "outcome_state \<Rightarrow> outcome_state" where
  "BeginStopping s = s\<lparr>oc_accepting := False\<rparr>"

definition pending :: "outcome_state \<Rightarrow> nat" where
  "pending s = unat (oc_head s - oc_tail s)"

definition rejected :: "outcome_state \<Rightarrow> u64" where
  "rejected s = oc_rejected s"

text \<open>The atomic pieces of \<open>Enqueue\<close>; \<open>enqueue_check\<close> is the overflow test that terminates the process.\<close>

definition enqueue_claim :: "outcome_state \<Rightarrow> u32 \<times> outcome_state" where
  "enqueue_claim s = (oc_head s, s\<lparr>oc_head := oc_head s + 1\<rparr>)"

definition enqueue_check :: "outcome_state \<Rightarrow> u32 \<Rightarrow> bool" where
  "enqueue_check s claimed = (\<not> (unat (claimed - oc_tail s) \<ge> oc_capacity s))"

definition enqueue_write :: "outcome_state \<Rightarrow> u32 \<Rightarrow> attempt_result \<Rightarrow> outcome_state" where
  "enqueue_write s claimed result =
     s\<lparr>oc_slots := (oc_slots s)[slot_index s claimed :=
         (oc_slots s ! slot_index s claimed)\<lparr>sl_value := result\<rparr>]\<rparr>"

definition enqueue_ready :: "outcome_state \<Rightarrow> u32 \<Rightarrow> outcome_state" where
  "enqueue_ready s claimed =
     s\<lparr>oc_slots := (oc_slots s)[slot_index s claimed :=
         (oc_slots s ! slot_index s claimed)\<lparr>sl_ready := True\<rparr>]\<rparr>"

text \<open>\<open>Enqueue\<close> run without interruption; \<open>None\<close> is \<open>std::terminate\<close>.\<close>

definition Enqueue :: "outcome_state \<Rightarrow> attempt_result \<Rightarrow> outcome_state option" where
  "Enqueue s result =
     (let (claimed, s) = enqueue_claim s in
      if \<not> enqueue_check s claimed then None
      else Some (enqueue_ready (enqueue_write s claimed result) claimed))"

definition Finalize :: "reservation \<Rightarrow> outcome_state \<Rightarrow> reservation \<times> outcome_state" where
  "Finalize v s =
     (\<lparr>rv_state = False, rv_finalized = True\<rparr>,
      if rv_state v \<and> \<not> rv_finalized v then restore_credit s else s)"

definition Cancel :: "reservation \<Rightarrow> outcome_state \<Rightarrow> reservation \<times> outcome_state" where
  "Cancel = Finalize"

text \<open>\<open>Publish\<close> returns whether it goes on to \<open>Enqueue\<close>.\<close>

definition Publish :: "reservation \<Rightarrow> bool \<times> reservation" where
  "Publish v =
     (if \<not> rv_state v \<or> rv_finalized v then (False, v) else (True, v\<lparr>rv_finalized := True\<rparr>))"

text \<open>Move construction returns the new and the moved-from reservation.\<close>

definition Reservation_move :: "reservation \<Rightarrow> reservation \<times> reservation" where
  "Reservation_move other =
     (\<lparr>rv_state = rv_state other, rv_finalized = rv_finalized other\<rparr>, \<lparr>rv_state = False, rv_finalized = True\<rparr>)"

definition Reservation_move_assign ::
    "reservation \<Rightarrow> reservation \<Rightarrow> outcome_state \<Rightarrow> (reservation \<times> reservation) \<times> outcome_state" where
  "Reservation_move_assign this other s =
     (let (_, s) = Finalize this s in (Reservation_move other, s))"

section \<open>Producers and consumer\<close>

text \<open>
  A running \<open>Publish\<close> call is at one of these points of \<open>Enqueue\<close>.  The reservation objects
  that are alive, the running calls and the consumer's pending credit are explicit; the
  history fields \<open>ch_claims\<close> (outcomes in the order of their \<open>fetch_add\<close> on the head) and
  \<open>ch_taken\<close> (outcomes in the order of consumption) are for the specification.
\<close>

datatype enqueue_pc =
  Starting attempt_result
| Claimed u32 attempt_result
| Checked u32 attempt_result
| Written u32
| Finished

record channel_system =
  ch_state :: outcome_state
  ch_reservations :: "reservation list"
  ch_calls :: "enqueue_pc list"
  ch_owed :: bool
  ch_claims :: "attempt_result list"
  ch_taken :: "attempt_result list"
  ch_terminated :: bool

inductive channel_step :: "channel_system \<Rightarrow> channel_system \<Rightarrow> bool" where
  reserve: "TryReserve (ch_state y) = (Some v, s) \<Longrightarrow>
    channel_step y (y\<lparr>ch_state := s, ch_reservations := ch_reservations y @ [v]\<rparr>)"
| reserve_refused: "TryReserve (ch_state y) = (None, s) \<Longrightarrow> channel_step y (y\<lparr>ch_state := s\<rparr>)"
| publish: "i < length (ch_reservations y) \<Longrightarrow> Publish (ch_reservations y ! i) = (run, v) \<Longrightarrow>
    channel_step y (y\<lparr>ch_reservations := (ch_reservations y)[i := v],
      ch_calls := ch_calls y @ (if run then [Starting result] else [])\<rparr>)"
| cancel: "i < length (ch_reservations y) \<Longrightarrow> Cancel (ch_reservations y ! i) (ch_state y) = (v, s) \<Longrightarrow>
    channel_step y (y\<lparr>ch_state := s, ch_reservations := (ch_reservations y)[i := v]\<rparr>)"
| move: "i < length (ch_reservations y) \<Longrightarrow> Reservation_move (ch_reservations y ! i) = (v, w) \<Longrightarrow>
    channel_step y (y\<lparr>ch_reservations := (ch_reservations y)[i := w] @ [v]\<rparr>)"
| move_assign: "i < length (ch_reservations y) \<Longrightarrow> j < length (ch_reservations y) \<Longrightarrow> i \<noteq> j \<Longrightarrow>
    Reservation_move_assign (ch_reservations y ! i) (ch_reservations y ! j) (ch_state y) = ((v, w), s) \<Longrightarrow>
    channel_step y (y\<lparr>ch_state := s, ch_reservations := (ch_reservations y)[i := v, j := w]\<rparr>)"
| claim: "k < length (ch_calls y) \<Longrightarrow> ch_calls y ! k = Starting result \<Longrightarrow>
    enqueue_claim (ch_state y) = (claimed, s) \<Longrightarrow>
    channel_step y (y\<lparr>ch_state := s, ch_calls := (ch_calls y)[k := Claimed claimed result],
      ch_claims := ch_claims y @ [result]\<rparr>)"
| check: "k < length (ch_calls y) \<Longrightarrow> ch_calls y ! k = Claimed claimed result \<Longrightarrow>
    enqueue_check (ch_state y) claimed \<Longrightarrow>
    channel_step y (y\<lparr>ch_calls := (ch_calls y)[k := Checked claimed result]\<rparr>)"
| overflow: "k < length (ch_calls y) \<Longrightarrow> ch_calls y ! k = Claimed claimed result \<Longrightarrow>
    \<not> enqueue_check (ch_state y) claimed \<Longrightarrow> channel_step y (y\<lparr>ch_terminated := True\<rparr>)"
| store: "k < length (ch_calls y) \<Longrightarrow> ch_calls y ! k = Checked claimed result \<Longrightarrow>
    channel_step y (y\<lparr>ch_state := enqueue_write (ch_state y) claimed result,
      ch_calls := (ch_calls y)[k := Written claimed]\<rparr>)"
| ready: "k < length (ch_calls y) \<Longrightarrow> ch_calls y ! k = Written claimed \<Longrightarrow>
    channel_step y (y\<lparr>ch_state := enqueue_ready (ch_state y) claimed,
      ch_calls := (ch_calls y)[k := Finished]\<rparr>)"
| take: "\<not> ch_owed y \<Longrightarrow> drain_take (ch_state y) = Some (result, s) \<Longrightarrow>
    channel_step y (y\<lparr>ch_state := s, ch_taken := ch_taken y @ [result], ch_owed := True\<rparr>)"
| credit: "ch_owed y \<Longrightarrow>
    channel_step y (y\<lparr>ch_state := restore_credit (ch_state y), ch_owed := False\<rparr>)"
| stop: "channel_step y (y\<lparr>ch_state := BeginStopping (ch_state y)\<rparr>)"

definition channel_init :: "outcome_state \<Rightarrow> channel_system" where
  "channel_init s = \<lparr>ch_state = s, ch_reservations = [], ch_calls = [], ch_owed = False, ch_claims = [],
     ch_taken = [], ch_terminated = False\<rparr>"

section \<open>Invariant\<close>

lemma length_filter_update:
  "i < length xs \<Longrightarrow>
   length (filter P (xs[i := v])) + (if P (xs ! i) then 1 else 0) = length (filter P xs) + (if P v then 1 else 0)"
proof (induction xs arbitrary: i)
  case (Cons x xs)
  then show ?case by (cases i) auto
qed simp

definition live :: "reservation \<Rightarrow> bool" where
  "live v \<longleftrightarrow> rv_state v \<and> \<not> rv_finalized v"

fun is_starting :: "enqueue_pc \<Rightarrow> bool" where
  "is_starting (Starting _) = True"
| "is_starting _ = False"

fun call_index :: "enqueue_pc \<Rightarrow> u32 option" where
  "call_index (Claimed c r) = Some c"
| "call_index (Checked c r) = Some c"
| "call_index (Written c) = Some c"
| "call_index _ = None"

text \<open>Ring positions are faithful while the head has not wrapped, or for a capacity that divides \<open>2 ^ 32\<close>.\<close>

definition wrap_safe :: "nat \<Rightarrow> nat \<Rightarrow> bool" where
  "wrap_safe cap h \<longleftrightarrow> h \<le> 2 ^ 32 \<or> cap dvd 2 ^ 32"

definition pos :: "nat \<Rightarrow> nat \<Rightarrow> nat" where
  "pos cap n = unat (of_nat n :: u32) mod cap"

text \<open>What a call in flight contributes to its slot.\<close>

fun carries :: "enqueue_pc \<Rightarrow> outcome_slot \<Rightarrow> attempt_result \<Rightarrow> bool" where
  "carries (Claimed c r) slot x \<longleftrightarrow> r = x"
| "carries (Checked c r) slot x \<longleftrightarrow> r = x"
| "carries (Written c) slot x \<longleftrightarrow> sl_value slot = x"
| "carries _ slot x \<longleftrightarrow> False"

definition call_ok :: "outcome_slot list \<Rightarrow> nat \<Rightarrow> attempt_result list \<Rightarrow> nat \<Rightarrow> enqueue_pc \<Rightarrow> bool" where
  "call_ok slots cap claims t pc \<longleftrightarrow>
     (\<forall>c. call_index pc = Some c \<longrightarrow>
        (\<exists>n. t \<le> n \<and> n < length claims \<and> c = of_nat n \<and> \<not> sl_ready (slots ! pos cap n)
           \<and> carries pc (slots ! pos cap n) (claims ! n)))"

definition ring_inv ::
    "outcome_slot list \<Rightarrow> nat \<Rightarrow> enqueue_pc list \<Rightarrow> attempt_result list \<Rightarrow> nat \<Rightarrow> bool" where
  "ring_inv slots cap calls claims t \<longleftrightarrow>
     (\<forall>k < length calls. call_ok slots cap claims t (calls ! k))
     \<and> (\<forall>k < length calls. \<forall>l < length calls. \<forall>c.
          call_index (calls ! k) = Some c \<longrightarrow> call_index (calls ! l) = Some c \<longrightarrow> k = l)
     \<and> (\<forall>n. t \<le> n \<and> n < length claims \<longrightarrow>
          sl_ready (slots ! pos cap n) \<and> sl_value (slots ! pos cap n) = claims ! n
          \<or> (\<exists>k < length calls. call_index (calls ! k) = Some (of_nat n)))
     \<and> (\<forall>i < length slots. sl_ready (slots ! i) \<longrightarrow> (\<exists>n. t \<le> n \<and> n < length claims \<and> i = pos cap n))"

definition channel_inv :: "channel_system \<Rightarrow> bool" where
  "channel_inv y \<longleftrightarrow>
     (let s = ch_state y; cap = oc_capacity s; h = length (ch_claims y); t = length (ch_taken y) in
      0 < cap \<and> cap \<le> kMaxOutcomeCapacity \<and> length (oc_slots s) = cap
      \<and> oc_head s = of_nat h \<and> oc_tail s = of_nat t \<and> t \<le> h \<and> ch_taken y = take t (ch_claims y)
      \<and> \<not> ch_terminated y
      \<and> oc_available s + length (filter live (ch_reservations y)) + length (filter is_starting (ch_calls y))
          + (h - t) + of_bool (ch_owed y) = cap
      \<and> ring_inv (oc_slots s) cap (ch_calls y) (ch_claims y) t)"

lemma pos_less: "0 < cap \<Longrightarrow> pos cap n < cap"
  by (simp add: pos_def)

lemma pos_eq: "wrap_safe cap h \<Longrightarrow> n < h \<Longrightarrow> pos cap n = n mod cap"
  by (auto simp: wrap_safe_def pos_def unat_of_nat take_bit_nat_eq_self take_bit_eq_mod mod_mod_cancel)

lemma pos_inj:
  assumes "wrap_safe cap h" and "n < h" "m < h" and "n - m < cap" "m - n < cap" and "pos cap n = pos cap m"
  shows "n = m"
proof -
  have eq: "n mod cap = m mod cap" using assms pos_eq [OF assms(1)] by simp
  have "cap dvd n - m" "cap dvd m - n" using eq by (metis mod_eq_dvd_iff_nat nat_le_linear diff_is_0_eq dvd_0_right)+
  with assms(4,5) show ?thesis by (metis diff_is_0_eq dvd_imp_le le_antisym not_gr_zero not_le)
qed

lemma of_nat_u32_inj:
  assumes "(of_nat n :: u32) = of_nat m" and "n - m < 2 ^ 32" "m - n < 2 ^ 32"
  shows "n = m"
proof -
  from assms(1) have "n mod 2 ^ 32 = m mod 2 ^ 32"
    by (simp add: word_of_nat_eq_iff take_bit_eq_mod)
  then have "2 ^ 32 dvd n - m" "2 ^ 32 dvd m - n"
    by (metis mod_eq_dvd_iff_nat nat_le_linear diff_is_0_eq dvd_0_right)+
  with assms(2,3) show ?thesis by (metis diff_is_0_eq dvd_imp_le le_antisym not_gr_zero not_le)
qed

subsection \<open>The ring\<close>

lemma ring_invI:
  assumes "\<And>k. k < length calls \<Longrightarrow> call_ok slots cap claims t (calls ! k)"
    and "\<And>k l c. k < length calls \<Longrightarrow> l < length calls \<Longrightarrow> call_index (calls ! k) = Some c \<Longrightarrow>
      call_index (calls ! l) = Some c \<Longrightarrow> k = l"
    and "\<And>n. t \<le> n \<Longrightarrow> n < length claims \<Longrightarrow>
      sl_ready (slots ! pos cap n) \<and> sl_value (slots ! pos cap n) = claims ! n
      \<or> (\<exists>k < length calls. call_index (calls ! k) = Some (of_nat n))"
    and "\<And>i. i < length slots \<Longrightarrow> sl_ready (slots ! i) \<Longrightarrow> \<exists>n. t \<le> n \<and> n < length claims \<and> i = pos cap n"
  shows "ring_inv slots cap calls claims t"
  unfolding ring_inv_def by (intro conjI allI impI) (use assms in blast)+

lemma ring_invD:
  assumes "ring_inv slots cap calls claims t"
  shows "\<And>k. k < length calls \<Longrightarrow> call_ok slots cap claims t (calls ! k)"
    and "\<And>k l c. k < length calls \<Longrightarrow> l < length calls \<Longrightarrow> call_index (calls ! k) = Some c \<Longrightarrow>
      call_index (calls ! l) = Some c \<Longrightarrow> k = l"
    and "\<And>n. t \<le> n \<Longrightarrow> n < length claims \<Longrightarrow>
      sl_ready (slots ! pos cap n) \<and> sl_value (slots ! pos cap n) = claims ! n
      \<or> (\<exists>k < length calls. call_index (calls ! k) = Some (of_nat n))"
    and "\<And>i. i < length slots \<Longrightarrow> sl_ready (slots ! i) \<Longrightarrow> \<exists>n. t \<le> n \<and> n < length claims \<and> i = pos cap n"
  using assms unfolding ring_inv_def by blast+

lemma call_okE:
  assumes "call_ok slots cap claims t pc" and "call_index pc = Some c"
  obtains n where "t \<le> n" "n < length claims" "c = of_nat n" "\<not> sl_ready (slots ! pos cap n)"
    "carries pc (slots ! pos cap n) (claims ! n)"
  using assms unfolding call_ok_def by blast

lemma ring_append:
  assumes r: "ring_inv slots cap calls claims t" and c: "call_index pc = None"
  shows "ring_inv slots cap (calls @ [pc]) claims t"
proof (rule ring_invI)
  show "call_ok slots cap claims t ((calls @ [pc]) ! k)" if "k < length (calls @ [pc])" for k
    using that ring_invD(1) [OF r, of k] c by (auto simp: nth_append call_ok_def)
  show "k = l" if "k < length (calls @ [pc])" "l < length (calls @ [pc])"
    "call_index ((calls @ [pc]) ! k) = Some x" "call_index ((calls @ [pc]) ! l) = Some x" for k l x
    using that ring_invD(2) [OF r, of k l x] c by (auto simp: nth_append split: if_splits)
  show "sl_ready (slots ! pos cap n) \<and> sl_value (slots ! pos cap n) = claims ! n
      \<or> (\<exists>k < length (calls @ [pc]). call_index ((calls @ [pc]) ! k) = Some (of_nat n))"
    if n: "t \<le> n" "n < length claims" for n
    using ring_invD(3) [OF r n] by (auto simp: nth_append intro: less_SucI)
qed (rule ring_invD(4) [OF r])

lemma ring_claim:
  assumes r: "ring_inv slots cap calls claims t" and k: "k < length calls" "call_index (calls ! k) = None"
    and w: "wrap_safe cap (Suc (length claims))" "length slots = cap" "0 < cap" "cap \<le> kMaxOutcomeCapacity"
      "t \<le> length claims" "length claims - t < cap"
  shows "ring_inv slots cap (calls[k := Claimed (of_nat (length claims)) x]) (claims @ [x]) t"
proof (rule ring_invI)
  let ?h = "length claims" and ?pc = "Claimed (of_nat (length claims)) x"
  have free: "\<not> sl_ready (slots ! pos cap ?h)"
  proof
    assume "sl_ready (slots ! pos cap ?h)"
    with ring_invD(4) [OF r, of "pos cap ?h"] w pos_less obtain n
      where n: "t \<le> n" "n < ?h" "pos cap ?h = pos cap n" by blast
    then have "?h - n < cap" using w(6) by linarith
    with n pos_inj [OF w(1), of ?h n] w show False by simp
  qed
  show "call_ok slots cap (claims @ [x]) t (calls[k := ?pc] ! l)" if "l < length (calls[k := ?pc])" for l
  proof (cases "l = k")
    case True
    with k(1) free w show ?thesis by (auto simp: call_ok_def intro!: exI [of _ ?h])
  next
    case False
    with that ring_invD(1) [OF r, of l] show ?thesis
      by (fastforce simp: call_ok_def nth_append)
  qed
  have fresh: "call_index (calls ! l) \<noteq> Some (of_nat ?h)" if "l < length calls" for l
  proof
    assume c: "call_index (calls ! l) = Some (of_nat ?h)"
    from ring_invD(1) [OF r that] c obtain n where n: "t \<le> n" "n < ?h" "(of_nat ?h :: u32) = of_nat n"
      unfolding call_ok_def by blast
    have "?h - n < 2 ^ 32" using n w by (simp add: kMaxOutcomeCapacity_def)
    with of_nat_u32_inj [of ?h n] n show False by simp
  qed
  show "i = l" if "i < length (calls[k := ?pc])" "l < length (calls[k := ?pc])"
    "call_index (calls[k := ?pc] ! i) = Some c" "call_index (calls[k := ?pc] ! l) = Some c" for i l c
    using that ring_invD(2) [OF r, of i l c] fresh [of i] fresh [of l]
    by (cases "i = k"; cases "l = k") auto
  show "sl_ready (slots ! pos cap n) \<and> sl_value (slots ! pos cap n) = (claims @ [x]) ! n
      \<or> (\<exists>l < length (calls[k := ?pc]). call_index (calls[k := ?pc] ! l) = Some (of_nat n))"
    if n: "t \<le> n" "n < length (claims @ [x])" for n
  proof (cases "n = ?h")
    case True
    with k(1) show ?thesis by (intro disjI2 exI [of _ k]) simp
  next
    case False
    then have lt: "n < ?h" using n(2) by simp
    from ring_invD(3) [OF r n(1) lt] show ?thesis
    proof
      assume "\<exists>l < length calls. call_index (calls ! l) = Some (of_nat n)"
      then obtain l where "l < length calls" "call_index (calls ! l) = Some (of_nat n)" by blast
      with k show ?thesis by (intro disjI2 exI [of _ l]) (auto simp: nth_list_update)
    qed (simp add: nth_append lt)
  qed
  show "\<exists>n. t \<le> n \<and> n < length (claims @ [x]) \<and> i = pos cap n" if "i < length slots" "sl_ready (slots ! i)" for i
    using ring_invD(4) [OF r that] by (auto intro: less_SucI)
qed

text \<open>A call that keeps its index and only writes the value of its own slot.\<close>

lemma ring_update:
  assumes r: "ring_inv slots cap calls claims t" and k: "k < length calls"
    and c: "call_index (calls ! k) = Some (of_nat m)" "call_index pc = Some (of_nat m)"
    and m: "t \<le> m" "m < length claims" "\<not> sl_ready (slots ! pos cap m)"
    and carry: "carries pc (slot) (claims ! m)" "\<not> sl_ready slot"
    and w: "wrap_safe cap (length claims)" "length slots = cap" "0 < cap" "length claims - t \<le> cap"
  shows "ring_inv (slots[pos cap m := slot]) cap (calls[k := pc]) claims t"
proof (rule ring_invI)
  let ?slots = "slots[pos cap m := slot]" and ?calls = "calls[k := pc]"
  have lt: "pos cap m < length slots" using w pos_less by simp
  have other: "?slots ! pos cap n = slots ! pos cap n" if n: "t \<le> n" "n < length claims" "n \<noteq> m" for n
  proof -
    have "n - m < cap" "m - n < cap" using n m w(4) by linarith+
    with pos_inj [OF w(1) n(2) m(2)] n(3) have "pos cap n \<noteq> pos cap m" by blast
    then show ?thesis by simp
  qed
  have idx: "call_index (?calls ! l) = call_index (calls ! l)" if "l < length calls" for l
    using c k by (cases "l = k") simp_all
  show "call_ok ?slots cap claims t (?calls ! l)" if l: "l < length ?calls" for l
  proof (cases "l = k")
    case True
    with k m carry lt c(2) show ?thesis by (auto simp: call_ok_def intro!: exI [of _ m])
  next
    case False
    show ?thesis unfolding call_ok_def
    proof (intro allI impI)
      fix x assume "call_index (?calls ! l) = Some x"
      with False have x: "call_index (calls ! l) = Some x" by simp
      have l': "l < length calls" using l by simp
      obtain n where n: "t \<le> n" "n < length claims" "x = of_nat n" "\<not> sl_ready (slots ! pos cap n)"
        "carries (calls ! l) (slots ! pos cap n) (claims ! n)"
        using call_okE [OF ring_invD(1) [OF r l'] x] by blast
      have "n \<noteq> m" using ring_invD(2) [OF r l' k x] c(1) n(3) False by blast
      with n other False show "\<exists>n. t \<le> n \<and> n < length claims \<and> x = of_nat n \<and> \<not> sl_ready (?slots ! pos cap n)
          \<and> carries (?calls ! l) (?slots ! pos cap n) (claims ! n)"
        by (intro exI [of _ n]) simp
    qed
  qed
  show "i = l" if "i < length ?calls" "l < length ?calls"
    "call_index (?calls ! i) = Some x" "call_index (?calls ! l) = Some x" for i l x
    using that ring_invD(2) [OF r, of i l x] idx by simp
  show "sl_ready (?slots ! pos cap n) \<and> sl_value (?slots ! pos cap n) = claims ! n
      \<or> (\<exists>l < length ?calls. call_index (?calls ! l) = Some (of_nat n))"
    if n: "t \<le> n" "n < length claims" for n
  proof (cases "n = m")
    case True
    with k c(2) show ?thesis by (intro disjI2 exI [of _ k]) simp
  next
    case False
    with ring_invD(3) [OF r n] other [OF n False] idx show ?thesis by auto
  qed
  show "\<exists>n. t \<le> n \<and> n < length claims \<and> i = pos cap n" if "i < length ?slots" "sl_ready (?slots ! i)" for i
    using that ring_invD(4) [OF r, of i] carry(2) lt by (cases "i = pos cap m") simp_all
qed

text \<open>Raising the ready flag hands the slot over.\<close>

lemma ring_ready:
  assumes r: "ring_inv slots cap calls claims t" and k: "k < length calls"
    and c: "call_index (calls ! k) = Some (of_nat m)" "call_index pc = None"
    and m: "t \<le> m" "m < length claims"
    and slot: "sl_value slot = claims ! m" "sl_ready slot"
    and w: "wrap_safe cap (length claims)" "length slots = cap" "0 < cap" "length claims - t \<le> cap"
      "cap \<le> kMaxOutcomeCapacity"
  shows "ring_inv (slots[pos cap m := slot]) cap (calls[k := pc]) claims t"
proof (rule ring_invI)
  let ?slots = "slots[pos cap m := slot]" and ?calls = "calls[k := pc]"
  have lt: "pos cap m < length slots" using w pos_less by simp
  have other: "?slots ! pos cap n = slots ! pos cap n" if n: "t \<le> n" "n < length claims" "n \<noteq> m" for n
  proof -
    have "n - m < cap" "m - n < cap" using n m w(4) by linarith+
    with pos_inj [OF w(1) n(2) m(2)] n(3) have "pos cap n \<noteq> pos cap m" by blast
    then show ?thesis by simp
  qed
  have idx: "call_index (?calls ! l) = (if l = k then None else call_index (calls ! l))" if "l < length calls" for l
    using c that by simp
  show "call_ok ?slots cap claims t (?calls ! l)" if l: "l < length ?calls" for l
    unfolding call_ok_def
  proof (intro allI impI)
    fix x assume a: "call_index (?calls ! l) = Some x"
    have l': "l < length calls" and False: "l \<noteq> k" and x: "call_index (calls ! l) = Some x"
      using l a idx by (auto split: if_splits)
    obtain n where n: "t \<le> n" "n < length claims" "x = of_nat n" "\<not> sl_ready (slots ! pos cap n)"
      "carries (calls ! l) (slots ! pos cap n) (claims ! n)"
      using call_okE [OF ring_invD(1) [OF r l'] x] by blast
    have "n \<noteq> m" using ring_invD(2) [OF r l' k x] c(1) n(3) False by blast
    with n other False show "\<exists>n. t \<le> n \<and> n < length claims \<and> x = of_nat n \<and> \<not> sl_ready (?slots ! pos cap n)
        \<and> carries (?calls ! l) (?slots ! pos cap n) (claims ! n)"
      by (intro exI [of _ n]) simp
  qed
  show "i = l" if "i < length ?calls" "l < length ?calls"
    "call_index (?calls ! i) = Some x" "call_index (?calls ! l) = Some x" for i l x
    using that ring_invD(2) [OF r, of i l x] idx by (auto split: if_splits)
  show "sl_ready (?slots ! pos cap n) \<and> sl_value (?slots ! pos cap n) = claims ! n
      \<or> (\<exists>l < length ?calls. call_index (?calls ! l) = Some (of_nat n))"
    if n: "t \<le> n" "n < length claims" for n
  proof (cases "n = m")
    case True
    with slot lt show ?thesis by simp
  next
    case False
    from ring_invD(3) [OF r n] show ?thesis
    proof
      assume "\<exists>l < length calls. call_index (calls ! l) = Some (of_nat n)"
      then obtain l where l: "l < length calls" "call_index (calls ! l) = Some (of_nat n)" by blast
      have "n - m < 2 ^ 32" "m - n < 2 ^ 32" using n m w(4,5) by (simp_all add: kMaxOutcomeCapacity_def)
      then have "l \<noteq> k" using l c(1) of_nat_u32_inj [of n m] False by auto
      with l show ?thesis by (intro disjI2 exI [of _ l]) simp
    qed (simp add: other [OF n False])
  qed
  show "\<exists>n. t \<le> n \<and> n < length claims \<and> i = pos cap n" if "i < length ?slots" "sl_ready (?slots ! i)" for i
    using that ring_invD(4) [OF r, of i] m lt by (cases "i = pos cap m") auto
qed

text \<open>The consumer takes the oldest outcome.\<close>

lemma ring_take:
  assumes r: "ring_inv slots cap calls claims t" and rd: "sl_ready (slots ! pos cap t)"
    and w: "wrap_safe cap (length claims)" "length slots = cap" "0 < cap" "length claims - t \<le> cap" "t \<le> length claims"
    and slot: "\<not> sl_ready slot" and max: "cap \<le> kMaxOutcomeCapacity"
  shows "t < length claims \<and> sl_value (slots ! pos cap t) = claims ! t
    \<and> ring_inv (slots[pos cap t := slot]) cap calls claims (Suc t)"
proof -
  have lt: "pos cap t < length slots" using w pos_less by simp
  from ring_invD(4) [OF r lt rd] have t: "t < length claims" by (auto intro: le_less_trans)
  have apart: "pos cap n \<noteq> pos cap t" if n: "t \<le> n" "n < length claims" "n \<noteq> t" for n
  proof -
    have "n - t < cap" using n w(4) by linarith
    with pos_inj [OF w(1) n(2) t] n w(3) show ?thesis by auto
  qed
  have calls: "\<exists>n. Suc t \<le> n \<and> n < length claims \<and> x = of_nat n
      \<and> \<not> sl_ready (slots[pos cap t := slot] ! pos cap n)
      \<and> carries (calls ! l) (slots[pos cap t := slot] ! pos cap n) (claims ! n)"
    if "l < length calls" "call_index (calls ! l) = Some x" for l x
  proof -
    from ring_invD(1) [OF r that(1)] that(2) obtain n where n: "t \<le> n" "n < length claims" "x = of_nat n"
      "\<not> sl_ready (slots ! pos cap n)" "carries (calls ! l) (slots ! pos cap n) (claims ! n)"
      unfolding call_ok_def by blast
    then have "n \<noteq> t" using rd by auto
    with n apart [OF n(1,2)] show ?thesis by (intro exI [of _ n]) simp
  qed
  have none: "call_index (calls ! l) \<noteq> Some (of_nat t)" if "l < length calls" for l
  proof
    assume a: "call_index (calls ! l) = Some (of_nat t)"
    from ring_invD(1) [OF r that] a obtain n where n: "t \<le> n" "n < length claims" "(of_nat t :: u32) = of_nat n"
      "\<not> sl_ready (slots ! pos cap n)" unfolding call_ok_def by blast
    have "n - t < 2 ^ 32" using n w(4) max by (simp add: kMaxOutcomeCapacity_def)
    with of_nat_u32_inj [of n t] n rd show False by simp
  qed
  have "ring_inv (slots[pos cap t := slot]) cap calls claims (Suc t)"
  proof (rule ring_invI)
    show "call_ok (slots[pos cap t := slot]) cap claims (Suc t) (calls ! l)" if "l < length calls" for l
      using calls [OF that] unfolding call_ok_def by blast
    show "i = l" if "i < length calls" "l < length calls" "call_index (calls ! i) = Some x"
      "call_index (calls ! l) = Some x" for i l x
      using that by (rule ring_invD(2) [OF r])
    show "sl_ready (slots[pos cap t := slot] ! pos cap n) \<and> sl_value (slots[pos cap t := slot] ! pos cap n) = claims ! n
        \<or> (\<exists>l < length calls. call_index (calls ! l) = Some (of_nat n))"
      if n: "Suc t \<le> n" "n < length claims" for n
      using ring_invD(3) [OF r, of n] n apart [of n] by simp
    show "\<exists>n. Suc t \<le> n \<and> n < length claims \<and> i = pos cap n"
      if i: "i < length (slots[pos cap t := slot])" "sl_ready (slots[pos cap t := slot] ! i)" for i
    proof -
      have ne: "i \<noteq> pos cap t" using i slot lt by auto
      with i have "i < length slots" "sl_ready (slots ! i)" by simp_all
      from ring_invD(4) [OF r this] obtain n where n: "t \<le> n" "n < length claims" "i = pos cap n" by blast
      with ne have "n \<noteq> t" by blast
      with n show ?thesis by (intro exI [of _ n]) simp
    qed
  qed
  with t ring_invD(3) [OF r, of t] none show ?thesis by auto
qed

subsection \<open>The channel\<close>

lemma channel_invD:
  assumes "channel_inv y"
  shows "0 < oc_capacity (ch_state y)" "oc_capacity (ch_state y) \<le> kMaxOutcomeCapacity"
    "length (oc_slots (ch_state y)) = oc_capacity (ch_state y)"
    "oc_head (ch_state y) = of_nat (length (ch_claims y))" "oc_tail (ch_state y) = of_nat (length (ch_taken y))"
    "length (ch_taken y) \<le> length (ch_claims y)" "ch_taken y = take (length (ch_taken y)) (ch_claims y)"
    "\<not> ch_terminated y"
    "oc_available (ch_state y) + length (filter live (ch_reservations y)) + length (filter is_starting (ch_calls y))
       + (length (ch_claims y) - length (ch_taken y)) + of_bool (ch_owed y) = oc_capacity (ch_state y)"
    "ring_inv (oc_slots (ch_state y)) (oc_capacity (ch_state y)) (ch_calls y) (ch_claims y) (length (ch_taken y))"
  using assms unfolding channel_inv_def Let_def by blast+

lemma channel_invI:
  assumes "0 < oc_capacity (ch_state y)" "oc_capacity (ch_state y) \<le> kMaxOutcomeCapacity"
    "length (oc_slots (ch_state y)) = oc_capacity (ch_state y)"
    "oc_head (ch_state y) = of_nat (length (ch_claims y))" "oc_tail (ch_state y) = of_nat (length (ch_taken y))"
    "length (ch_taken y) \<le> length (ch_claims y)" "ch_taken y = take (length (ch_taken y)) (ch_claims y)"
    "\<not> ch_terminated y"
    "oc_available (ch_state y) + length (filter live (ch_reservations y)) + length (filter is_starting (ch_calls y))
       + (length (ch_claims y) - length (ch_taken y)) + of_bool (ch_owed y) = oc_capacity (ch_state y)"
    "ring_inv (oc_slots (ch_state y)) (oc_capacity (ch_state y)) (ch_calls y) (ch_claims y) (length (ch_taken y))"
  shows "channel_inv y"
  using assms unfolding channel_inv_def Let_def by blast

text \<open>Steps that only move credits between the cell and the reservations.\<close>

lemma credits_inv:
  assumes inv: "channel_inv y"
    and s: "oc_capacity s = oc_capacity (ch_state y)" "oc_slots s = oc_slots (ch_state y)"
      "oc_head s = oc_head (ch_state y)" "oc_tail s = oc_tail (ch_state y)"
    and credit: "oc_available s + length (filter live res) + of_bool owed
      = oc_available (ch_state y) + length (filter live (ch_reservations y)) + of_bool (ch_owed y)"
  shows "channel_inv (y\<lparr>ch_state := s, ch_reservations := res, ch_owed := owed\<rparr>)"
proof (rule channel_invI)
  show "oc_available (ch_state (y\<lparr>ch_state := s, ch_reservations := res, ch_owed := owed\<rparr>))
      + length (filter live (ch_reservations (y\<lparr>ch_state := s, ch_reservations := res, ch_owed := owed\<rparr>)))
      + length (filter is_starting (ch_calls (y\<lparr>ch_state := s, ch_reservations := res, ch_owed := owed\<rparr>)))
      + (length (ch_claims (y\<lparr>ch_state := s, ch_reservations := res, ch_owed := owed\<rparr>))
         - length (ch_taken (y\<lparr>ch_state := s, ch_reservations := res, ch_owed := owed\<rparr>)))
      + of_bool (ch_owed (y\<lparr>ch_state := s, ch_reservations := res, ch_owed := owed\<rparr>))
      = oc_capacity (ch_state (y\<lparr>ch_state := s, ch_reservations := res, ch_owed := owed\<rparr>))"
    using channel_invD(9) [OF inv] credit s(1) by simp
qed (use channel_invD [OF inv] s in simp_all)

lemma available_bound: "channel_inv y \<Longrightarrow> oc_available (ch_state y) \<le> 1048576"
  using channel_invD(2,9) [of y] unfolding kMaxOutcomeCapacity_def by linarith

lemma restore_available:
  "channel_inv y \<Longrightarrow> oc_available (restore_credit (ch_state y)) = Suc (oc_available (ch_state y))"
  using available_bound [of y] by (simp add: restore_credit_def)

lemma restore_frame [simp]:
  "oc_capacity (restore_credit s) = oc_capacity s" "oc_slots (restore_credit s) = oc_slots s"
  "oc_head (restore_credit s) = oc_head s" "oc_tail (restore_credit s) = oc_tail s"
  by (simp_all add: restore_credit_def)

lemma reserve_inv:
  assumes inv: "channel_inv y" and res: "TryReserve (ch_state y) = (v, s)"
  shows "channel_inv (y\<lparr>ch_state := s, ch_reservations := ch_reservations y @ (case v of None \<Rightarrow> [] | Some v \<Rightarrow> [v])\<rparr>)"
proof -
  have "oc_capacity s = oc_capacity (ch_state y)" "oc_slots s = oc_slots (ch_state y)"
      "oc_head s = oc_head (ch_state y)" "oc_tail s = oc_tail (ch_state y)"
      "oc_available s + (case v of None \<Rightarrow> 0 | Some v \<Rightarrow> if live v then 1 else 0) = oc_available (ch_state y)"
    using res by (auto simp: TryReserve_def TryReserve_body_def cas_apply_def live_def Let_def split: if_splits)
  with credits_inv [OF inv, of s "ch_reservations y @ (case v of None \<Rightarrow> [] | Some v \<Rightarrow> [v])" "ch_owed y"]
  show ?thesis by (simp split: option.splits if_splits)
qed

lemma Finalize_credit:
  assumes "channel_inv y" and "Finalize v (ch_state y) = (w, s)"
  shows "\<not> live w" "oc_capacity s = oc_capacity (ch_state y)" "oc_slots s = oc_slots (ch_state y)"
    "oc_head s = oc_head (ch_state y)" "oc_tail s = oc_tail (ch_state y)"
    "oc_available s = oc_available (ch_state y) + of_bool (live v)"
  using assms restore_available [OF assms(1)] by (auto simp: Finalize_def live_def)

lemma cancel_inv:
  assumes inv: "channel_inv y" and i: "i < length (ch_reservations y)"
    and c: "Cancel (ch_reservations y ! i) (ch_state y) = (v, s)"
  shows "channel_inv (y\<lparr>ch_state := s, ch_reservations := (ch_reservations y)[i := v]\<rparr>)"
proof -
  note f = Finalize_credit [OF inv c [unfolded Cancel_def]]
  have "oc_available s + length (filter live ((ch_reservations y)[i := v])) + of_bool (ch_owed y)
      = oc_available (ch_state y) + length (filter live (ch_reservations y)) + of_bool (ch_owed y)"
    using length_filter_update [OF i, of live v] f(1,6) by (auto split: if_splits)
  from credits_inv [OF inv f(2-5) this] show ?thesis by simp
qed

lemma move_inv:
  assumes inv: "channel_inv y" and i: "i < length (ch_reservations y)"
    and m: "Reservation_move (ch_reservations y ! i) = (v, w)"
  shows "channel_inv (y\<lparr>ch_reservations := (ch_reservations y)[i := w] @ [v]\<rparr>)"
proof -
  have "live v = live (ch_reservations y ! i)" "\<not> live w" using m by (auto simp: Reservation_move_def live_def)
  then have "oc_available (ch_state y) + length (filter live ((ch_reservations y)[i := w] @ [v])) + of_bool (ch_owed y)
      = oc_available (ch_state y) + length (filter live (ch_reservations y)) + of_bool (ch_owed y)"
    using length_filter_update [OF i, of live w] by (auto split: if_splits)
  from credits_inv [OF inv refl refl refl refl this] show ?thesis by simp
qed

lemma move_assign_inv:
  assumes inv: "channel_inv y" and ij: "i < length (ch_reservations y)" "j < length (ch_reservations y)" "i \<noteq> j"
    and m: "Reservation_move_assign (ch_reservations y ! i) (ch_reservations y ! j) (ch_state y) = ((v, w), s)"
  shows "channel_inv (y\<lparr>ch_state := s, ch_reservations := (ch_reservations y)[i := v, j := w]\<rparr>)"
proof -
  obtain u where fin: "Finalize (ch_reservations y ! i) (ch_state y) = (u, s)"
    and vw: "live v = live (ch_reservations y ! j)" "\<not> live w"
    using m by (auto simp: Reservation_move_assign_def Reservation_move_def live_def split: prod.splits)
  note f = Finalize_credit [OF inv fin]
  have "oc_available s + length (filter live ((ch_reservations y)[i := v, j := w])) + of_bool (ch_owed y)
      = oc_available (ch_state y) + length (filter live (ch_reservations y)) + of_bool (ch_owed y)"
    using length_filter_update [OF ij(1), of live v] length_filter_update [of j "(ch_reservations y)[i := v]" live w]
      ij f(6) vw by (auto split: if_splits)
  from credits_inv [OF inv f(2-5) this] show ?thesis by simp
qed

lemma reservation_publish_inv:
  assumes inv: "channel_inv y" and i: "i < length (ch_reservations y)"
    and p: "Publish (ch_reservations y ! i) = (run, v)"
  shows "channel_inv (y\<lparr>ch_reservations := (ch_reservations y)[i := v],
    ch_calls := ch_calls y @ (if run then [Starting result] else [])\<rparr>)" (is "channel_inv ?y")
proof (rule channel_invI)
  note d = channel_invD [OF inv]
  have v: "run = live (ch_reservations y ! i)" "\<not> live v"
    using p by (auto simp: Publish_def live_def split: if_splits)
  show "oc_available (ch_state ?y) + length (filter live (ch_reservations ?y)) + length (filter is_starting (ch_calls ?y))
      + (length (ch_claims ?y) - length (ch_taken ?y)) + of_bool (ch_owed ?y) = oc_capacity (ch_state ?y)"
    using length_filter_update [OF i, of live v] v d(9) by (auto split: if_splits)
  show "ring_inv (oc_slots (ch_state ?y)) (oc_capacity (ch_state ?y)) (ch_calls ?y) (ch_claims ?y) (length (ch_taken ?y))"
    using ring_append [OF d(10), of "Starting result"] d(10) by simp
qed (use channel_invD [OF inv] in simp_all)

lemma starting_pos:
  assumes "k < length calls" and "calls ! k = Starting r"
  shows "0 < length (filter is_starting calls)"
proof -
  have "Starting r \<in> set (filter is_starting calls)" using assms nth_mem [OF assms(1)] by simp
  then show ?thesis by (metis length_pos_if_in_set)
qed

lemma enqueue_claim_inv:
  assumes inv: "channel_inv y" and k: "k < length (ch_calls y)" "ch_calls y ! k = Starting result"
    and c: "enqueue_claim (ch_state y) = (claimed, s)"
    and w: "wrap_safe (oc_capacity (ch_state y)) (Suc (length (ch_claims y)))"
  shows "channel_inv (y\<lparr>ch_state := s, ch_calls := (ch_calls y)[k := Claimed claimed result],
    ch_claims := ch_claims y @ [result]\<rparr>)" (is "channel_inv ?y")
proof (rule channel_invI)
  note d = channel_invD [OF inv]
  have s: "s = (ch_state y)\<lparr>oc_head := oc_head (ch_state y) + 1\<rparr>" "claimed = of_nat (length (ch_claims y))"
    using c d(4) by (auto simp: enqueue_claim_def)
  have st: "Suc (length (filter is_starting (ch_calls ?y))) = length (filter is_starting (ch_calls y))"
    using length_filter_update [OF k(1), of is_starting "Claimed claimed result"] k(2) by simp
  then show "oc_available (ch_state ?y) + length (filter live (ch_reservations ?y)) + length (filter is_starting (ch_calls ?y))
      + (length (ch_claims ?y) - length (ch_taken ?y)) + of_bool (ch_owed ?y) = oc_capacity (ch_state ?y)"
    using d(6,9) s by simp
  have "length (ch_claims y) - length (ch_taken y) < oc_capacity (ch_state y)"
    using d(9) starting_pos [OF k] by linarith
  with ring_claim [OF d(10) k(1) _ w d(3,1,2,6), of result] k(2)
  show "ring_inv (oc_slots (ch_state ?y)) (oc_capacity (ch_state ?y)) (ch_calls ?y) (ch_claims ?y) (length (ch_taken ?y))"
    by (simp add: s)
  show "oc_head (ch_state ?y) = of_nat (length (ch_claims ?y))" using d(4) by (simp add: s)
  show "ch_taken ?y = take (length (ch_taken ?y)) (ch_claims ?y)" using d(6,7) by simp
qed (use channel_invD [OF inv] c in \<open>auto simp: enqueue_claim_def\<close>)

text \<open>A call in flight is inside the window, so its check passes.\<close>

lemma call_window:
  assumes inv: "channel_inv y" and k: "k < length (ch_calls y)" "call_index (ch_calls y ! k) = Some claimed"
  obtains n where "length (ch_taken y) \<le> n" "n < length (ch_claims y)" "claimed = of_nat n"
    "\<not> sl_ready (oc_slots (ch_state y) ! pos (oc_capacity (ch_state y)) n)"
    "carries (ch_calls y ! k) (oc_slots (ch_state y) ! pos (oc_capacity (ch_state y)) n) (ch_claims y ! n)"
    "slot_index (ch_state y) claimed = pos (oc_capacity (ch_state y)) n" "enqueue_check (ch_state y) claimed"
proof -
  note d = channel_invD [OF inv]
  from ring_invD(1) [OF d(10) k(1)] k(2) obtain n where n: "length (ch_taken y) \<le> n" "n < length (ch_claims y)"
    "claimed = of_nat n" "\<not> sl_ready (oc_slots (ch_state y) ! pos (oc_capacity (ch_state y)) n)"
    "carries (ch_calls y ! k) (oc_slots (ch_state y) ! pos (oc_capacity (ch_state y)) n) (ch_claims y ! n)"
    unfolding call_ok_def by blast
  have lt: "n - length (ch_taken y) < oc_capacity (ch_state y)" using n(1,2) d(9) by linarith
  have "claimed - oc_tail (ch_state y) = of_nat (n - length (ch_taken y))"
    using n(1,3) d(5) by (simp add: of_nat_diff)
  then have "unat (claimed - oc_tail (ch_state y)) \<le> n - length (ch_taken y)"
    by (simp add: unat_of_nat take_bit_nat_less_eq_self)
  with lt have "enqueue_check (ch_state y) claimed" unfolding enqueue_check_def by linarith
  moreover have "slot_index (ch_state y) claimed = pos (oc_capacity (ch_state y)) n"
    by (simp add: slot_index_def pos_def n(3))
  ultimately show ?thesis using that n by blast
qed

lemma window_le: "channel_inv y \<Longrightarrow> length (ch_claims y) - length (ch_taken y) \<le> oc_capacity (ch_state y)"
  using channel_invD(9) [of y] by linarith

lemma flight_inv:
  assumes inv: "channel_inv y" and k: "k < length (ch_calls y)" "call_index (ch_calls y ! k) = Some claimed"
    and ring: "ring_inv slots (oc_capacity (ch_state y)) ((ch_calls y)[k := pc]) (ch_claims y) (length (ch_taken y))"
    and len: "length slots = oc_capacity (ch_state y)" and pc: "\<not> is_starting pc"
  shows "channel_inv (y\<lparr>ch_state := (ch_state y)\<lparr>oc_slots := slots\<rparr>, ch_calls := (ch_calls y)[k := pc]\<rparr>)"
    (is "channel_inv ?y")
proof (rule channel_invI)
  have "\<not> is_starting (ch_calls y ! k)" using k(2) by (cases "ch_calls y ! k") simp_all
  then have "length (filter is_starting (ch_calls ?y)) = length (filter is_starting (ch_calls y))"
    using length_filter_update [OF k(1), of is_starting pc] pc by simp
  then show "oc_available (ch_state ?y) + length (filter live (ch_reservations ?y)) + length (filter is_starting (ch_calls ?y))
      + (length (ch_claims ?y) - length (ch_taken ?y)) + of_bool (ch_owed ?y) = oc_capacity (ch_state ?y)"
    using channel_invD(9) [OF inv] by simp
qed (use channel_invD [OF inv] ring len in simp_all)

lemma check_inv:
  assumes inv: "channel_inv y" and k: "k < length (ch_calls y)" "ch_calls y ! k = Claimed claimed result"
    and w: "wrap_safe (oc_capacity (ch_state y)) (length (ch_claims y))"
  shows "channel_inv (y\<lparr>ch_calls := (ch_calls y)[k := Checked claimed result]\<rparr>)"
proof -
  note d = channel_invD [OF inv]
  have c: "call_index (ch_calls y ! k) = Some claimed" using k(2) by simp
  obtain n where n: "length (ch_taken y) \<le> n" "n < length (ch_claims y)" "claimed = of_nat n"
    "\<not> sl_ready (oc_slots (ch_state y) ! pos (oc_capacity (ch_state y)) n)"
    "carries (ch_calls y ! k) (oc_slots (ch_state y) ! pos (oc_capacity (ch_state y)) n) (ch_claims y ! n)"
    using call_window [OF inv k(1) c] by blast
  let ?p = "pos (oc_capacity (ch_state y)) n"
  have "ring_inv ((oc_slots (ch_state y))[?p := oc_slots (ch_state y) ! ?p]) (oc_capacity (ch_state y))
      ((ch_calls y)[k := Checked claimed result]) (ch_claims y) (length (ch_taken y))"
    by (rule ring_update [OF d(10) k(1) _ _ n(1,2,4) _ n(4) w d(3,1) window_le [OF inv]])
      (use n k in simp_all)
  from flight_inv [OF inv k(1) c this] d(3) show ?thesis by simp
qed

lemma store_inv:
  assumes inv: "channel_inv y" and k: "k < length (ch_calls y)" "ch_calls y ! k = Checked claimed result"
    and w: "wrap_safe (oc_capacity (ch_state y)) (length (ch_claims y))"
  shows "channel_inv (y\<lparr>ch_state := enqueue_write (ch_state y) claimed result,
    ch_calls := (ch_calls y)[k := Written claimed]\<rparr>)"
proof -
  note d = channel_invD [OF inv]
  have c: "call_index (ch_calls y ! k) = Some claimed" using k(2) by simp
  obtain n where n: "length (ch_taken y) \<le> n" "n < length (ch_claims y)" "claimed = of_nat n"
    "\<not> sl_ready (oc_slots (ch_state y) ! pos (oc_capacity (ch_state y)) n)"
    "carries (ch_calls y ! k) (oc_slots (ch_state y) ! pos (oc_capacity (ch_state y)) n) (ch_claims y ! n)"
    "slot_index (ch_state y) claimed = pos (oc_capacity (ch_state y)) n"
    using call_window [OF inv k(1) c] by blast
  let ?p = "pos (oc_capacity (ch_state y)) n"
  let ?slots = "(oc_slots (ch_state y))[?p := (oc_slots (ch_state y) ! ?p)\<lparr>sl_value := result\<rparr>]"
  have "ring_inv ?slots (oc_capacity (ch_state y)) ((ch_calls y)[k := Written claimed]) (ch_claims y) (length (ch_taken y))"
    by (rule ring_update [OF d(10) k(1) _ _ n(1,2,4) _ _ w d(3,1) window_le [OF inv]])
      (use n k in simp_all)
  from flight_inv [OF inv k(1) c this] d(3) show ?thesis by (simp add: enqueue_write_def n(6))
qed

lemma ready_inv:
  assumes inv: "channel_inv y" and k: "k < length (ch_calls y)" "ch_calls y ! k = Written claimed"
    and w: "wrap_safe (oc_capacity (ch_state y)) (length (ch_claims y))"
  shows "channel_inv (y\<lparr>ch_state := enqueue_ready (ch_state y) claimed, ch_calls := (ch_calls y)[k := Finished]\<rparr>)"
proof -
  note d = channel_invD [OF inv]
  have c: "call_index (ch_calls y ! k) = Some claimed" using k(2) by simp
  obtain n where n: "length (ch_taken y) \<le> n" "n < length (ch_claims y)" "claimed = of_nat n"
    "\<not> sl_ready (oc_slots (ch_state y) ! pos (oc_capacity (ch_state y)) n)"
    "carries (ch_calls y ! k) (oc_slots (ch_state y) ! pos (oc_capacity (ch_state y)) n) (ch_claims y ! n)"
    "slot_index (ch_state y) claimed = pos (oc_capacity (ch_state y)) n"
    using call_window [OF inv k(1) c] by blast
  let ?p = "pos (oc_capacity (ch_state y)) n"
  let ?slots = "(oc_slots (ch_state y))[?p := (oc_slots (ch_state y) ! ?p)\<lparr>sl_ready := True\<rparr>]"
  have "ring_inv ?slots (oc_capacity (ch_state y)) ((ch_calls y)[k := Finished]) (ch_claims y) (length (ch_taken y))"
    by (rule ring_ready [OF d(10) k(1) _ _ n(1,2) _ _ w d(3,1) window_le [OF inv] d(2)])
      (use n k in simp_all)
  from flight_inv [OF inv k(1) c this] d(3) show ?thesis by (simp add: enqueue_ready_def n(6))
qed

lemma take_inv:
  assumes inv: "channel_inv y" and owed: "\<not> ch_owed y" and take: "drain_take (ch_state y) = Some (result, s)"
    and w: "wrap_safe (oc_capacity (ch_state y)) (length (ch_claims y))"
  shows "channel_inv (y\<lparr>ch_state := s, ch_taken := ch_taken y @ [result], ch_owed := True\<rparr>)" (is "channel_inv ?y")
proof -
  note d = channel_invD [OF inv]
  let ?t = "length (ch_taken y)" and ?cap = "oc_capacity (ch_state y)"
  have idx: "slot_index (ch_state y) (oc_tail (ch_state y)) = pos ?cap ?t"
    by (simp add: slot_index_def pos_def d(5))
  have s: "sl_ready (oc_slots (ch_state y) ! pos ?cap ?t)" "result = sl_value (oc_slots (ch_state y) ! pos ?cap ?t)"
    "s = (ch_state y)\<lparr>oc_slots := (oc_slots (ch_state y))[pos ?cap ?t := \<lparr>sl_value = empty_result, sl_ready = False\<rparr>],
       oc_tail := oc_tail (ch_state y) + 1\<rparr>"
    using take by (auto simp: drain_take_def idx Let_def split: if_splits)
  from ring_take [OF d(10) s(1) w d(3,1) window_le [OF inv] d(6) _ d(2),
      of "\<lparr>sl_value = empty_result, sl_ready = False\<rparr>"]
  have r: "?t < length (ch_claims y)" "result = ch_claims y ! ?t"
    "ring_inv (oc_slots s) ?cap (ch_calls y) (ch_claims y) (Suc ?t)" by (simp_all add: s)
  show ?thesis
  proof (rule channel_invI)
    show "ch_taken ?y = take (length (ch_taken ?y)) (ch_claims ?y)"
      using d(7) r(1,2) by (simp add: take_Suc_conv_app_nth)
    show "oc_available (ch_state ?y) + length (filter live (ch_reservations ?y)) + length (filter is_starting (ch_calls ?y))
      + (length (ch_claims ?y) - length (ch_taken ?y)) + of_bool (ch_owed ?y) = oc_capacity (ch_state ?y)"
      using d(9) r(1) owed by (simp add: s(3))
  qed (use d r s(3) in simp_all)
qed

lemma credit_inv:
  assumes "channel_inv y" and "ch_owed y"
  shows "channel_inv (y\<lparr>ch_state := restore_credit (ch_state y), ch_owed := False\<rparr>)"
  using credits_inv [OF assms(1), of "restore_credit (ch_state y)" "ch_reservations y" False]
    restore_available [OF assms(1)] assms(2) by simp

lemma channel_step_frame:
  assumes "channel_step y y'"
  shows "length (ch_claims y) \<le> length (ch_claims y')"
    and "oc_capacity (ch_state y') = oc_capacity (ch_state y)"
  using assms
  by (cases rule: channel_step.cases;
      auto simp: TryReserve_def Cancel_def Finalize_def Reservation_move_assign_def enqueue_claim_def enqueue_write_def
        enqueue_ready_def drain_take_def BeginStopping_def Let_def split: if_splits prod.splits)+

lemma wrap_safe_mono: "wrap_safe cap h \<Longrightarrow> h' \<le> h \<Longrightarrow> wrap_safe cap h'"
  by (auto simp: wrap_safe_def)

lemma channel_step_inv:
  assumes step: "channel_step y y'" and inv: "channel_inv y"
    and w: "wrap_safe (oc_capacity (ch_state y)) (length (ch_claims y'))"
  shows "channel_inv y'"
proof -
  note w' = wrap_safe_mono [OF w channel_step_frame(1) [OF step]]
  from step show ?thesis
  proof (cases rule: channel_step.cases)
    case (reserve v s)
    with reserve_inv [OF inv reserve(2)] show ?thesis by simp
  next
    case (reserve_refused s)
    with reserve_inv [OF inv reserve_refused(2)] show ?thesis by simp
  next
    case (publish i run v result)
    with reservation_publish_inv [OF inv] show ?thesis by simp
  next
    case (cancel i v s)
    with cancel_inv [OF inv] show ?thesis by simp
  next
    case (move i v w)
    with move_inv [OF inv] show ?thesis by simp
  next
    case (move_assign i j v w s)
    with move_assign_inv [OF inv] show ?thesis by simp
  next
    case (claim k result claimed s)
    with enqueue_claim_inv [OF inv] w show ?thesis by simp
  next
    case (check k claimed result)
    with check_inv [OF inv _ _ w'] show ?thesis by simp
  next
    case (overflow k claimed result)
    then have "call_index (ch_calls y ! k) = Some claimed" by simp
    with call_window [OF inv overflow(2) this] overflow(4) show ?thesis by blast
  next
    case (store k claimed result)
    with store_inv [OF inv _ _ w'] show ?thesis by simp
  next
    case (ready k claimed)
    with ready_inv [OF inv _ _ w'] show ?thesis by simp
  next
    case (take result s)
    with take_inv [OF inv _ _ w'] show ?thesis by simp
  next
    case credit
    with credit_inv [OF inv] show ?thesis by simp
  next
    case stop
    with credits_inv [OF inv, of "BeginStopping (ch_state y)" "ch_reservations y" "ch_owed y"] show ?thesis
      by (simp add: BeginStopping_def)
  qed
qed

lemma channel_init_inv:
  assumes "OutcomeChannel_new fd cap = Inr s"
  shows "channel_inv (channel_init s)" and "oc_capacity s = cap"
proof -
  from assms have s: "0 < cap" "cap \<le> kMaxOutcomeCapacity" "s = \<lparr>oc_accepting = True, oc_available = cap, oc_head = 0,
      oc_tail = 0, oc_rejected = 0, oc_capacity = cap, oc_wake_fd = fd,
      oc_slots = replicate cap \<lparr>sl_value = empty_result, sl_ready = False\<rparr>\<rparr>"
    by (auto simp: OutcomeChannel_new_def split: if_splits)
  then show "oc_capacity s = cap" by simp
  have "ring_inv (oc_slots s) cap [] [] 0" by (rule ring_invI) (simp_all add: s)
  then show "channel_inv (channel_init s)"
    by (intro channel_invI) (simp_all add: channel_init_def s)
qed

lemma channel_reachable:
  assumes new: "OutcomeChannel_new fd cap = Inr s" and run: "channel_step\<^sup>*\<^sup>* (channel_init s) y"
    and w: "wrap_safe cap (length (ch_claims y))"
  shows "channel_inv y \<and> oc_capacity (ch_state y) = cap"
  using run w
proof (induction rule: rtranclp_induct)
  case base
  then show ?case using channel_init_inv [OF new] by (simp add: channel_init_def)
next
  case (step y z)
  then have "channel_inv y \<and> oc_capacity (ch_state y) = cap"
    using wrap_safe_mono [OF step.prems channel_step_frame(1) [OF step.hyps(2)]] by blast
  with step channel_step_inv [OF step.hyps(2)] channel_step_frame(2) [OF step.hyps(2)] show ?case by simp
qed

section \<open>Refinement of a first-in first-out queue\<close>

text \<open>
  The specification: a bounded queue of outcomes and the list of delivered ones.  An outcome
  enters the queue when its producer claims a position; the consumer removes the oldest.
\<close>

inductive fifo_step :: "nat \<Rightarrow> attempt_result list \<times> attempt_result list \<Rightarrow> attempt_result list \<times> attempt_result list \<Rightarrow> bool"
  for cap :: nat where
  enter: "length q < cap \<Longrightarrow> fifo_step cap (q, delivered) (q @ [r], delivered)"
| deliver: "fifo_step cap (r # q, delivered) (q, delivered @ [r])"
| stutter: "fifo_step cap x x"

definition fifo_of :: "channel_system \<Rightarrow> attempt_result list \<times> attempt_result list" where
  "fifo_of y = (drop (length (ch_taken y)) (ch_claims y), ch_taken y)"

lemma channel_step_claims:
  assumes "channel_step y y'"
  shows "ch_claims y' = ch_claims y \<and> ch_taken y' = ch_taken y
    \<or> (\<exists>r. ch_claims y' = ch_claims y @ [r] \<and> ch_taken y' = ch_taken y)
    \<or> (\<exists>r. ch_claims y' = ch_claims y \<and> ch_taken y' = ch_taken y @ [r])"
  using assms by (cases rule: channel_step.cases) simp_all

lemma fifo_simulation:
  assumes step: "channel_step y y'" and inv: "channel_inv y" and inv': "channel_inv y'"
  shows "fifo_step (oc_capacity (ch_state y)) (fifo_of y) (fifo_of y')"
  using channel_step_claims [OF step]
proof (elim disjE exE conjE)
  assume "ch_claims y' = ch_claims y" "ch_taken y' = ch_taken y"
  then show ?thesis by (simp add: fifo_of_def fifo_step.stutter)
next
  fix r assume r: "ch_claims y' = ch_claims y @ [r]" "ch_taken y' = ch_taken y"
  have "length (ch_claims y') - length (ch_taken y') \<le> oc_capacity (ch_state y)"
    using window_le [OF inv'] channel_step_frame(2) [OF step] by simp
  then have "length (drop (length (ch_taken y)) (ch_claims y)) < oc_capacity (ch_state y)"
    using r channel_invD(6) [OF inv] by simp
  with r channel_invD(6) [OF inv] fifo_step.enter show ?thesis by (simp add: fifo_of_def)
next
  fix r assume r: "ch_claims y' = ch_claims y" "ch_taken y' = ch_taken y @ [r]"
  let ?t = "length (ch_taken y)"
  have lt: "?t < length (ch_claims y)" using channel_invD(6) [OF inv'] r by simp
  have "ch_taken y @ [r] = take ?t (ch_claims y) @ [ch_claims y ! ?t]"
    using channel_invD(7) [OF inv'] r lt by (simp add: take_Suc_conv_app_nth)
  then have "r = ch_claims y ! ?t" by simp
  with r lt fifo_step.deliver show ?thesis by (simp add: fifo_of_def Cons_nth_drop_Suc [symmetric])
qed

text \<open>
   C17. The ring refines a bounded first-in first-out queue: for every interleaving of
  reservations, moves, cancellations, publications and draining, as long as fewer than
  \<open>2 ^ 32\<close> outcomes were published or the capacity divides \<open>2 ^ 32\<close>, the process is not
  terminated by the overflow check, every step is a step of the queue, and the credits in the
  cell, with the live reservations and in the queue always add up to the capacity.
\<close>

theorem OutcomeChannel_refines_fifo:
  assumes "OutcomeChannel_new fd cap = Inr s" and "channel_step\<^sup>*\<^sup>* (channel_init s) y"
    and "channel_step y y'" and "wrap_safe cap (length (ch_claims y'))"
  shows "fifo_step cap (fifo_of y) (fifo_of y') \<and> \<not> ch_terminated y'
    \<and> pending (ch_state y) = length (fst (fifo_of y))
    \<and> oc_available (ch_state y) + length (filter live (ch_reservations y))
        + length (filter is_starting (ch_calls y)) + length (fst (fifo_of y)) + of_bool (ch_owed y) = cap"
proof -
  have inv: "channel_inv y" "oc_capacity (ch_state y) = cap"
    using channel_reachable [OF assms(1,2)] wrap_safe_mono [OF assms(4) channel_step_frame(1) [OF assms(3)]] by blast+
  have inv': "channel_inv y'" using channel_step_inv [OF assms(3) inv(1)] inv(2) assms(4) by simp
  have "pending (ch_state y) = length (ch_claims y) - length (ch_taken y)"
  proof -
    have "oc_head (ch_state y) - oc_tail (ch_state y) = of_nat (length (ch_claims y) - length (ch_taken y))"
      using channel_invD(4-6) [OF inv(1)] by (simp add: of_nat_diff)
    moreover have "length (ch_claims y) - length (ch_taken y) < 2 ^ 32"
      using window_le [OF inv(1)] channel_invD(2) [OF inv(1)] by (simp add: kMaxOutcomeCapacity_def)
    ultimately show ?thesis by (simp add: pending_def unat_of_nat take_bit_nat_eq_self)
  qed
  with fifo_simulation [OF assms(3) inv(1) inv'] channel_invD(8) [OF inv'] channel_invD(9) [OF inv(1)] inv(2)
  show ?thesis by (simp add: fifo_of_def)
qed

definition sample_channel :: outcome_state where
  "sample_channel = projr (OutcomeChannel_new 5 3)"

lemma sample_channel_new: "OutcomeChannel_new 5 3 = Inr sample_channel"
  by (simp add: sample_channel_def OutcomeChannel_new_def kMaxOutcomeCapacity_def)

section \<open>Draining delivers everything\<close>

lemma quiet_tail_ready:
  assumes inv: "channel_inv y" and quiet: "\<forall>pc \<in> set (ch_calls y). call_index pc = None"
    and lt: "length (ch_taken y) < length (ch_claims y)"
  shows "drain_take (ch_state y) \<noteq> None"
proof -
  note d = channel_invD [OF inv]
  have "sl_ready (oc_slots (ch_state y) ! pos (oc_capacity (ch_state y)) (length (ch_taken y)))"
    using ring_invD(3) [OF d(10) le_refl lt] quiet nth_mem by fastforce
  moreover have "slot_index (ch_state y) (oc_tail (ch_state y)) = pos (oc_capacity (ch_state y)) (length (ch_taken y))"
    by (simp add: slot_index_def pos_def d(5))
  ultimately show ?thesis using d(1,3) pos_less by (simp add: drain_take_def Let_def)
qed

lemma drain_complete:
  assumes "DrainOnCoordinatorLoop s = (consumed, s')" and "ch_state y = s" and "channel_inv y" and "\<not> ch_owed y"
    and "\<forall>pc \<in> set (ch_calls y). call_index pc = None"
    and "wrap_safe (oc_capacity s) (length (ch_claims y))"
  shows "ch_taken y @ consumed = ch_claims y
    \<and> channel_inv (y\<lparr>ch_state := s', ch_taken := ch_taken y @ consumed\<rparr>)"
  using assms
proof (induction s arbitrary: y consumed rule: DrainOnCoordinatorLoop.induct)
  case (1 s)
  show ?case
  proof (cases "drain_take s")
    case None
    then have "length (ch_taken y) = length (ch_claims y)"
      using quiet_tail_ready [OF 1(4,6)] 1(3) channel_invD(6) [OF 1(4)] by force
    moreover have "consumed = []" "s' = s" using 1(2) None by (simp_all add: DrainOnCoordinatorLoop.simps)
    ultimately show ?thesis using channel_invD(7) [OF 1(4)] 1(3,4) by (cases y) simp
  next
    case (Some p)
    obtain r s1 where p: "p = (r, s1)" by (cases p)
    obtain rest where rest: "DrainOnCoordinatorLoop (restore_credit s1) = (rest, s')" "consumed = r # rest"
      using 1(2) Some p by (auto simp: DrainOnCoordinatorLoop.simps [of s] split: prod.splits)
    let ?y1 = "y\<lparr>ch_state := s1, ch_taken := ch_taken y @ [r], ch_owed := True\<rparr>"
    let ?y2 = "?y1\<lparr>ch_state := restore_credit s1, ch_owed := False\<rparr>"
    have y1: "channel_inv ?y1" using take_inv [OF 1(4,5)] Some p 1(3,7) by simp
    then have y2: "channel_inv ?y2" using credit_inv [of ?y1] by simp
    have cap: "oc_capacity s1 = oc_capacity s" using Some p by (auto simp: drain_take_def Let_def split: if_splits)
    have "ch_taken ?y2 @ rest = ch_claims ?y2 \<and> channel_inv (?y2\<lparr>ch_state := s', ch_taken := ch_taken ?y2 @ rest\<rparr>)"
      by (rule 1(1) [OF Some p [symmetric] rest(1)]) (use y2 1(6,7) cap in simp_all)
    then show ?thesis using rest(2) 1(5) by (cases y) simp
  qed
qed

lemma drain_capacity: "DrainOnCoordinatorLoop s = (consumed, s') \<Longrightarrow> oc_capacity s' = oc_capacity s"
proof (induction s arbitrary: consumed rule: DrainOnCoordinatorLoop.induct)
  case (1 s)
  show ?case
  proof (cases "drain_take s")
    case None
    with 1(2) show ?thesis by (simp add: DrainOnCoordinatorLoop.simps)
  next
    case (Some p)
    obtain r s1 where p: "p = (r, s1)" by (cases p)
    obtain rest where rest: "DrainOnCoordinatorLoop (restore_credit s1) = (rest, s')"
      using 1(2) Some p by (auto simp: DrainOnCoordinatorLoop.simps [of s] split: prod.splits)
    have "oc_capacity s1 = oc_capacity s" using Some p by (auto simp: drain_take_def Let_def split: if_splits)
    with 1(1) [OF Some p [symmetric] rest] show ?thesis by simp
  qed
qed

text \<open>
   C18. No outcome is stuck: once no producer is inside \<open>Enqueue\<close>, one call of the drain loop
  ends, delivers exactly the outcomes published but not yet consumed, in order, and returns
  every credit that is not held by a live reservation.
\<close>

theorem drain_delivers_all:
  assumes "OutcomeChannel_new fd cap = Inr s" and "channel_step\<^sup>*\<^sup>* (channel_init s) y"
    and "wrap_safe cap (length (ch_claims y))" and "\<not> ch_owed y" and "set (ch_calls y) \<subseteq> {Finished}"
    and "DrainOnCoordinatorLoop (ch_state y) = (consumed, s')"
  shows "ch_taken y @ consumed = ch_claims y \<and> pending s' = 0
    \<and> oc_available s' + length (filter live (ch_reservations y)) = cap"
proof -
  have inv: "channel_inv y" "oc_capacity (ch_state y) = cap" using channel_reachable [OF assms(1-3)] by blast+
  let ?y = "y\<lparr>ch_state := s', ch_taken := ch_taken y @ consumed\<rparr>"
  have fin: "\<forall>pc \<in> set (ch_calls y). call_index pc = None" "filter is_starting (ch_calls y) = []"
    using assms(5) by (auto simp: filter_empty_conv)
  have "wrap_safe (oc_capacity (ch_state y)) (length (ch_claims y))" using assms(3) inv(2) by simp
  from drain_complete [OF assms(6) refl inv(1) assms(4) fin(1) this]
  have d: "ch_taken y @ consumed = ch_claims y" and inv': "channel_inv ?y" by blast+
  have "oc_capacity s' = cap" using drain_capacity [OF assms(6)] inv(2) by simp
  with d channel_invD(4,5,9) [OF inv'] fin(2) assms(4) show ?thesis by (simp add: pending_def)
qed

definition reserve_publish :: "outcome_state \<Rightarrow> attempt_result \<Rightarrow> outcome_state option" where
  "reserve_publish s result =
     (case TryReserve s of
        (None, s) \<Rightarrow> Some s
      | (Some v, s) \<Rightarrow> (if fst (Publish v) then Enqueue s result else Some s))"

definition result_of :: "nat \<Rightarrow> attempt_result" where
  "result_of n = empty_result\<lparr>ar_endpoint_index := n\<rparr>"

text \<open>A run of two producers and the consumer.\<close>

definition sample_calls :: channel_system where
  "sample_calls = (channel_init (the (reserve_publish sample_channel (result_of 7))))
     \<lparr>ch_reservations := [\<lparr>rv_state = True, rv_finalized = True\<rparr>], ch_calls := [Finished],
      ch_claims := [result_of 7]\<rparr>"

lemma sample_calls_run: "channel_step\<^sup>*\<^sup>* (channel_init sample_channel) sample_calls"
proof -
  let ?y0 = "channel_init sample_channel"
  let ?s1 = "sample_channel\<lparr>oc_available := 2\<rparr>"
  let ?y1 = "?y0\<lparr>ch_state := ?s1, ch_reservations := [\<lparr>rv_state = True, rv_finalized = False\<rparr>]\<rparr>"
  let ?y2 = "?y1\<lparr>ch_reservations := [\<lparr>rv_state = True, rv_finalized = True\<rparr>], ch_calls := [Starting (result_of 7)]\<rparr>"
  let ?s3 = "?s1\<lparr>oc_head := 1\<rparr>"
  let ?y3 = "?y2\<lparr>ch_state := ?s3, ch_calls := [Claimed 0 (result_of 7)], ch_claims := [result_of 7]\<rparr>"
  let ?y4 = "?y3\<lparr>ch_calls := [Checked 0 (result_of 7)]\<rparr>"
  let ?y5 = "?y4\<lparr>ch_state := enqueue_write ?s3 0 (result_of 7), ch_calls := [Written 0]\<rparr>"
  let ?y6 = "?y5\<lparr>ch_state := enqueue_ready (enqueue_write ?s3 0 (result_of 7)) 0, ch_calls := [Finished]\<rparr>"
  note defs = channel_init_def sample_channel_def OutcomeChannel_new_def kMaxOutcomeCapacity_def
  have s: "oc_available sample_channel = 3" "oc_accepting sample_channel" "oc_head sample_channel = 0"
    "oc_tail sample_channel = 0" "oc_capacity sample_channel = 3"
    by (simp_all add: defs)
  have 1: "channel_step ?y0 ?y1"
    using channel_step.reserve [of ?y0 "\<lparr>rv_state = True, rv_finalized = False\<rparr>" ?s1] s
    by (simp add: channel_init_def TryReserve_def TryReserve_body_def cas_apply_def)
  have 2: "channel_step ?y1 ?y2"
    using channel_step.publish [of 0 ?y1 True "\<lparr>rv_state = True, rv_finalized = True\<rparr>" "result_of 7"]
    by (simp add: Publish_def channel_init_def)
  have 3: "channel_step ?y2 ?y3"
    using channel_step.claim [of 0 ?y2 "result_of 7" 0 ?s3] s by (simp add: enqueue_claim_def channel_init_def)
  have 4: "channel_step ?y3 ?y4"
    using channel_step.check [of 0 ?y3 0 "result_of 7"] s by (simp add: enqueue_check_def channel_init_def)
  have 5: "channel_step ?y4 ?y5"
    using channel_step.store [of 0 ?y4 0 "result_of 7"] by (simp add: channel_init_def)
  have 6: "channel_step ?y5 ?y6"
    using channel_step.ready [of 0 ?y5 0] by (simp add: channel_init_def)
  have "?y6 = sample_calls"
    using s by (simp add: sample_calls_def reserve_publish_def TryReserve_def TryReserve_body_def cas_apply_def Publish_def
        Enqueue_def enqueue_claim_def enqueue_check_def channel_init_def)
  moreover note rt = converse_rtranclp_into_rtranclp [where r = channel_step]
  have "channel_step\<^sup>*\<^sup>* ?y0 ?y6"
    by (rule rt [OF 1 rt [OF 2 rt [OF 3 rt [OF 4 rt [OF 5 r_into_rtranclp [where r = channel_step, OF 6]]]]]])
  ultimately show ?thesis by simp
qed

theorem OutcomeChannel_refines_fifo_witness:
  "fifo_step 3 ([result_of 7], []) ([], [result_of 7]) \<and> pending (ch_state sample_calls) = 1"
proof -
  have "drain_take (ch_state sample_calls) = Some (result_of 7, snd (the (drain_take (ch_state sample_calls))))"
    by code_simp
  then have "channel_step sample_calls (sample_calls\<lparr>ch_state := snd (the (drain_take (ch_state sample_calls))),
      ch_taken := [result_of 7], ch_owed := True\<rparr>)"
    using channel_step.take [of sample_calls "result_of 7" "snd (the (drain_take (ch_state sample_calls)))"]
    by (simp add: sample_calls_def channel_init_def)
  from OutcomeChannel_refines_fifo [OF sample_channel_new sample_calls_run this] show ?thesis
    by (simp add: wrap_safe_def fifo_of_def) (simp add: sample_calls_def channel_init_def)
qed

theorem drain_delivers_all_witness:
  "fst (DrainOnCoordinatorLoop (ch_state sample_calls)) = [result_of 7]
   \<and> oc_available (snd (DrainOnCoordinatorLoop (ch_state sample_calls))) = 3"
proof -
  have "\<not> ch_owed sample_calls" "set (ch_calls sample_calls) \<subseteq> {Finished}" "ch_claims sample_calls = [result_of 7]"
    "ch_taken sample_calls = []" "filter live (ch_reservations sample_calls) = []"
    by (simp_all add: sample_calls_def channel_init_def live_def)
  with drain_delivers_all [OF sample_channel_new sample_calls_run, of
      "fst (DrainOnCoordinatorLoop (ch_state sample_calls))" "snd (DrainOnCoordinatorLoop (ch_state sample_calls))"]
  show ?thesis by (simp add: wrap_safe_def)
qed

section \<open>The wrap of the head counter\<close>

text \<open>One reservation, its publication, and a drain; and a list of publications without a drain.\<close>

definition round :: "attempt_result \<Rightarrow> outcome_state \<Rightarrow> outcome_state" where
  "round result s = snd (DrainOnCoordinatorLoop (the (reserve_publish s result)))"

fun publishes :: "attempt_result list \<Rightarrow> outcome_state \<Rightarrow> outcome_state option" where
  "publishes [] s = Some s"
| "publishes (result # results) s = Option.bind (reserve_publish s result) (publishes results)"

lemma publishes_append: "publishes (xs @ ys) s = Option.bind (publishes xs s) (publishes ys)"
proof (induction xs arbitrary: s)
  case (Cons x xs)
  then show ?case by (cases "reserve_publish s x") simp_all
qed simp

text \<open>The ring of a channel in a given state.\<close>

definition ring :: "outcome_state \<Rightarrow> nat \<Rightarrow> u32 \<Rightarrow> u32 \<Rightarrow> outcome_slot list \<Rightarrow> outcome_state" where
  "ring s available head tail slots = s\<lparr>oc_available := available, oc_head := head, oc_tail := tail, oc_slots := slots\<rparr>"

abbreviation full :: "attempt_result \<Rightarrow> outcome_slot" where
  "full r \<equiv> \<lparr>sl_value = r, sl_ready = True\<rparr>"

abbreviation vacant :: outcome_slot where
  "vacant \<equiv> \<lparr>sl_value = empty_result, sl_ready = False\<rparr>"

lemma slot_filled [simp]: "slot\<lparr>sl_value := r, sl_ready := True\<rparr> = full r"
  by (cases slot) simp

lemma ring_updates:
  "(ring s available head tail slots)\<lparr>oc_head := h\<rparr> = ring s available h tail slots"
  "(ring s available head tail slots)\<lparr>oc_slots := sl\<rparr> = ring s available head tail sl"
  "(ring s available head tail slots)\<lparr>oc_tail := t\<rparr> = ring s available head t slots"
  "(ring s available head tail slots)\<lparr>oc_available := a\<rparr> = ring s a head tail slots"
  by (simp_all add: ring_def)

lemma ring_fields [simp]:
  "oc_available (ring s available head tail slots) = available" "oc_head (ring s available head tail slots) = head"
  "oc_tail (ring s available head tail slots) = tail" "oc_slots (ring s available head tail slots) = slots"
  "oc_capacity (ring s available head tail slots) = oc_capacity s" "oc_accepting (ring s available head tail slots) = oc_accepting s"
  by (simp_all add: ring_def)

lemma ring_publish:
  assumes "oc_accepting s" "0 < available" "unat (head - tail) < oc_capacity s" "unat head mod oc_capacity s < length slots"
  shows "reserve_publish (ring s available head tail slots) r =
    Some (ring s (available - 1) (head + 1) tail (slots[unat head mod oc_capacity s := full r]))"
  using assms
  by (simp add: ring_updates reserve_publish_def TryReserve_def TryReserve_body_def cas_apply_def Publish_def Enqueue_def
      enqueue_claim_def enqueue_check_def enqueue_write_def enqueue_ready_def slot_index_def)

lemma ring_drain:
  assumes "unat tail mod oc_capacity s < length slots" "slots ! (unat tail mod oc_capacity s) = full r" "available + 1 < 2 ^ 32"
  shows "DrainOnCoordinatorLoop (ring s available head tail slots) =
    map_prod ((#) r) id (DrainOnCoordinatorLoop (ring s (available + 1) head (tail + 1) (slots[unat tail mod oc_capacity s := vacant])))"
  using assms
  by (subst DrainOnCoordinatorLoop.simps)
    (simp add: ring_updates drain_take_def slot_index_def restore_credit_def case_prod_unfold Let_def map_prod_def)

lemma ring_drain_stop:
  assumes "unat tail mod oc_capacity s < length slots" "slots ! (unat tail mod oc_capacity s) = vacant"
  shows "DrainOnCoordinatorLoop (ring s available head tail slots) = ([], ring s available head tail slots)"
  using assms by (subst DrainOnCoordinatorLoop.simps) (simp add: drain_take_def slot_index_def)

text \<open>Publications and drains over consecutive slots.\<close>

lemma ring_fill:
  assumes "oc_accepting s" "length xs \<le> available" "length pre + length xs \<le> oc_capacity s"
    and "\<And>k. k < length xs \<Longrightarrow> unat (of_nat (m + k) - tail) < oc_capacity s \<and> unat (of_nat (m + k) :: u32) mod oc_capacity s = length pre + k"
    and "length old = length xs"
  shows "publishes xs (ring s available (of_nat m) tail (pre @ old @ rest)) =
    Some (ring s (available - length xs) (of_nat (m + length xs)) tail (pre @ map full xs @ rest))"
  using assms
proof (induction xs arbitrary: available m pre old)
  case (Cons x xs)
  obtain o1 old' where old: "old = o1 # old'" "length old' = length xs" using Cons.prems(5) by (cases old) auto
  have first: "unat (of_nat m - tail) < oc_capacity s" "unat (of_nat m :: u32) mod oc_capacity s = length pre"
    using Cons.prems(4) [of 0] by simp_all
  have "reserve_publish (ring s available (of_nat m) tail (pre @ old @ rest)) x =
    Some (ring s (available - 1) (of_nat (Suc m)) tail ((pre @ [full x]) @ old' @ rest))"
    using ring_publish [of s available "of_nat m" tail "pre @ old @ rest" x] first Cons.prems(1,2) by (simp add: old add.commute)
  moreover have "publishes xs (ring s (available - 1) (of_nat (Suc m)) tail ((pre @ [full x]) @ old' @ rest)) =
    Some (ring s (available - 1 - length xs) (of_nat (Suc m + length xs)) tail ((pre @ [full x]) @ map full xs @ rest))"
  proof (rule Cons.IH)
    fix k assume "k < length xs"
    then show "unat (of_nat (Suc m + k) - tail) < oc_capacity s \<and> unat (of_nat (Suc m + k) :: u32) mod oc_capacity s = length (pre @ [full x]) + k"
      using Cons.prems(4) [of "Suc k"] by simp
  qed (use Cons.prems old in auto)
  ultimately show ?case by simp
qed simp

lemma ring_empty:
  assumes "available + length xs < 2 ^ 32" "length pre + length xs \<le> oc_capacity s"
    and "\<And>k. k < length xs \<Longrightarrow> unat (of_nat (m + k) :: u32) mod oc_capacity s = length pre + k"
  shows "DrainOnCoordinatorLoop (ring s available head (of_nat m) (pre @ map full xs @ rest)) =
    map_prod ((@) xs) id (DrainOnCoordinatorLoop (ring s (available + length xs) head (of_nat (m + length xs)) (pre @ replicate (length xs) vacant @ rest)))"
  using assms
proof (induction xs arbitrary: available m pre)
  case (Cons x xs)
  have first: "unat (of_nat m :: u32) mod oc_capacity s = length pre" using Cons.prems(3) [of 0] by simp
  have "DrainOnCoordinatorLoop (ring s available head (of_nat m) (pre @ map full (x # xs) @ rest)) =
    map_prod ((#) x) id (DrainOnCoordinatorLoop (ring s (available + 1) head (of_nat (Suc m)) ((pre @ [vacant]) @ map full xs @ rest)))"
    using ring_drain [of "of_nat m" s "pre @ map full (x # xs) @ rest" x available head] first Cons.prems(1)
    by (simp add: add.commute)
  also have "DrainOnCoordinatorLoop (ring s (available + 1) head (of_nat (Suc m)) ((pre @ [vacant]) @ map full xs @ rest)) =
    map_prod ((@) xs) id (DrainOnCoordinatorLoop (ring s (available + 1 + length xs) head (of_nat (Suc m + length xs))
      ((pre @ [vacant]) @ replicate (length xs) vacant @ rest)))"
  proof (rule Cons.IH)
    fix k assume "k < length xs"
    then show "unat (of_nat (Suc m + k) :: u32) mod oc_capacity s = length (pre @ [vacant]) + k"
      using Cons.prems(3) [of "Suc k"] by simp
  qed (use Cons.prems in auto)
  finally show ?case by (simp add: map_prod_def case_prod_unfold)
qed (simp add: map_prod_def case_prod_unfold)

lemma new_ring:
  assumes "OutcomeChannel_new fd cap = Inr s"
  shows "oc_accepting s" "oc_capacity s = cap" "0 < cap" "cap \<le> kMaxOutcomeCapacity" "s = ring s cap 0 0 (replicate cap vacant)"
  using assms by (auto simp: OutcomeChannel_new_def ring_def split: if_splits)

lemma round_ring:
  assumes new: "OutcomeChannel_new fd cap = Inr s"
  shows "round r (ring s cap n n (replicate cap vacant)) = ring s cap (n + 1) (n + 1) (replicate cap vacant)"
proof -
  note s = new_ring [OF new]
  let ?i = "unat n mod cap"
  have i: "?i < cap" using s(3) by simp
  have "(replicate cap vacant)[?i := vacant] = replicate cap vacant" using i by (metis list_update_id nth_replicate)
  then show ?thesis
    using i s ring_publish [of s cap n n "replicate cap vacant" r]
      ring_drain [of n s "(replicate cap vacant)[?i := full r]" r "cap - 1" "n + 1"]
      ring_drain_stop [of "n + 1" s "replicate cap vacant" cap "n + 1"]
    by (simp add: round_def kMaxOutcomeCapacity_def)
qed

lemma rounds_ring:
  assumes "OutcomeChannel_new fd cap = Inr s"
  shows "(round r ^^ n) s = ring s cap (of_nat n) (of_nat n) (replicate cap vacant)"
proof (induction n)
  case 0
  then show ?case using new_ring(5) [OF assms] by simp
next
  case (Suc n)
  then show ?case by (simp add: round_ring [OF assms] add.commute)
qed

text \<open>The position before the wrap, the slots around it, and what publications and drains do there.\<close>

definition last_position :: u32 where
  "last_position = of_nat (2 ^ 32 - 1)"

lemma last_position: "unat last_position = 2 ^ 32 - 1" "last_position + 1 = 0" "last_position = - 1"
  by (simp_all add: last_position_def)

lemma small_position: "k < 2 * cap \<Longrightarrow> cap \<le> kMaxOutcomeCapacity \<Longrightarrow> unat (of_nat k :: u32) = k"
  by (simp add: kMaxOutcomeCapacity_def unat_of_nat take_bit_nat_eq_self)

lemma wrap_slot:
  assumes "0 < (cap :: nat)" "\<not> cap dvd 2 ^ 32"
  shows "(2 ^ 32 - 1) mod cap + 2 \<le> cap"
proof -
  define q where "q = (2 ^ 32 - 1 :: nat) mod cap"
  have "Suc q \<noteq> cap"
  proof
    assume q: "Suc q = cap"
    have "2 ^ 32 = (2 ^ 32 - 1 :: nat) div cap * cap + q + 1" unfolding q_def
      by (metis (no_types) Suc_eq_plus1 Suc_diff_1 div_mult_mod_eq zero_less_numeral zero_less_power)
    then have "2 ^ 32 = ((2 ^ 32 - 1 :: nat) div cap + 1) * cap" using q by simp
    with assms(2) show False by (metis dvd_triv_right)
  qed
  moreover have "q < cap" using assms(1) by (simp add: q_def)
  ultimately show ?thesis unfolding q_def by simp
qed

lemma wrap_publish:
  assumes new: "OutcomeChannel_new fd cap = Inr s" and q: "q = (2 ^ 32 - 1) mod cap" "q + 2 \<le> cap" "length ys = q"
  shows "publishes (x # ys @ [z]) (ring s cap last_position last_position (replicate cap vacant)) =
    Some (ring s (cap - (q + 2)) (of_nat (q + 1)) last_position (map full (ys @ [z]) @ replicate (cap - (q + 1)) vacant))"
proof -
  note s = new_ring [OF new]
  let ?slots = "(replicate cap vacant)[q := full x]"
  have "reserve_publish (ring s cap last_position last_position (replicate cap vacant)) x =
      Some (ring s (cap - 1) (of_nat 0) last_position ?slots)"
    using ring_publish [of s cap last_position last_position "replicate cap vacant" x] s last_position q by simp
  moreover have "?slots = [] @ take (q + 1) ?slots @ replicate (cap - (q + 1)) vacant"
    using q append_take_drop_id [of "q + 1" ?slots] by (simp add: drop_update_swap)
  moreover have "publishes (ys @ [z]) (ring s (cap - 1) (of_nat 0) last_position ([] @ take (q + 1) ?slots @ replicate (cap - (q + 1)) vacant))
      = Some (ring s (cap - 1 - length (ys @ [z])) (of_nat (0 + length (ys @ [z]))) last_position
          ([] @ map full (ys @ [z]) @ replicate (cap - (q + 1)) vacant))"
  proof (rule ring_fill)
    fix k assume k: "k < length (ys @ [z])"
    have "unat (of_nat (0 + k) - last_position) = Suc k"
      using small_position [of "Suc k", OF _ s(4)] k q by (simp add: last_position(3) add.commute)
    then show "unat (of_nat (0 + k) - last_position) < oc_capacity s
        \<and> unat (of_nat (0 + k) :: u32) mod oc_capacity s = length [] + k"
      using k q small_position [of k, OF _ s(4)] s(2) by simp
  qed (use s q in auto)
  ultimately show ?thesis using q by simp
qed

lemma wrap_drain:
  assumes new: "OutcomeChannel_new fd cap = Inr s" and q: "q = (2 ^ 32 - 1) mod cap" "q + 2 \<le> cap" "length ys = q"
  shows "DrainOnCoordinatorLoop
      (ring s (cap - (q + 2)) (of_nat (q + 1)) last_position (map full (ys @ [z]) @ replicate (cap - (q + 1)) vacant))
    = (z # ys, ring s (cap - 1) (of_nat (q + 1)) (of_nat q) (replicate cap vacant))" (is "DrainOnCoordinatorLoop ?s1 = (_, ?s2)")
proof -
  note s = new_ring [OF new]
  have small: "cap < 2 ^ 32" using s(4) by (simp add: kMaxOutcomeCapacity_def)
  let ?rest = "vacant # replicate (cap - (q + 1)) vacant"
  have slots: "[] @ replicate (length ys) vacant @ ?rest = replicate cap vacant"
    using q by (simp flip: replicate_Suc replicate_add)
  have credits: "cap - (q + 2) + 1 + length ys = cap - 1" using q by linarith
  have "DrainOnCoordinatorLoop ?s1 = map_prod ((#) z) id (DrainOnCoordinatorLoop
      (ring s (cap - (q + 2) + 1) (of_nat (q + 1)) (of_nat 0) ([] @ map full ys @ ?rest)))"
    using ring_drain [of last_position s "map full (ys @ [z]) @ replicate (cap - (q + 1)) vacant" z "cap - (q + 2)" "of_nat (q + 1)"]
      last_position s(2) q small by (simp add: nth_append list_update_append)
  also have "DrainOnCoordinatorLoop (ring s (cap - (q + 2) + 1) (of_nat (q + 1)) (of_nat 0) ([] @ map full ys @ ?rest)) =
      map_prod ((@) ys) id (DrainOnCoordinatorLoop (ring s (cap - (q + 2) + 1 + length ys) (of_nat (q + 1)) (of_nat (0 + length ys))
        ([] @ replicate (length ys) vacant @ ?rest)))"
  proof (rule ring_empty)
    fix k assume "k < length ys"
    then show "unat (of_nat (0 + k) :: u32) mod oc_capacity s = length [] + k"
      using q small_position [of k, OF _ s(4)] s(2) by simp
  qed (use small q s(2) in auto)
  also have "ring s (cap - (q + 2) + 1 + length ys) (of_nat (q + 1)) (of_nat (0 + length ys)) ([] @ replicate (length ys) vacant @ ?rest) = ?s2"
    unfolding slots credits by (simp only: q(3) add_0)
  also have "DrainOnCoordinatorLoop ?s2 = ([], ?s2)"
    by (rule ring_drain_stop) (use q small_position [of q, OF _ s(4)] s(2) in simp_all)
  finally show ?thesis by simp
qed

lemma wrap_stuck:
  assumes new: "OutcomeChannel_new fd cap = Inr s" and q: "q + 2 \<le> cap" "length zs = cap - 1"
  shows "\<exists>head slots. publishes zs (ring s (cap - 1) (of_nat (q + 1)) (of_nat q) (replicate cap vacant)) =
      Some (ring s 0 head (of_nat q) slots) \<and> length slots = cap \<and> slots ! q = vacant"
proof -
  note s = new_ring [OF new]
  let ?zs1 = "take (cap - (q + 1)) zs" and ?zs2 = "drop (cap - (q + 1)) zs"
  have len: "length ?zs1 = cap - (q + 1)" "length ?zs2 = q" using q by simp_all
  have "publishes ?zs1 (ring s (cap - 1) (of_nat (q + 1)) (of_nat q) (replicate (q + 1) vacant @ replicate (cap - (q + 1)) vacant @ []))
      = Some (ring s (cap - 1 - length ?zs1) (of_nat (q + 1 + length ?zs1)) (of_nat q) (replicate (q + 1) vacant @ map full ?zs1 @ []))"
  proof (rule ring_fill)
    fix k assume k: "k < length ?zs1"
    have small_k: "Suc k < 2 * cap" "q + 1 + k < cap" "Suc k < cap" using k len(1) q by linarith+
    have "of_nat (q + 1 + k) - (of_nat q :: u32) = of_nat (Suc k)" by simp
    then show "unat (of_nat (q + 1 + k) - (of_nat q :: u32)) < oc_capacity s
        \<and> unat (of_nat (q + 1 + k) :: u32) mod oc_capacity s = length (replicate (q + 1) vacant) + k"
      using small_k small_position [of "Suc k", OF _ s(4)] small_position [of "q + 1 + k", OF _ s(4)] s(2)
      by (simp del: of_nat_add of_nat_Suc)
  qed (use s q len in auto)
  moreover have "publishes ?zs2 (ring s q (of_nat cap) (of_nat q) ([] @ replicate q vacant @ ([vacant] @ map full ?zs1)))
      = Some (ring s (q - length ?zs2) (of_nat (cap + length ?zs2)) (of_nat q) ([] @ map full ?zs2 @ ([vacant] @ map full ?zs1)))"
  proof (rule ring_fill)
    fix k assume k: "k < length ?zs2"
    have small_k: "cap + k - q < cap" "cap + k < 2 * cap" "k < cap" using k len(2) q by linarith+
    have "of_nat (cap + k) - (of_nat q :: u32) = of_nat (cap + k - q)" using q by (simp add: of_nat_diff)
    then show "unat (of_nat (cap + k) - (of_nat q :: u32)) < oc_capacity s
        \<and> unat (of_nat (cap + k) :: u32) mod oc_capacity s = length [] + k"
      using small_k small_position [of "cap + k - q", OF _ s(4)] small_position [of "cap + k", OF _ s(4)] s(2) by (simp del: of_nat_add)
  qed (use s q len in auto)
  moreover have "replicate (q + 1) vacant @ replicate (cap - (q + 1)) vacant @ [] = replicate cap vacant"
  proof -
    have "q + 1 + (cap - (q + 1)) = cap" using q by linarith
    then show ?thesis by (simp only: append_Nil2 replicate_add [symmetric])
  qed
  moreover have "replicate (q + 1) vacant @ map full ?zs1 @ [] = [] @ replicate q vacant @ ([vacant] @ map full ?zs1)"
    using replicate_append_same [of q vacant] by simp
  moreover have "q + 1 + length ?zs1 = cap" "cap - 1 - length ?zs1 = q" "q - length ?zs2 = 0" using len q by simp_all
  moreover have "length (map full ?zs2 @ [vacant] @ map full ?zs1) = cap" "(map full ?zs2 @ [vacant] @ map full ?zs1) ! q = vacant"
    using len q by (simp_all add: nth_append)
  ultimately show ?thesis
    using publishes_append [of ?zs1 ?zs2 "ring s (cap - 1) (of_nat (q + 1)) (of_nat q) (replicate cap vacant)"]
    by (simp only: append_take_drop_id append_Nil bind.bind_lunit) blast
qed

text \<open>
  C19. What the wrap of the 32-bit head does to every capacity that does not divide \<open>2 ^ 32\<close>.
  After \<open>2 ^ 32 - 1\<close> outcomes that were each published and drained, the last position before
  the wrap is slot \<open>q = (2 ^ 32 - 1) mod capacity\<close>.  Of the next \<open>q + 2\<close> outcomes, which the
  credits admit, the last falls on the slot of the first: the first is overwritten and never
  delivered, the last is delivered in its place, and one position stays pending.  After
  \<open>capacity - 1\<close> further publications no reservation is possible and no drain delivers anything.
\<close>

theorem outcome_lost_at_wrap:
  assumes "OutcomeChannel_new fd cap = Inr s0" and "\<not> cap dvd 2 ^ 32"
    and "length ys = (2 ^ 32 - 1) mod cap" and "length zs = cap - 1"
  shows "\<exists>s1 s2 stuck. publishes (x # ys @ [z]) ((round r ^^ (2 ^ 32 - 1)) s0) = Some s1
    \<and> DrainOnCoordinatorLoop s1 = (z # ys, s2) \<and> pending s2 = 1
    \<and> publishes zs s2 = Some stuck \<and> fst (TryReserve stuck) = None \<and> DrainOnCoordinatorLoop stuck = ([], stuck)"
proof -
  note s = new_ring [OF assms(1)]
  define q where "q = (2 ^ 32 - 1 :: nat) mod cap"
  have q: "q + 2 \<le> cap" "length ys = q" using wrap_slot [OF s(3) assms(2)] assms(3) by (simp_all add: q_def)
  have rounds: "(round r ^^ (2 ^ 32 - 1)) s0 = ring s0 cap last_position last_position (replicate cap vacant)"
    unfolding last_position_def by (rule rounds_ring [OF assms(1)])
  let ?s2 = "ring s0 (cap - 1) (of_nat (q + 1)) (of_nat q) (replicate cap vacant)"
  obtain head slots where stuck: "publishes zs ?s2 = Some (ring s0 0 head (of_nat q) slots)"
    and slots: "length slots = cap" "slots ! q = vacant"
    using wrap_stuck [OF assms(1) q(1) assms(4)] by blast
  have "DrainOnCoordinatorLoop (ring s0 0 head (of_nat q) slots) = ([], ring s0 0 head (of_nat q) slots)"
    by (rule ring_drain_stop) (use slots q small_position [of q, OF _ s(4)] s(2) in simp_all)
  moreover have "fst (TryReserve (ring s0 0 head (of_nat q) slots)) = None"
    using s(1) by (simp add: TryReserve_def TryReserve_body_def cas_apply_def)
  moreover have "pending ?s2 = 1" by (simp add: pending_def)
  ultimately show ?thesis
    unfolding rounds using wrap_publish [OF assms(1) q_def q, of x z] wrap_drain [OF assms(1) q_def q, of z] stuck by blast
qed

theorem outcome_lost_at_wrap_witness:
  "\<exists>s1 s2 stuck. publishes [result_of 1, result_of 2] ((round (result_of 0) ^^ (2 ^ 32 - 1)) sample_channel) = Some s1
    \<and> DrainOnCoordinatorLoop s1 = ([result_of 2], s2) \<and> pending s2 = 1
    \<and> publishes [result_of 3, result_of 4] s2 = Some stuck \<and> fst (TryReserve stuck) = None
    \<and> DrainOnCoordinatorLoop stuck = ([], stuck)"
  using outcome_lost_at_wrap [OF sample_channel_new, of "[]" "[result_of 3, result_of 4]" "result_of 1" "result_of 2" "result_of 0"]
  by simp

end
