(* ===== verification/NetBuffer.thy ===== *)
theory NetBuffer
  imports Ascii
begin

text \<open>
  The byte buffer of a connection (\<open>Buffer\<close>): storage with a read cursor and deferred
  compaction.  Every sequence of operations refines the same operations on the sequence of
  unread bytes.
\<close>

section \<open>Operations\<close>

record buffer =
  storage :: string
  read_index :: nat

definition Buffer_new :: buffer where
  "Buffer_new = \<lparr>storage = [], read_index = 0\<rparr>"

definition ReadableBytes :: "buffer \<Rightarrow> nat" where
  "ReadableBytes b = length (storage b) - read_index b"

definition ReadableView :: "buffer \<Rightarrow> string" where
  "ReadableView b = drop (read_index b) (storage b)"

definition Append :: "buffer \<Rightarrow> string \<Rightarrow> buffer" where
  "Append b bytes =
     (if bytes = [] then b
      else let b = (if read_index b > ReadableBytes b
                    then \<lparr>storage = drop (read_index b) (storage b), read_index = 0\<rparr> else b)
           in b\<lparr>storage := storage b @ bytes\<rparr>)"

definition FindCrlf :: "buffer \<Rightarrow> nat option" where
  "FindCrlf b = find_sub CRLF (ReadableView b)"

definition Retrieve :: "buffer \<Rightarrow> nat \<Rightarrow> cpp_error + buffer" where
  "Retrieve b n =
     (if n > ReadableBytes b then Inl OutOfRange else Inr (b\<lparr>read_index := read_index b + n\<rparr>))"

definition RetrieveAll :: "buffer \<Rightarrow> buffer" where
  "RetrieveAll b = \<lparr>storage = [], read_index = 0\<rparr>"

section \<open>The buffer as a byte sequence\<close>

definition buffer_wf :: "buffer \<Rightarrow> bool" where
  "buffer_wf b \<longleftrightarrow> read_index b \<le> length (storage b)"

lemma ReadableBytes_view [simp]: "ReadableBytes b = length (ReadableView b)"
  by (simp add: ReadableBytes_def ReadableView_def)

lemma Append_view [simp]: "buffer_wf b \<Longrightarrow> ReadableView (Append b bytes) = ReadableView b @ bytes"
  by (auto simp: Append_def ReadableView_def buffer_wf_def Let_def)

lemma Append_wf [simp]: "buffer_wf b \<Longrightarrow> buffer_wf (Append b bytes)"
  by (auto simp: Append_def buffer_wf_def Let_def)

lemma Retrieve_view:
  "Retrieve b n = Inr b' \<Longrightarrow> ReadableView b' = drop n (ReadableView b) \<and> n \<le> length (ReadableView b)"
  by (auto simp: Retrieve_def ReadableView_def add.commute split: if_splits)

lemma Retrieve_wf: "Retrieve b n = Inr b' \<Longrightarrow> buffer_wf b \<Longrightarrow> buffer_wf b'"
  by (auto simp: Retrieve_def ReadableView_def buffer_wf_def split: if_splits)

lemma Retrieve_ok: "n \<le> length (ReadableView b) \<Longrightarrow> Retrieve b n = Inr (b\<lparr>read_index := read_index b + n\<rparr>)"
  by (simp add: Retrieve_def)

lemma RetrieveAll_view [simp]: "ReadableView (RetrieveAll b) = []" "buffer_wf (RetrieveAll b)"
  by (simp_all add: RetrieveAll_def ReadableView_def buffer_wf_def)

lemma Buffer_new_view [simp]: "ReadableView Buffer_new = []" "buffer_wf Buffer_new"
  by (simp_all add: Buffer_new_def ReadableView_def buffer_wf_def)

text \<open>A sequence of operations against the specification on byte sequences.\<close>

datatype buffer_op = OpAppend string | OpRetrieve nat | OpRetrieveAll

fun buffer_step :: "buffer_op \<Rightarrow> buffer \<Rightarrow> cpp_error + buffer" where
  "buffer_step (OpAppend bytes) b = Inr (Append b bytes)"
| "buffer_step (OpRetrieve n) b = Retrieve b n"
| "buffer_step OpRetrieveAll b = Inr (RetrieveAll b)"

fun bytes_step :: "buffer_op \<Rightarrow> string \<Rightarrow> cpp_error + string" where
  "bytes_step (OpAppend bytes) s = Inr (s @ bytes)"
| "bytes_step (OpRetrieve n) s = (if n > length s then Inl OutOfRange else Inr (drop n s))"
| "bytes_step OpRetrieveAll s = Inr []"

fun res_fold :: "('o \<Rightarrow> 'a \<Rightarrow> cpp_error + 'a) \<Rightarrow> 'o list \<Rightarrow> 'a \<Rightarrow> cpp_error + 'a" where
  "res_fold f [] x = Inr x"
| "res_fold f (op # ops) x = res_bind (f op x) (res_fold f ops)"

lemma buffer_step_refines:
  assumes "buffer_wf b"
  shows "map_sum id ReadableView (buffer_step op b) = bytes_step op (ReadableView b)"
    and "buffer_step op b = Inr b' \<Longrightarrow> buffer_wf b'"
  using assms
  by (cases op; auto simp: Retrieve_def ReadableView_def buffer_wf_def Append_def RetrieveAll_def add.commute Let_def
      split: if_splits)+

lemma buffer_refines:
  "buffer_wf b \<Longrightarrow> map_sum id ReadableView (res_fold buffer_step ops b) = res_fold bytes_step ops (ReadableView b)"
proof (induction ops arbitrary: b)
  case (Cons op ops)
  note step = buffer_step_refines [OF Cons.prems, of op]
  show ?case
  proof (cases "buffer_step op b")
    case (Inr b')
    with step Cons.IH [of b'] have "bytes_step op (ReadableView b) = Inr (ReadableView b')" by simp
    with Inr step(2) [OF Inr] Cons.IH [of b'] show ?thesis by simp
  next
    case (Inl e)
    with step(1) have "bytes_step op (ReadableView b) = Inl e" by simp
    with Inl show ?thesis by simp
  qed
qed simp

text \<open>
   C24. The buffer refines the sequence of unread bytes: after any sequence of appends and
  retrieves its view is what the same operations do to a byte list, including the exception of
  a retrieve that is too long, whatever compactions happened in between.
\<close>

theorem Buffer_refines_bytes:
  "map_sum id ReadableView (res_fold buffer_step ops Buffer_new) = res_fold bytes_step ops []"
  using buffer_refines [of Buffer_new ops] by simp

end
