(* ===== verification/HttpText.thy ===== *)
theory HttpText
  imports NetBuffer
begin

text \<open>
  The character-level rules that the HTTP parsers and serializers share: tokens, field values,
  optional white space, line feeds, Content-Length, and the size limits.
\<close>

section \<open>Limits\<close>

definition kMaxRequestLineBytes :: nat where
  "kMaxRequestLineBytes = 8 * 1024"

definition kMaxHeaderBytes :: nat where
  "kMaxHeaderBytes = 32 * 1024"

definition kMaxRequestBodyBytes :: nat where
  "kMaxRequestBodyBytes = 1024 * 1024"

definition kMaxUpstreamResponseBodyBytes :: nat where
  "kMaxUpstreamResponseBodyBytes = 16 * 1024 * 1024"

datatype parse_result = kNeedMoreData | kComplete | kError | kUnsupported

section \<open>Character rules\<close>

definition is_ows :: "char \<Rightarrow> bool" where
  "is_ows c \<longleftrightarrow> c = CHR '' '' \<or> c = CHR 0x09"

text \<open>The first loop strips the front, the second the back.\<close>

definition TrimOws :: "string \<Rightarrow> string" where
  "TrimOws v = rev (dropWhile is_ows (rev (dropWhile is_ows v)))"

definition is_token_char :: "char \<Rightarrow> bool" where
  "is_token_char c \<longleftrightarrow> is_digit c \<or> is_upper c \<or> is_lower c
     \<or> c \<in> set (''!#$%&'' @ [CHR 0x27] @ ''*+-.^_`|~'')"

definition IsToken :: "string \<Rightarrow> bool" where
  "IsToken v \<longleftrightarrow> list_all is_token_char v \<and> v \<noteq> []"

function ContainsChunked :: "string \<Rightarrow> bool" where
  "ContainsChunked v =
     (if v = [] then False
      else let comma = find_char (CHR '','') v;
               coding = TrimOws (case comma of None \<Rightarrow> v | Some i \<Rightarrow> take i v) in
        if LowerAscii coding = ''chunked'' then True
        else case comma of None \<Rightarrow> False | Some i \<Rightarrow> ContainsChunked (drop (i + 1) v))"
  by pat_completeness auto
termination
  by (relation "measure length") (auto dest: find_char_Some)

declare ContainsChunked.simps [simp del]

text \<open>The loop over the bytes; \<open>prev\<close> is the byte before the current one.\<close>

fun bare_line_feed_from :: "char option \<Rightarrow> string \<Rightarrow> bool" where
  "bare_line_feed_from prev [] \<longleftrightarrow> False"
| "bare_line_feed_from prev (c # s) \<longleftrightarrow> c = LF \<and> prev \<noteq> Some CR \<or> bare_line_feed_from (Some c) s"

definition HasBareLineFeed :: "string \<Rightarrow> bool" where
  "HasBareLineFeed bytes = bare_line_feed_from None bytes"

definition is_field_char :: "char \<Rightarrow> bool" where
  "is_field_char c \<longleftrightarrow> c = CHR 0x09 \<or> \<not> (code_of c < 0x20 \<or> code_of c = 0x7f)"

definition IsValidFieldValue :: "string \<Rightarrow> bool" where
  "IsValidFieldValue v = list_all is_field_char v"

fun parse_length_from :: "string \<Rightarrow> nat \<Rightarrow> nat option" where
  "parse_length_from [] parsed = Some parsed"
| "parse_length_from (c # s) parsed =
     (if \<not> is_digit c then None
      else let digit = digit_value c in
        if parsed > (u64_max - digit) div 10 then None
        else parse_length_from s (parsed * 10 + digit))"

definition ParseContentLength :: "string \<Rightarrow> nat option" where
  "ParseContentLength v = (if v = [] then None else parse_length_from v 0)"

definition find_sub_from :: "string \<Rightarrow> nat \<Rightarrow> string \<Rightarrow> nat option" where
  "find_sub_from pat pos s =
     (if pos > length s then None else map_option (\<lambda>i. pos + i) (find_sub pat (drop pos s)))"

section \<open>Lemmas\<close>

lemma parse_length_from_eq:
  "list_all is_digit s \<Longrightarrow>
   parse_length_from s acc = (let v = foldl (\<lambda>a c. a * 10 + digit_value c) acc s in
     if v \<le> u64_max then Some v else None)" if "acc \<le> u64_max" for acc
  using that
proof (induction s arbitrary: acc)
  case (Cons c s)
  have "code_of c \<le> (57 :: nat)" using Cons.prems by (simp add: is_digit_def)
  then have d: "digit_value c < 10" unfolding digit_value_def by linarith
  have grow: "acc \<le> foldl (\<lambda>a c. a * 10 + digit_value c) acc s" for acc
  proof (induction s arbitrary: acc)
    case (Cons x s)
    have "acc \<le> acc * 10 + digit_value x" by simp
    also have "\<dots> \<le> foldl (\<lambda>a c. a * 10 + digit_value c) (acc * 10 + digit_value x) s" by (rule Cons)
    finally show ?case by simp
  qed simp
  have iff: "acc > (u64_max - digit_value c) div 10 \<longleftrightarrow> u64_max < acc * 10 + digit_value c"
    using d by (simp add: div_less_iff_less_mult less_diff_conv2 not_less mult.commute)
  show ?case
  proof (cases "acc > (u64_max - digit_value c) div 10")
    case True
    with iff grow [of "acc * 10 + digit_value c"] Cons.prems show ?thesis by (simp add: Let_def not_le)
  next
    case False
    with iff Cons show ?thesis by (simp add: Let_def)
  qed
qed simp

text \<open>\<open>ParseContentLength\<close> reads exactly the decimal numbers that fit 64 bits.\<close>

lemma parse_length_digits: "parse_length_from s acc = Some n \<Longrightarrow> list_all is_digit s"
  by (induction s arbitrary: acc) (auto simp: Let_def split: if_splits)

lemma ParseContentLength_iff:
  "ParseContentLength v = Some n \<longleftrightarrow> v \<noteq> [] \<and> list_all is_digit v \<and> digits_value v = n \<and> n \<le> u64_max"
  using parse_length_from_eq [of 0 v] parse_length_digits [of v 0 n]
  by (auto simp: ParseContentLength_def digits_value_def Let_def split: if_splits)

lemma ParseContentLength_to_string: "n \<le> u64_max \<Longrightarrow> ParseContentLength (to_string n) = Some n"
  by (simp add: ParseContentLength_iff to_string_digits)

lemma find_sub_from_Some:
  "find_sub_from pat pos s = Some i \<Longrightarrow> pos \<le> i \<and> i + length pat \<le> length s \<and> take (length pat) (drop i s) = pat"
  by (auto simp: find_sub_from_def add.commute dest!: find_sub_Some split: if_splits)

lemma find_sub_CRLF: "CR \<notin> set l \<Longrightarrow> find_sub CRLF (l @ CRLF @ rest) = Some (length l)"
  by (induction l) auto

lemma find_sub_from_append:
  "find_sub_from pat (length pre) (pre @ s) = map_option (\<lambda>i. length pre + i) (find_sub pat s)"
  by (simp add: find_sub_from_def)

lemma TrimOws_no_ows: "v = [] \<or> \<not> is_ows (hd v) \<and> \<not> is_ows (last v) \<Longrightarrow> TrimOws v = v"
proof (cases "v = []")
  case False
  assume a: "v = [] \<or> \<not> is_ows (hd v) \<and> \<not> is_ows (last v)"
  have "dropWhile P w = w" if "w \<noteq> []" "\<not> P (hd w)" for P :: "char \<Rightarrow> bool" and w
    using that by (cases w) simp_all
  with False a have "dropWhile is_ows v = v" "dropWhile is_ows (rev v) = rev v" by (simp_all add: hd_rev)
  then show ?thesis by (simp add: TrimOws_def)
qed (simp add: TrimOws_def)

lemma TrimOws_space [simp]: "TrimOws (CHR '' '' # v) = TrimOws v"
  by (simp add: TrimOws_def is_ows_def)

lemma TrimOws_set: "set (TrimOws v) \<subseteq> set v"
  by (auto simp: TrimOws_def dest!: set_dropWhileD)

lemma not_token_char [simp]:
  "\<not> is_token_char CR" "\<not> is_token_char LF" "\<not> is_token_char (CHR '' '')" "\<not> is_token_char (CHR '':'')"
  by code_simp+

lemma not_field_char [simp]: "\<not> is_field_char CR" "\<not> is_field_char LF"
  by code_simp+

lemma token_no_special:
  "IsToken v \<Longrightarrow> CR \<notin> set v \<and> LF \<notin> set v \<and> CHR '' '' \<notin> set v \<and> CHR '':'' \<notin> set v"
  unfolding IsToken_def list_all_iff using not_token_char by blast

lemma field_no_break: "IsValidFieldValue v \<Longrightarrow> CR \<notin> set v \<and> LF \<notin> set v"
  unfolding IsValidFieldValue_def list_all_iff using not_field_char by blast

lemma bare_append:
  "bare_line_feed_from p (s @ t) \<longleftrightarrow>
   bare_line_feed_from p s \<or> bare_line_feed_from (if s = [] then p else Some (last s)) t"
  by (induction s arbitrary: p) auto

lemma bare_no_LF: "LF \<notin> set s \<Longrightarrow> \<not> bare_line_feed_from p s"
  by (induction s arbitrary: p) auto

end
