(* ===== verification/HttpRequests.thy ===== *)
theory HttpRequests
  imports HttpText "HOL-Library.AList"
begin

text \<open>
  HTTP/1.1 requests: the incremental parser (\<open>HttpRequestParser\<close>) and the serializer of the
  upstream request (\<open>SerializeRequest\<close>).

  The header map of a request is an association list with distinct names; its order stands for
  the iteration order of the \<open>std::unordered_map\<close>, which the standard leaves open and which no
  property below restricts.
\<close>

section \<open>Requests and the parser\<close>

record http_request =
  rq_method :: string
  rq_target :: string
  rq_version :: string
  rq_body :: string
  rq_headers :: "(string \<times> string) list"

definition HttpRequest_new :: http_request where
  "HttpRequest_new = \<lparr>rq_method = [], rq_target = [], rq_version = [], rq_body = [], rq_headers = []\<rparr>"

definition Header :: "http_request \<Rightarrow> string \<Rightarrow> string" where
  "Header r name = (case map_of (rq_headers r) (LowerAscii name) of None \<Rightarrow> [] | Some v \<Rightarrow> v)"

text \<open>The method and the target of a valid request line.\<close>

definition ParseRequestLine :: "string \<Rightarrow> (string \<times> string) option" where
  "ParseRequestLine line =
     (case find_char (CHR '' '') line of
        None \<Rightarrow> None
      | Some first_space \<Rightarrow>
          (case find_char_from (CHR '' '') (first_space + 1) line of
             None \<Rightarrow> None
           | Some second_space \<Rightarrow>
               if find_char_from (CHR '' '') (second_space + 1) line \<noteq> None
                  \<or> first_space = 0 \<or> second_space = first_space + 1
                  \<or> drop (second_space + 1) line \<noteq> ''HTTP/1.1''
                  \<or> \<not> IsToken (take first_space line) then None
               else Some (take first_space line,
                      take (second_space - first_space - 1) (drop (first_space + 1) line))))"

text \<open>One field line; the state is \<open>has_content_length\<close>, \<open>content_length\<close> and the headers so far.\<close>

type_synonym field_state = "bool \<times> nat \<times> (string \<times> string) list"

definition ParseField :: "string \<Rightarrow> field_state \<Rightarrow> parse_result + field_state" where
  "ParseField line st =
     (case (find_char (CHR '':'') line, st) of
        (None, _) \<Rightarrow> Inl kError
      | (Some colon, (has_content_length, content_length, headers)) \<Rightarrow>
          if colon = 0 \<or> \<not> IsToken (take colon line) then Inl kError
          else let name = LowerAscii (take colon line); raw_value = drop (colon + 1) line in
            if \<not> IsValidFieldValue raw_value then Inl kError
            else let v = TrimOws raw_value in
              res_bind
                (if name = ''content-length'' then
                   (case ParseContentLength v of
                      None \<Rightarrow> Inl kError
                    | Some n \<Rightarrow>
                        if has_content_length \<or> n > kMaxRequestBodyBytes then Inl kError else Inr (True, n))
                 else Inr (has_content_length, content_length))
                (\<lambda>(has_content_length, content_length).
                   if name = ''transfer-encoding'' \<and> ContainsChunked v then Inl kUnsupported
                   else Inr (has_content_length, content_length,
                     if name = ''connection'' then
                       (case map_of headers name of
                          Some existing \<Rightarrow> AList.update name (existing @ '','' @ v) headers
                        | None \<Rightarrow> headers @ [(name, v)])
                     else AList.update name v headers)))"

text \<open>The loop over the field lines; the result is the end of the header area.\<close>

function ParseFields :: "string \<Rightarrow> nat \<Rightarrow> nat \<Rightarrow> field_state \<Rightarrow> parse_result + (nat \<times> field_state)" where
  "ParseFields bytes request_line_end cursor st =
     (if cursor > kMaxHeaderBytes + request_line_end + 2 then Inl kError
      else case find_sub_from CRLF cursor bytes of
        None \<Rightarrow>
          Inl (if length bytes > kMaxHeaderBytes + request_line_end + 2 then kError else kNeedMoreData)
      | Some line_end \<Rightarrow>
          if line_end + 2 - (request_line_end + 2) > kMaxHeaderBytes then Inl kError
          else if line_end = cursor then Inr (cursor + 2, st)
          else case ParseField (take (line_end - cursor) (drop cursor bytes)) st of
            Inl e \<Rightarrow> Inl e
          | Inr st' \<Rightarrow> ParseFields bytes request_line_end (line_end + 2) st')"
  by pat_completeness auto
termination
  by (relation "measure (\<lambda>(bytes, _, cursor, _). length bytes - cursor)")
    (auto dest!: find_sub_from_Some)

declare ParseFields.simps [simp del]

text \<open>A parse attempt on the unread bytes: the result, and the request with the number of bytes it takes.\<close>

definition ParseBytes :: "string \<Rightarrow> parse_result \<times> (http_request \<times> nat) option" where
  "ParseBytes bytes =
     (let protocol_bytes = (case find_sub (CRLF @ CRLF) bytes of None \<Rightarrow> bytes | Some e \<Rightarrow> take (e + 4) bytes) in
      if HasBareLineFeed protocol_bytes then (kError, None)
      else case find_sub CRLF bytes of
        None \<Rightarrow> (if length bytes > kMaxRequestLineBytes then kError else kNeedMoreData, None)
      | Some request_line_end \<Rightarrow>
          if request_line_end > kMaxRequestLineBytes then (kError, None)
          else case ParseRequestLine (take request_line_end bytes) of
            None \<Rightarrow> (kError, None)
          | Some (method, target) \<Rightarrow>
              case ParseFields bytes request_line_end (request_line_end + 2) (False, 0, []) of
                Inl e \<Rightarrow> (e, None)
              | Inr (cursor, _, content_length, headers) \<Rightarrow>
                  if length bytes - cursor < content_length then (kNeedMoreData, None)
                  else (kComplete,
                    Some (\<lparr>rq_method = method, rq_target = target, rq_version = ''HTTP/1.1'',
                           rq_body = take content_length (drop cursor bytes), rq_headers = headers\<rparr>,
                          cursor + content_length)))"

record request_parser =
  rp_result :: parse_result
  rp_request :: http_request

definition HttpRequestParser_new :: request_parser where
  "HttpRequestParser_new = \<lparr>rp_result = kNeedMoreData, rp_request = HttpRequest_new\<rparr>"

definition HttpRequestParser_Reset :: "request_parser \<Rightarrow> request_parser" where
  "HttpRequestParser_Reset p = HttpRequestParser_new"

text \<open>\<open>Parse\<close> returns its result, the parser and the buffer; \<open>Retrieve\<close> could throw.\<close>

definition HttpRequestParser_Parse ::
    "request_parser \<Rightarrow> buffer \<Rightarrow> cpp_error + (parse_result \<times> request_parser \<times> buffer)" where
  "HttpRequestParser_Parse p input =
     (if rp_result p \<noteq> kNeedMoreData then Inr (rp_result p, p, input)
      else case ParseBytes (ReadableView input) of
        (r, None) \<Rightarrow> Inr (r, p\<lparr>rp_result := r\<rparr>, input)
      | (r, Some (request, taken)) \<Rightarrow>
          res_bind (Retrieve input taken) (\<lambda>input.
            Inr (kComplete, \<lparr>rp_result = kComplete, rp_request = request\<rparr>, input)))"

section \<open>Serializer\<close>

definition TryAddWithinLimit :: "nat \<Rightarrow> nat \<Rightarrow> nat \<Rightarrow> cpp_error + nat" where
  "TryAddWithinLimit total_bytes n limit =
     (if n > limit - total_bytes then Inl InvalidArgument else Inr (total_bytes + n))"

definition IsHexDigit :: "char \<Rightarrow> bool" where
  "IsHexDigit c \<longleftrightarrow> is_digit c \<or> (65 \<le> code_of c \<and> code_of c \<le> 70) \<or> (97 \<le> code_of c \<and> code_of c \<le> 102)"

definition IsUnreserved :: "char \<Rightarrow> bool" where
  "IsUnreserved c \<longleftrightarrow> is_upper c \<or> is_lower c \<or> is_digit c \<or> c \<in> set ''-._~''"

definition IsSubDelimiter :: "char \<Rightarrow> bool" where
  "IsSubDelimiter c \<longleftrightarrow> c \<in> set (''!$&'' @ [CHR 0x27] @ ''()*+,;='')"

definition uri_char :: "bool \<Rightarrow> char \<Rightarrow> bool" where
  "uri_char is_query c \<longleftrightarrow> IsUnreserved c \<or> IsSubDelimiter c \<or> c = CHR '':'' \<or> c = CHR ''@'' \<or> c = CHR ''/''
     \<or> is_query \<and> c = CHR ''?''"

fun IsValidUriComponent :: "bool \<Rightarrow> string \<Rightarrow> bool" where
  "IsValidUriComponent is_query [] = True"
| "IsValidUriComponent is_query (c # s) =
     (if uri_char is_query c then IsValidUriComponent is_query s
      else if c \<noteq> CHR ''%'' then False
      else case s of
        h # l # s' \<Rightarrow> IsHexDigit h \<and> IsHexDigit l \<and> IsValidUriComponent is_query s'
      | _ \<Rightarrow> False)"

definition IsValidTarget :: "string \<Rightarrow> bool" where
  "IsValidTarget target =
     (if target = [] \<or> hd target \<noteq> CHR ''/'' then False
      else case find_char (CHR ''?'') target of
        None \<Rightarrow> IsValidUriComponent False target
      | Some query_start \<Rightarrow>
          IsValidUriComponent False (take query_start target)
          \<and> IsValidUriComponent True (drop (query_start + 1) target))"

definition add_all :: "nat list \<Rightarrow> nat \<Rightarrow> nat \<Rightarrow> cpp_error + nat" where
  "add_all ns limit start = fold (\<lambda>n r. res_bind r (\<lambda>t. TryAddWithinLimit t n limit)) ns (Inr start)"

text \<open>The checking loop over the headers, with the bytes counted and the number of Host fields.\<close>

fun check_headers :: "(string \<times> string) list \<Rightarrow> nat \<Rightarrow> nat \<Rightarrow> cpp_error + (nat \<times> nat)" where
  "check_headers [] header_bytes host_count = Inr (header_bytes, host_count)"
| "check_headers ((name, v) # headers) header_bytes host_count =
     (if \<not> IsToken name \<or> \<not> IsValidFieldValue v then Inl InvalidArgument
      else res_bind (add_all [length name, 2, length v, 2] kMaxHeaderBytes header_bytes) (\<lambda>header_bytes.
        let lower_name = LowerAscii name in
        if lower_name = ''content-length'' \<or> lower_name = ''transfer-encoding'' \<or> lower_name = ''connection''
        then Inl InvalidArgument
        else check_headers headers header_bytes (if lower_name = ''host'' then host_count + 1 else host_count)))"

definition field_line :: "string \<times> string \<Rightarrow> string" where
  "field_line nv = fst nv @ '': '' @ snd nv @ CRLF"

definition SerializeRequest :: "http_request \<Rightarrow> cpp_error + string" where
  "SerializeRequest r =
     (if \<not> IsToken (rq_method r) \<or> \<not> IsValidTarget (rq_target r) \<or> rq_version r \<noteq> ''HTTP/1.1''
         \<or> length (rq_body r) > kMaxRequestBodyBytes then Inl InvalidArgument
      else res_bind (add_all [length (rq_method r), 1, length (rq_target r), 1, length (rq_version r)]
                      kMaxRequestLineBytes 0) (\<lambda>_.
        res_bind (check_headers (rq_headers r) 0 0) (\<lambda>(header_bytes, host_count).
          if host_count \<noteq> 1 then Inl InvalidArgument
          else let content_length = field_line (''Content-Length'', to_string (length (rq_body r)));
                   connection = field_line (''Connection'', ''keep-alive'') in
            res_bind (add_all [length content_length, length connection, 2] kMaxHeaderBytes header_bytes) (\<lambda>_.
              Inr (rq_method r @ '' '' @ rq_target r @ '' '' @ rq_version r @ CRLF
                @ concat (map field_line (rq_headers r)) @ content_length @ connection @ CRLF @ rq_body r)))))"

end
