(* ===== verification/HttpFieldLoop.thy ===== *)
theory HttpFieldLoop
  imports HttpText
begin

text \<open>
  The loop over header field lines that the request parser and the response parser share: it
  cuts the bytes at CRLF, stops at the empty line, and gives every other line to the parser's
  own treatment of a field.  What follows from the loop alone is proved here once, for any such
  treatment.
\<close>

section \<open>Searching in growing texts\<close>

lemma find_sub_None:
  assumes "find_sub pat s = None"
  shows "take (length pat) (drop i s) \<noteq> pat \<or> i + length pat > length s"
  using assms
proof (induction s arbitrary: i)
  case Nil
  then show ?case by (auto split: if_splits)
next
  case (Cons c s)
  have tl: "take (length pat) (c # s) \<noteq> pat" "find_sub pat s = None"
    using Cons.prems by (auto split: if_splits)
  show ?case
  proof (cases i)
    case 0
    with tl show ?thesis by simp
  next
    case (Suc j)
    with Cons.IH [OF tl(2), of j] show ?thesis by simp
  qed
qed

lemma find_sub_prefix:
  assumes "find_sub pat (s @ t) = Some i" and "i + length pat \<le> length s"
  shows "find_sub pat s = Some i"
proof (cases "find_sub pat s")
  case None
  have "take (length pat) (drop i (s @ t)) = pat" using find_sub_Some [OF assms(1)] by blast
  then have "take (length pat) (drop i s) = pat" using assms(2) by simp
  with find_sub_None [OF None, of i] assms(2) show ?thesis by simp
next
  case (Some j)
  with find_sub_append [OF Some, of t] assms(1) show ?thesis by simp
qed

lemma find_sub_occurs:
  assumes "take (length pat) (drop i s) = pat" and "i + length pat \<le> length s"
  shows "find_sub pat s \<noteq> None"
  using find_sub_None [of pat s i] assms by auto

lemma find_sub_from_text:
  assumes "find_sub_from pat pos s = Some i"
  shows "find_sub_from pat pos (s @ t) = Some i"
  using assms find_sub_append [of pat "drop pos s" _ t]
  by (auto simp: find_sub_from_def split: if_splits)

lemma find_sub_from_new:
  assumes "find_sub_from pat pos s = None" and "find_sub_from pat pos (s @ t) = Some i" and "pos \<le> length s"
  shows "length s < i + length pat"
proof (rule ccontr)
  assume a: "\<not> length s < i + length pat"
  from assms(2,3) obtain j where j: "find_sub pat (drop pos s @ t) = Some j" "i = pos + j"
    by (auto simp: find_sub_from_def)
  have "j + length pat \<le> length (drop pos s)" using a j(2) by simp
  from find_sub_prefix [OF j(1) this] assms(1,3) show False by (simp add: find_sub_from_def)
qed

lemma line_end_progress: "find_sub_from CRLF cursor b = Some le \<Longrightarrow> length b - (le + 2) < length b - cursor"
  using find_sub_from_Some [of CRLF cursor b le] by auto

text \<open>The header area of the longer text extends that of the shorter one.\<close>

abbreviation protocol_area :: "string \<Rightarrow> string" where
  "protocol_area bytes \<equiv> (case find_sub (CRLF @ CRLF) bytes of None \<Rightarrow> bytes | Some e \<Rightarrow> take (e + 4) bytes)"

lemma protocol_area_append:
  obtains u where "protocol_area (b @ t) = protocol_area b @ u"
    and "find_sub (CRLF @ CRLF) b \<noteq> None \<Longrightarrow> u = []"
proof (cases "find_sub (CRLF @ CRLF) b")
  case (Some e)
  then have "e + 4 \<le> length b" using find_sub_Some [OF Some] by simp
  with find_sub_append [OF Some, of t] Some show ?thesis by (intro that [of "[]"]) simp_all
next
  case None
  show ?thesis
  proof (cases "find_sub (CRLF @ CRLF) (b @ t)")
    case None': None
    with None show ?thesis by (intro that [of t]) simp_all
  next
    case (Some e)
    have "length b < e + 4"
    proof (rule ccontr)
      assume "\<not> length b < e + 4"
      then have "e + length (CRLF @ CRLF) \<le> length b" by simp
      from find_sub_prefix [OF Some this] None show False by simp
    qed
    with Some None show ?thesis by (intro that [of "take (e + 4 - length b) t"]) simp_all
  qed
qed

lemma bare_prefix: "\<not> bare_line_feed_from p (s @ t) \<Longrightarrow> \<not> bare_line_feed_from p s"
  by (simp add: bare_append)

lemma bare_protocol_append:
  "HasBareLineFeed (protocol_area b) \<Longrightarrow> HasBareLineFeed (protocol_area (b @ t))"
  by (rule protocol_area_append [of b t]) (simp add: HasBareLineFeed_def bare_append)

lemma protocol_within_head:
  assumes "\<not> bare_line_feed_from None (x @ CRLF @ CRLF)"
  shows "\<not> HasBareLineFeed (protocol_area ((x @ CRLF @ CRLF) @ rest))"
proof -
  let ?b = "(x @ CRLF @ CRLF) @ rest"
  have at: "take (length (CRLF @ CRLF)) (drop (length x) ?b) = CRLF @ CRLF" by simp
  then obtain e where e: "find_sub (CRLF @ CRLF) ?b = Some e"
    using find_sub_occurs [OF at] by auto
  have "e \<le> length x" using find_sub_first [OF e, of "length x"] at by (meson leI)
  then have "take (e + 4) (h @ rest) = take (e + 4) h" if "length h = length x + 4" for h using that by simp
  from this [of "x @ CRLF @ CRLF"] have "protocol_area ?b = take (e + 4) (x @ CRLF @ CRLF)"
    unfolding e option.case by simp
  moreover have "\<not> bare_line_feed_from None (take (e + 4) (x @ CRLF @ CRLF))"
    using assms bare_prefix [of None "take (e + 4) (x @ CRLF @ CRLF)" "drop (e + 4) (x @ CRLF @ CRLF)"]
    by (simp only: append_take_drop_id) simp
  ultimately show ?thesis by (simp add: HasBareLineFeed_def)
qed

section \<open>The loop\<close>

text \<open>
  \<open>first\<close> is the offset of the CRLF of the start line; \<open>step\<close> treats one line; \<open>unfinished\<close>
  says that a line without an end is already too long.
\<close>

locale field_loop =
  fixes loop :: "string \<Rightarrow> nat \<Rightarrow> nat \<Rightarrow> 's \<Rightarrow> parse_result + (nat \<times> 's)"
    and step :: "string \<Rightarrow> 's \<Rightarrow> parse_result + 's"
    and unfinished :: "string \<Rightarrow> nat \<Rightarrow> nat \<Rightarrow> bool"
  assumes loop_eq: "loop bytes first cursor st =
     (if cursor > kMaxHeaderBytes + first + 2 then Inl kError
      else case find_sub_from CRLF cursor bytes of
        None \<Rightarrow> Inl (if unfinished bytes first cursor then kError else kNeedMoreData)
      | Some line_end \<Rightarrow>
          if line_end + 2 - (first + 2) > kMaxHeaderBytes then Inl kError
          else if line_end = cursor then Inr (cursor + 2, st)
          else case step (take (line_end - cursor) (drop cursor bytes)) st of
            Inl e \<Rightarrow> Inl e
          | Inr st' \<Rightarrow> loop bytes first (line_end + 2) st')"
    and step_errors: "step line st = Inl e \<Longrightarrow> e = kError \<or> e = kUnsupported"
begin

lemma loop_done:
  assumes "loop b first cursor st = Inr (c, st')"
  obtains le where "find_sub_from CRLF cursor b = Some le"
    "le = cursor \<and> c = cursor + 2 \<and> st' = st
     \<or> le \<noteq> cursor \<and> (\<exists>st1. step (take (le - cursor) (drop cursor b)) st = Inr st1
          \<and> loop b first (le + 2) st1 = Inr (c, st'))"
  using assms loop_eq [of b first cursor st]
  by (auto split: if_splits option.splits sum.splits)

text \<open>Induction along the lines of a completed header area.\<close>

lemma loop_induct [consumes 1, case_names empty line]:
  assumes "loop b first cursor st = Inr (c, st')"
    and "\<And>cursor. find_sub_from CRLF cursor b = Some cursor \<Longrightarrow> c = cursor + 2 \<Longrightarrow> P cursor st'"
    and "\<And>cursor st le st1. find_sub_from CRLF cursor b = Some le \<Longrightarrow> le \<noteq> cursor \<Longrightarrow>
      step (take (le - cursor) (drop cursor b)) st = Inr st1 \<Longrightarrow> loop b first (le + 2) st1 = Inr (c, st') \<Longrightarrow>
      P (le + 2) st1 \<Longrightarrow> P cursor st"
  shows "P cursor st"
  using assms(1)
proof (induction "length b - cursor" arbitrary: cursor st rule: less_induct)
  case less
  show ?case
  proof (rule loop_done [OF less.prems])
    fix le
    assume le: "find_sub_from CRLF cursor b = Some le"
      and cases: "le = cursor \<and> c = cursor + 2 \<and> st' = st
        \<or> le \<noteq> cursor \<and> (\<exists>st1. step (take (le - cursor) (drop cursor b)) st = Inr st1
             \<and> loop b first (le + 2) st1 = Inr (c, st'))"
    from cases show ?thesis
    proof (elim disjE conjE exE)
      assume "le = cursor" "c = cursor + 2" "st' = st"
      with assms(2) [of cursor] le show ?thesis by simp
    next
      fix st1
      assume a: "le \<noteq> cursor" "step (take (le - cursor) (drop cursor b)) st = Inr st1"
        "loop b first (le + 2) st1 = Inr (c, st')"
      have "length b - (le + 2) < length b - cursor" using le by (rule line_end_progress)
      from less.hyps [OF this a(3)] show ?thesis by (rule assms(3) [OF le a])
    qed
  qed
qed

lemma loop_end:
  assumes "loop b first cursor st = Inr (c, st')" and "2 \<le> cursor" and "take 2 (drop (cursor - 2) b) = CRLF"
  shows "cursor + 2 \<le> c \<and> c \<le> length b \<and> take 4 (drop (c - 4) b) = CRLF @ CRLF"
  using assms
proof (induction rule: loop_induct)
  case (empty cursor)
  note f = find_sub_from_Some [OF empty(1)]
  have "take 2 (drop cursor b) = CRLF" using f by (simp add: numeral_2_eq_2)
  moreover have "take 4 (drop (cursor - 2) b) = take 2 (drop (cursor - 2) b) @ take 2 (drop cursor b)"
  proof -
    have "2 + (cursor - 2) = cursor" using empty(3) by simp
    then have "drop 2 (drop (cursor - 2) b) = drop cursor b" by (simp only: drop_drop)
    then show ?thesis by (metis numeral_Bit0 take_add)
  qed
  moreover have "drop (c - 4) b = drop (cursor - 2) b" using empty(2,3) by simp
  ultimately show ?case using f empty by simp
next
  case (line cursor st le st1)
  note f = find_sub_from_Some [OF line(1)]
  have "take 2 (drop (le + 2 - 2) b) = CRLF" using f by (simp add: numeral_2_eq_2)
  with line(5) f show ?case by fastforce
qed

lemma loop_errors: "loop b first cursor st = Inl e \<Longrightarrow> e \<noteq> kComplete"
proof (induction "length b - cursor" arbitrary: cursor st rule: less_induct)
  case less
  show ?case
  proof (cases "find_sub_from CRLF cursor b")
    case None
    with less.prems loop_eq [of b first cursor st] show ?thesis by (auto split: if_splits)
  next
    case (Some le)
    have "length b - (le + 2) < length b - cursor" using Some by (rule line_end_progress)
    from less.hyps [OF this] less.prems loop_eq [of b first cursor st] Some step_errors show ?thesis
      by (fastforce split: if_splits sum.splits)
  qed
qed

lemma loop_line:
  assumes "CR \<notin> set l" "l \<noteq> []" "step l st = Inr st'" "first + 2 \<le> length pre"
    and "length pre + length l \<le> kMaxHeaderBytes + first"
  shows "loop (pre @ l @ CRLF @ rest) first (length pre) st
    = loop (pre @ l @ CRLF @ rest) first (length pre + length l + 2) st'"
proof -
  have f: "find_sub_from CRLF (length pre) (pre @ l @ CRLF @ rest) = Some (length pre + length l)"
    unfolding find_sub_from_append using find_sub_CRLF [OF assms(1)] by simp
  have line: "take (length pre + length l - length pre) (drop (length pre) (pre @ l @ CRLF @ rest)) = l" by simp
  have "\<not> length pre + length l + 2 - (first + 2) > kMaxHeaderBytes" "\<not> length pre > kMaxHeaderBytes + first + 2"
    using assms(4,5) by linarith+
  then show ?thesis
    by (subst loop_eq, unfold f option.case line) (use assms(2,3) in simp)
qed

lemma loop_empty_line:
  assumes "first + 2 \<le> length pre" and "length pre \<le> kMaxHeaderBytes + first"
  shows "loop (pre @ CRLF @ rest) first (length pre) st = Inr (length pre + 2, st)"
proof -
  have f: "find_sub_from CRLF (length pre) (pre @ CRLF @ rest) = Some (length pre)"
    using find_sub_from_append [of CRLF pre "CRLF @ rest"] find_sub_CRLF [of "[]" rest] by simp
  have "\<not> length pre + 2 - (first + 2) > kMaxHeaderBytes" "\<not> length pre > kMaxHeaderBytes + first + 2"
    using assms by linarith+
  then show ?thesis by (subst loop_eq, unfold f option.case) simp
qed

text \<open>Lines that the loop consumes one after another.\<close>

lemma loop_lines:
  assumes "fold (\<lambda>l r. case r of Inl e \<Rightarrow> Inl e | Inr st \<Rightarrow> step l st) ls (Inr st) = Inr st'"
    and "\<forall>l \<in> set ls. CR \<notin> set l \<and> l \<noteq> []" and "first + 2 \<le> length pre"
    and "length pre + length (concat (map (\<lambda>l. l @ CRLF) ls)) \<le> kMaxHeaderBytes + first + 2"
  shows "loop (pre @ concat (map (\<lambda>l. l @ CRLF) ls) @ rest) first (length pre) st
    = loop (pre @ concat (map (\<lambda>l. l @ CRLF) ls) @ rest) first (length pre + length (concat (map (\<lambda>l. l @ CRLF) ls))) st'"
  using assms
proof (induction ls arbitrary: pre st)
  case (Cons l ls)
  have inl: "fold (\<lambda>l r. case r of Inl e \<Rightarrow> Inl e | Inr st \<Rightarrow> step l st) ls (Inl e) = Inl e" for e
    by (induction ls) simp_all
  from Cons.prems(1) obtain st1 where st1: "step l st = Inr st1"
    "fold (\<lambda>l r. case r of Inl e \<Rightarrow> Inl e | Inr st \<Rightarrow> step l st) ls (Inr st1) = Inr st'"
    by (cases "step l st") (simp_all add: inl)
  let ?ls = "concat (map (\<lambda>l. l @ CRLF) ls)"
  have bytes: "pre @ concat (map (\<lambda>l. l @ CRLF) (l # ls)) @ rest = pre @ l @ CRLF @ (?ls @ rest)" by simp
  have step1: "loop (pre @ l @ CRLF @ (?ls @ rest)) first (length pre) st
      = loop (pre @ l @ CRLF @ (?ls @ rest)) first (length pre + length l + 2) st1"
    by (rule loop_line [OF _ _ st1(1)]) (use Cons.prems in simp_all)
  let ?pre = "pre @ l @ CRLF"
  have IH: "loop (?pre @ ?ls @ rest) first (length ?pre) st1 = loop (?pre @ ?ls @ rest) first (length ?pre + length ?ls) st'"
    by (rule Cons.IH [OF st1(2)]) (use Cons.prems in simp_all)
  have 1: "length pre + length l + 2 = length ?pre" by simp
  have 2: "length ?pre + length ?ls = length pre + length (concat (map (\<lambda>l. l @ CRLF) (l # ls)))" by simp
  have 3: "?pre @ ?ls @ rest = pre @ l @ CRLF @ (?ls @ rest)" by simp
  show ?case unfolding bytes using step1 [unfolded 1] IH [unfolded 2 3] by (rule trans)
qed simp

text \<open>A whole header area.\<close>

lemma loop_area:
  assumes "fold (\<lambda>l r. case r of Inl e \<Rightarrow> Inl e | Inr st \<Rightarrow> step l st) ls (Inr st) = Inr st'"
    and "\<forall>l \<in> set ls. CR \<notin> set l \<and> l \<noteq> []" and "length pre = first + 2"
    and "length (concat (map (\<lambda>l. l @ CRLF) ls)) + 2 \<le> kMaxHeaderBytes"
  shows "loop (pre @ concat (map (\<lambda>l. l @ CRLF) ls) @ CRLF @ rest) first (length pre) st
    = Inr (length pre + length (concat (map (\<lambda>l. l @ CRLF) ls)) + 2, st')"
proof -
  let ?ls = "concat (map (\<lambda>l. l @ CRLF) ls)"
  have "loop (pre @ ?ls @ (CRLF @ rest)) first (length pre) st = loop (pre @ ?ls @ (CRLF @ rest)) first (length pre + length ?ls) st'"
    by (rule loop_lines [OF assms(1,2)]) (use assms(3,4) in simp_all)
  also have "\<dots> = loop ((pre @ ?ls) @ CRLF @ rest) first (length (pre @ ?ls)) st'" by simp
  also have "\<dots> = Inr (length (pre @ ?ls) + 2, st')"
    by (rule loop_empty_line) (use assms(3,4) in simp_all)
  finally show ?thesis by simp
qed

end

text \<open>A loop whose length check on an unfinished line agrees with the check on the finished one.\<close>

locale stable_field_loop = field_loop +
  assumes unfinished_eq: "unfinished bytes first cursor \<longleftrightarrow> length bytes > kMaxHeaderBytes + first + 2"
begin

lemma loop_append:
  assumes "loop b first cursor st = r" and "r \<noteq> Inl kNeedMoreData" and "first + 2 \<le> cursor" and "cursor \<le> length b"
  shows "loop (b @ t) first cursor st = r"
  using assms
proof (induction "length b - cursor" arbitrary: cursor st rule: less_induct)
  case less
  note eq = loop_eq [of b first cursor st] and eq' = loop_eq [of "b @ t" first cursor st]
  show ?case
  proof (cases "cursor > kMaxHeaderBytes + first + 2")
    case True
    with less.prems(1) eq eq' show ?thesis by simp
  next
    case small: False
    show ?thesis
    proof (cases "find_sub_from CRLF cursor b")
      case None
      with less.prems(1,2) small eq have long: "length b > kMaxHeaderBytes + first + 2" and r: "r = Inl kError"
        by (auto simp: unfinished_eq split: if_splits)
      show ?thesis
      proof (cases "find_sub_from CRLF cursor (b @ t)")
        case None': None
        with small long r eq' show ?thesis by (simp add: unfinished_eq)
      next
        case (Some le)
        from find_sub_from_new [OF None Some less.prems(4)] have "length b < le + 2" by simp
        with long have "le + 2 - (first + 2) > kMaxHeaderBytes" by linarith
        with Some small r eq' show ?thesis by simp
      qed
    next
      case (Some le)
      note le = find_sub_from_Some [OF Some]
      note Some' = find_sub_from_text [OF Some, of t]
      show ?thesis
      proof (cases "le + 2 - (first + 2) > kMaxHeaderBytes \<or> le = cursor")
        case True
        with Some Some' small less.prems(1) eq eq' show ?thesis by (auto split: if_splits)
      next
        case False
        define line where "line = take (le - cursor) (drop cursor b)"
        have line': "take (le - cursor) (drop cursor (b @ t)) = line"
          using le less.prems(4) by (simp add: line_def)
        have step1: "loop b first cursor st
            = (case step line st of Inl e \<Rightarrow> Inl e | Inr st' \<Rightarrow> loop b first (le + 2) st')"
          unfolding eq using small Some False by (simp add: line_def)
        have step2: "loop (b @ t) first cursor st
            = (case step line st of Inl e \<Rightarrow> Inl e | Inr st' \<Rightarrow> loop (b @ t) first (le + 2) st')"
          unfolding eq' Some' using small False line' by (simp del: take_append drop_append)
        show ?thesis
        proof (cases "step line st")
          case (Inl e)
          with step1 step2 less.prems(1) show ?thesis by simp
        next
          case (Inr st')
          have "loop (b @ t) first (le + 2) st' = r"
            by (rule less.hyps) (use le less.prems step1 Inr in auto)
          with step2 Inr show ?thesis by simp
        qed
      qed
    qed
  qed
qed

end

end
