(* ===== verification/HttpFraming.thy ===== *)
theory HttpFraming
  imports HttpRequests HttpFieldLoop
begin

text \<open>
  What the request parser guarantees: its answers do not depend on how the bytes arrive (with
  one exception at the length limit of the request line), a completed request is well framed,
  and it reads back what the serializer writes.
\<close>

section \<open>The field loop\<close>

lemma ParseField_errors: "ParseField line st = Inl e \<Longrightarrow> e = kError \<or> e = kUnsupported"
  by (auto simp: ParseField_def Let_def res_bind_Inl_iff split: option.splits prod.splits if_splits)

interpretation rq: stable_field_loop ParseFields ParseField
    "\<lambda>bytes first cursor. length bytes > kMaxHeaderBytes + first + 2"
  by unfold_locales (auto simp: ParseFields.simps dest: ParseField_errors)

section \<open>Appended bytes\<close>

lemma ParseBytes_lines:
  assumes "\<not> HasBareLineFeed (protocol_area b)" and "find_sub CRLF b = Some rle"
  shows "ParseBytes b =
    (if rle > kMaxRequestLineBytes then (kError, None)
     else case ParseRequestLine (take rle b) of
       None \<Rightarrow> (kError, None)
     | Some (method, target) \<Rightarrow>
         case ParseFields b rle (rle + 2) (False, 0, []) of
           Inl e \<Rightarrow> (e, None)
         | Inr (cursor, _, content_length, headers) \<Rightarrow>
             if length b - cursor < content_length then (kNeedMoreData, None)
             else (kComplete,
               Some (\<lparr>rq_method = method, rq_target = target, rq_version = ''HTTP/1.1'',
                      rq_body = take content_length (drop cursor b), rq_headers = headers\<rparr>,
                     cursor + content_length)))"
  using assms by (simp add: ParseBytes_def Let_def)

lemma ParseBytes_bare: "HasBareLineFeed (protocol_area b) \<Longrightarrow> ParseBytes b = (kError, None)"
  by (simp add: ParseBytes_def Let_def)

text \<open>A parse that got past the request line.\<close>

lemma ParseBytes_incremental:
  assumes line: "find_sub CRLF b = Some rle" and bare: "\<not> HasBareLineFeed (protocol_area b)"
    and r: "fst (ParseBytes b) \<noteq> kNeedMoreData"
  shows "ParseBytes (b @ t) = ParseBytes b
    \<or> fst (ParseBytes b) \<noteq> kComplete \<and> fst (ParseBytes (b @ t)) = kError"
proof -
  note rle = find_sub_Some [OF line]
  have line': "find_sub CRLF (b @ t) = Some rle" using find_sub_append [OF line] .
  have take': "take rle (b @ t) = take rle b" using rle by simp
  show ?thesis
  proof (cases "HasBareLineFeed (protocol_area (b @ t))")
    case True
    have "fst (ParseBytes b) \<noteq> kComplete"
    proof
      assume c: "fst (ParseBytes b) = kComplete"
      then obtain cur st where "ParseFields b rle (rle + 2) (False, 0, []) = Inr (cur, st)"
        unfolding ParseBytes_lines [OF bare line]
        by (auto split: if_splits option.splits prod.splits sum.splits dest: rq.loop_errors)
      from rq.loop_end [OF this] rle
      have e: "cur \<le> length b" "take 4 (drop (cur - 4) b) = CRLF @ CRLF" "4 \<le> cur" by (simp_all add: numeral_2_eq_2)
      have "find_sub (CRLF @ CRLF) b \<noteq> None"
        by (rule find_sub_occurs [of _ "cur - 4"]) (use e in \<open>simp_all add: eval_nat_numeral\<close>)
      with protocol_area_append [of b t] True bare show False by force
    qed
    with ParseBytes_bare [OF True] show ?thesis by simp
  next
    case False
    note eq = ParseBytes_lines [OF bare line] and eq' = ParseBytes_lines [OF False line']
    show ?thesis
    proof (cases "rle > kMaxRequestLineBytes \<or> ParseRequestLine (take rle b) = None")
      case True
      then show ?thesis unfolding eq eq' take' by auto
    next
      case ok: False
      then obtain m tg where mt: "ParseRequestLine (take rle b) = Some (m, tg)" by auto
      have need: "ParseFields b rle (rle + 2) (False, 0, []) \<noteq> Inl kNeedMoreData"
        using r ok mt unfolding eq by (auto split: sum.splits)
      have app: "ParseFields (b @ t) rle (rle + 2) (False, 0, []) = ParseFields b rle (rle + 2) (False, 0, [])"
        by (rule rq.loop_append [OF refl need]) (use rle in simp_all)
      show ?thesis
      proof (cases "ParseFields b rle (rle + 2) (False, 0, [])")
        case (Inl e)
        with ok mt app show ?thesis unfolding eq eq' take' by simp
      next
        case (Inr p)
        obtain cur h cl hs where p: "p = (cur, h, cl, hs)" by (cases p)
        from rq.loop_end [OF Inr [unfolded p]] rle have cur: "cur \<le> length b" by (simp add: numeral_2_eq_2)
        have "\<not> length b - cur < cl" using r ok mt Inr p unfolding eq by (auto split: if_splits)
        then have "take cl (drop cur (b @ t)) = take cl (drop cur b)" "\<not> length (b @ t) - cur < cl"
          using cur by simp_all
        then show ?thesis using ok mt app Inr p \<open>\<not> length b - cur < cl\<close> unfolding eq eq' take'
          by (simp del: take_append drop_append)
      qed
    qed
  qed
qed

text \<open>
   C20. Incremental parsing: once the parser has answered, no byte that arrives later changes a
  completed request, makes an erroneous one acceptable, or turns an unsupported one into
  anything but an error.  The exception is an input one byte longer than the limit of the
  request line that ends in a carriage return.
\<close>

theorem Parse_incremental:
  assumes "fst (ParseBytes b) \<noteq> kNeedMoreData"
    and "\<not> (length b = kMaxRequestLineBytes + 1 \<and> last b = CR \<and> find_sub CRLF b = None)"
  shows "ParseBytes (b @ t) = ParseBytes b
    \<or> fst (ParseBytes b) \<noteq> kComplete \<and> fst (ParseBytes (b @ t)) = kError"
proof (cases "HasBareLineFeed (protocol_area b)")
  case True
  with ParseBytes_bare bare_protocol_append show ?thesis by simp
next
  case bare: False
  show ?thesis
  proof (cases "find_sub CRLF b")
    case (Some rle)
    from ParseBytes_incremental [OF Some bare assms(1)] show ?thesis .
  next
    case None
    with assms(1) bare have long: "length b > kMaxRequestLineBytes" and b: "ParseBytes b = (kError, None)"
      by (auto simp: ParseBytes_def Let_def split: if_splits)
    show ?thesis
    proof (cases "HasBareLineFeed (protocol_area (b @ t))")
      case True
      with ParseBytes_bare b show ?thesis by simp
    next
      case bare': False
      show ?thesis
      proof (cases "find_sub CRLF (b @ t)")
        case None': None
        with bare' long b show ?thesis by (simp add: ParseBytes_def Let_def)
      next
        case (Some rle)
        have ge: "length b \<le> rle + 1"
          using find_sub_prefix [OF Some] None by (cases "rle + 2 \<le> length b") simp_all
        have "rle \<noteq> kMaxRequestLineBytes"
        proof
          assume rle: "rle = kMaxRequestLineBytes"
          with ge long have len: "length b = kMaxRequestLineBytes + 1" by simp
          have "take 2 (drop rle (b @ t)) = CRLF" using find_sub_Some [OF Some] by (simp add: numeral_2_eq_2)
          then have "(b @ t) ! rle = CR"
            by (metis drop_eq_Nil2 hd_drop_conv_nth hd_take leI list.sel(1) list.simps(3) take_eq_Nil zero_less_numeral)
          moreover have "b \<noteq> []" using len by auto
          ultimately have "last b = CR" using len rle by (simp add: last_conv_nth nth_append)
          with assms(2) len None show False by blast
        qed
        with ge long have "rle > kMaxRequestLineBytes" by simp
        with ParseBytes_lines [OF bare' Some] b show ?thesis by simp
      qed
    qed
  qed
qed

section \<open>Framing of a completed request\<close>

definition name_ok :: "string \<Rightarrow> bool" where
  "name_ok n \<longleftrightarrow> IsToken n \<and> LowerAscii n = n"

definition declared_length :: "(string \<times> string) list \<Rightarrow> nat" where
  "declared_length hs = (case map_of hs ''content-length'' of None \<Rightarrow> 0 | Some v \<Rightarrow> digits_value v)"

definition fields_ok :: "field_state \<Rightarrow> bool" where
  "fields_ok st \<longleftrightarrow> (case st of (has_cl, cl, hs) \<Rightarrow>
     distinct (map fst hs) \<and> (\<forall>(n, v) \<in> set hs. name_ok n \<and> CR \<notin> set v \<and> LF \<notin> set v)
     \<and> cl = declared_length hs \<and> cl \<le> kMaxRequestBodyBytes
     \<and> (has_cl \<longleftrightarrow> map_of hs ''content-length'' \<noteq> None)
     \<and> (\<forall>v. map_of hs ''transfer-encoding'' = Some v \<longrightarrow> \<not> ContainsChunked v))"

lemma lower_token_char: "is_token_char c \<Longrightarrow> is_token_char (lower_char c)"
  using code_lower_char [of c]
  by (cases "is_upper c") (auto simp: is_token_char_def is_lower_def is_upper_def lower_char_def)

lemma lower_name_ok: "IsToken n \<Longrightarrow> name_ok (LowerAscii n)"
  by (auto simp: name_ok_def IsToken_def LowerAscii_def list_all_iff lower_token_char)

lemma ParseField_cases:
  assumes "ParseField line (has_cl, cl, hs) = Inr st'"
  obtains name v has_cl' cl' where
    "name_ok name" "CR \<notin> set v" "LF \<notin> set v"
    "if name = ''content-length'' then \<not> has_cl \<and> ParseContentLength v = Some cl' \<and> cl' \<le> kMaxRequestBodyBytes \<and> has_cl'
     else cl' = cl \<and> has_cl' = has_cl"
    "name = ''transfer-encoding'' \<Longrightarrow> \<not> ContainsChunked v"
    "st' = (has_cl', cl', if name = ''connection'' then
        (case map_of hs name of Some existing \<Rightarrow> AList.update name (existing @ '','' @ v) hs | None \<Rightarrow> hs @ [(name, v)])
      else AList.update name v hs)"
proof -
  from assms obtain colon where colon: "find_char (CHR '':'') line = Some colon"
    and tok: "IsToken (take colon line)" and val: "IsValidFieldValue (drop (colon + 1) line)"
    by (auto simp: ParseField_def Let_def split: option.splits if_splits)
  let ?name = "LowerAscii (take colon line)" and ?v = "TrimOws (drop (colon + 1) line)"
  have brk: "CR \<notin> set ?v" "LF \<notin> set ?v"
    using field_no_break [OF val] TrimOws_set [of "drop (colon + 1) line"] by blast+
  have col: "colon \<noteq> 0" using tok by (auto simp: IsToken_def)
  define hs' where "hs' = (if ?name = ''connection'' then
        (case map_of hs ?name of Some existing \<Rightarrow> AList.update ?name (existing @ '','' @ ?v) hs | None \<Rightarrow> hs @ [(?name, ?v)])
      else AList.update ?name ?v hs)"
  have eq: "ParseField line (has_cl, cl, hs) = res_bind
      (if ?name = ''content-length'' then
         (case ParseContentLength ?v of None \<Rightarrow> Inl kError
          | Some n \<Rightarrow> if has_cl \<or> n > kMaxRequestBodyBytes then Inl kError else Inr (True, n))
       else Inr (has_cl, cl))
      (\<lambda>(has_cl, cl). if ?name = ''transfer-encoding'' \<and> ContainsChunked ?v then Inl kUnsupported
         else Inr (has_cl, cl, hs'))"
    unfolding ParseField_def hs'_def Let_def using colon tok val col by simp
  from assms eq obtain has_cl' cl' where
    "if ?name = ''content-length'' then \<not> has_cl \<and> ParseContentLength ?v = Some cl' \<and> cl' \<le> kMaxRequestBodyBytes \<and> has_cl'
     else cl' = cl \<and> has_cl' = has_cl"
    "?name = ''transfer-encoding'' \<longrightarrow> \<not> ContainsChunked ?v" "st' = (has_cl', cl', hs')"
    by (auto split: if_splits option.splits)
  with lower_name_ok [OF tok] brk show ?thesis by (intro that [of ?name ?v cl' has_cl']) (auto simp: hs'_def)
qed

lemma update_set: "(n, w) \<in> set (AList.update k x hs) \<Longrightarrow> (n, w) = (k, x) \<or> (n, w) \<in> set hs"
  by (induction hs) (auto split: if_splits)

lemma fields_okD:
  assumes "fields_ok (has_cl, cl, hs)"
  shows "distinct (map fst hs)" "\<And>n v. (n, v) \<in> set hs \<Longrightarrow> name_ok n \<and> CR \<notin> set v \<and> LF \<notin> set v"
    "cl = declared_length hs" "cl \<le> kMaxRequestBodyBytes" "has_cl \<longleftrightarrow> map_of hs ''content-length'' \<noteq> None"
    "\<And>v. map_of hs ''transfer-encoding'' = Some v \<Longrightarrow> \<not> ContainsChunked v"
  using assms unfolding fields_ok_def prod.case by blast+

lemma fields_ok_update:
  assumes ok: "fields_ok (has_cl, cl, hs)" and name: "name_ok name" "CR \<notin> set v" "LF \<notin> set v"
    and cl: "if name = ''content-length'' then digits_value v = cl' \<and> cl' \<le> kMaxRequestBodyBytes \<and> has_cl'
      else cl' = cl \<and> has_cl' = has_cl"
    and te: "name = ''transfer-encoding'' \<Longrightarrow> \<not> ContainsChunked v"
  shows "fields_ok (has_cl', cl', AList.update name v hs)"
proof -
  note d = fields_okD [OF ok]
  have upd: "map_of (AList.update name v hs) k = (if k = name then Some v else map_of hs k)" for k
    by (simp add: update_conv')
  have 1: "distinct (map fst (AList.update name v hs))" using d(1) by (rule distinct_update)
  have 2: "name_ok n \<and> CR \<notin> set w \<and> LF \<notin> set w" if "(n, w) \<in> set (AList.update name v hs)" for n w
    using update_set [OF that] d(2) [of n w] name by blast
  have 3: "cl' = declared_length (AList.update name v hs)"
    using cl d(3) unfolding declared_length_def upd by (cases "name = ''content-length''") simp_all
  have 4: "cl' \<le> kMaxRequestBodyBytes"
    using cl d(4) by (cases "name = ''content-length''") simp_all
  have 5: "has_cl' \<longleftrightarrow> map_of (AList.update name v hs) ''content-length'' \<noteq> None"
    using cl d(5) unfolding upd by (cases "name = ''content-length''") simp_all
  have 6: "\<not> ContainsChunked w" if "map_of (AList.update name v hs) ''transfer-encoding'' = Some w" for w
    using that te d(6) unfolding upd by (cases "name = ''transfer-encoding''") simp_all
  show ?thesis unfolding fields_ok_def prod.case using 1 2 3 4 5 6 by blast
qed

lemma update_new: "map_of hs name = None \<Longrightarrow> AList.update name v hs = hs @ [(name, v)]"
  by (induction hs) (auto split: if_splits)

lemma ParseField_ok:
  assumes "ParseField line st = Inr st'" and "fields_ok st"
  shows "fields_ok st'"
proof -
  obtain has_cl cl hs where st: "st = (has_cl, cl, hs)" by (cases st)
  note ok = assms(2) [unfolded st]
  show ?thesis
  proof (rule ParseField_cases [OF assms(1) [unfolded st]])
    fix name v cl' has_cl'
    assume f: "name_ok name" "CR \<notin> set v" "LF \<notin> set v"
      "if name = ''content-length'' then \<not> has_cl \<and> ParseContentLength v = Some cl' \<and> cl' \<le> kMaxRequestBodyBytes \<and> has_cl'
       else cl' = cl \<and> has_cl' = has_cl"
      "name = ''transfer-encoding'' \<Longrightarrow> \<not> ContainsChunked v"
      "st' = (has_cl', cl', if name = ''connection'' then
          (case map_of hs name of Some existing \<Rightarrow> AList.update name (existing @ '','' @ v) hs | None \<Rightarrow> hs @ [(name, v)])
        else AList.update name v hs)"
    have cl: "if name = ''content-length'' then digits_value v = cl' \<and> cl' \<le> kMaxRequestBodyBytes \<and> has_cl'
        else cl' = cl \<and> has_cl' = has_cl"
      using f(4) by (cases "name = ''content-length''") (simp_all add: ParseContentLength_iff)
    show ?thesis
    proof (cases "name = ''connection''")
      case True
      define w where "w = (case map_of hs name of Some existing \<Rightarrow> existing @ '','' @ v | None \<Rightarrow> v)"
      have st': "st' = (has_cl', cl', AList.update name w hs)"
        using f(6) True update_new [of hs name v] by (simp add: w_def split: option.split)
      have w: "CR \<notin> set w" "LF \<notin> set w"
        using f(2,3) fields_okD(2) [OF ok map_of_SomeD] by (auto simp: w_def split: option.splits)
      show ?thesis unfolding st'
        by (rule fields_ok_update [OF ok f(1) w]) (use cl True in simp_all)
    next
      case False
      then have st': "st' = (has_cl', cl', AList.update name v hs)" using f(6) by simp
      show ?thesis unfolding st' by (rule fields_ok_update [OF ok f(1-3) cl f(5)])
    qed
  qed
qed

lemma ParseFields_ok:
  assumes "ParseFields b rle cursor st = Inr (c, st')" and "fields_ok st"
  shows "fields_ok st'"
  using assms by (induction rule: rq.loop_induct) (auto dest: ParseField_ok)

lemma ParseRequestLine_ok:
  assumes "ParseRequestLine line = Some (method, target)"
  shows "IsToken method \<and> target \<noteq> [] \<and> CHR '' '' \<notin> set target \<and> line = method @ '' '' @ target @ '' HTTP/1.1''"
proof -
  from assms obtain f g where f: "find_char (CHR '' '') line = Some f"
    and g: "find_char_from (CHR '' '') (f + 1) line = Some g"
    and ver: "drop (g + 1) line = ''HTTP/1.1''" and tok: "IsToken (take f line)" and ne: "g \<noteq> f + 1"
    and m: "method = take f line" and t: "target = take (g - f - 1) (drop (f + 1) line)"
    by (auto simp: ParseRequestLine_def split: option.splits if_splits)
  note f' = find_char_Some [OF f]
  from g obtain j where j: "find_char (CHR '' '') (drop (f + 1) line) = Some j" "g = f + 1 + j"
    by (auto simp: find_char_from_def)
  note g' = find_char_Some [OF j(1)]
  have tgt: "target = take j (drop (f + 1) line)" using t j(2) by simp
  have "line = take f line @ line ! f # drop (f + 1) line" using id_take_nth_drop [of f line] f' by simp
  moreover have "drop (f + 1) line = target @ CHR '' '' # drop (g + 1) line"
  proof -
    define rest where "rest = drop (f + 1) line"
    have "drop (Suc j) rest = drop (g + 1) line" using j(2) by (simp add: rest_def add.commute)
    moreover have "rest = take j rest @ rest ! j # drop (Suc j) rest" "rest ! j = CHR '' ''"
      using g' id_take_nth_drop [of j rest] by (simp_all add: rest_def)
    ultimately show ?thesis using tgt by (simp add: rest_def)
  qed
  ultimately have "line = method @ '' '' @ target @ '' HTTP/1.1''" using m ver f' by simp
  moreover have "target \<noteq> []" using tgt ne j(2) g' by auto
  ultimately show ?thesis using tok m g' tgt by simp
qed

text \<open>The header area, with the empty line that ends it, stays within its limit.\<close>

lemma ParseFields_limit: "ParseFields b first cursor st = Inr (c, st') \<Longrightarrow> c \<le> first + 2 + kMaxHeaderBytes"
proof (induction b first cursor st rule: ParseFields.induct)
  case (1 b first cursor st)
  from 1(2) obtain le where le: "find_sub_from CRLF cursor b = Some le" "\<not> cursor > kMaxHeaderBytes + first + 2"
    "\<not> le + 2 - (first + 2) > kMaxHeaderBytes"
    by (subst (asm) ParseFields.simps) (auto split: if_splits option.splits)
  show ?case
  proof (cases "le = cursor")
    case True
    then show ?thesis using 1(2) le by (subst (asm) ParseFields.simps) auto
  next
    case False
    then obtain st1 where "ParseField (take (le - cursor) (drop cursor b)) st = Inr st1" "ParseFields b first (le + 2) st1 = Inr (c, st')"
      using 1(2) le by (subst (asm) ParseFields.simps) (auto split: sum.splits)
    with 1(1) [OF le(2) le(1) le(3) False] show ?thesis by blast
  qed
qed

lemma Parse_length_bound:
  assumes "ParseBytes b = (kComplete, Some (r, n))"
  shows "n \<le> length b"
proof -
  have bare: "\<not> HasBareLineFeed (protocol_area b)" using assms ParseBytes_bare by fastforce
  with assms obtain rle where rle: "find_sub CRLF b = Some rle"
    by (auto simp: ParseBytes_def Let_def split: option.splits if_splits)
  note line = find_sub_Some [OF rle]
  from assms obtain cur h cl hs where fields: "ParseFields b rle (rle + 2) (False, 0, []) = Inr (cur, h, cl, hs)"
    and enough: "cl \<le> length b - cur" and n: "n = cur + cl"
    unfolding ParseBytes_lines [OF bare rle]
    by (auto split: if_splits option.splits prod.splits sum.splits dest: rq.loop_errors)
  have "cur \<le> length b" using rq.loop_end [OF fields] line by (simp add: numeral_2_eq_2)
  with n enough show ?thesis by simp
qed

text \<open>
   C21. A completed request is well framed: the bytes it takes are a prefix of the input that
  starts with the request line and ends with the body; the method is a token, the target is
  not empty and has no space, every header name is a lower-case token that occurs once, no
  header value contains a line break, the body has exactly the declared length, and no chunked
  coding was declared.  The limits are respected: the request line without its line end, the
  header area with the empty line that ends it, and the body.
\<close>

theorem Parse_well_framed:
  assumes "ParseBytes b = (kComplete, Some (r, n))"
  shows "n \<le> length b
    \<and> starts_with b (rq_method r @ '' '' @ rq_target r @ '' HTTP/1.1'' @ CRLF)
    \<and> rq_body r = drop (n - length (rq_body r)) (take n b)
    \<and> IsToken (rq_method r) \<and> rq_target r \<noteq> [] \<and> CHR '' '' \<notin> set (rq_target r)
    \<and> distinct (map fst (rq_headers r))
    \<and> (\<forall>(name, v) \<in> set (rq_headers r). name_ok name \<and> CR \<notin> set v \<and> LF \<notin> set v)
    \<and> length (rq_body r) = declared_length (rq_headers r) \<and> length (rq_body r) \<le> kMaxRequestBodyBytes
    \<and> length (rq_method r @ '' '' @ rq_target r @ '' HTTP/1.1'') \<le> kMaxRequestLineBytes
    \<and> n - length (rq_body r) - length (rq_method r @ '' '' @ rq_target r @ '' HTTP/1.1'' @ CRLF) \<le> kMaxHeaderBytes
    \<and> \<not> ContainsChunked (Header r ''Transfer-Encoding'')"
proof -
  have bare: "\<not> HasBareLineFeed (protocol_area b)" using assms ParseBytes_bare by fastforce
  with assms obtain rle where rle: "find_sub CRLF b = Some rle"
    by (auto simp: ParseBytes_def Let_def split: option.splits if_splits)
  note line = find_sub_Some [OF rle]
  from assms obtain m t cur h cl hs where mt: "ParseRequestLine (take rle b) = Some (m, t)"
    and fields: "ParseFields b rle (rle + 2) (False, 0, []) = Inr (cur, h, cl, hs)"
    and enough: "cl \<le> length b - cur" and n: "n = cur + cl" and short: "rle \<le> kMaxRequestLineBytes"
    and r: "r = \<lparr>rq_method = m, rq_target = t, rq_version = ''HTTP/1.1'', rq_body = take cl (drop cur b), rq_headers = hs\<rparr>"
    unfolding ParseBytes_lines [OF bare rle]
    by (auto split: if_splits option.splits prod.splits sum.splits dest: rq.loop_errors)
  have cur: "cur \<le> length b" using rq.loop_end [OF fields] line by (simp add: numeral_2_eq_2)
  have "fields_ok (False, 0, [])" by (simp add: fields_ok_def declared_length_def)
  from ParseFields_ok [OF fields this] have ok: "fields_ok (h, cl, hs)" .
  note rl = ParseRequestLine_ok [OF mt]
  have len: "length (rq_body r) = cl" using enough cur by (simp add: r)
  have split: "b = take rle b @ CRLF @ drop (rle + 2) b"
  proof -
    have "drop rle b = CRLF @ drop 2 (drop rle b)"
      using line append_take_drop_id [of 2 "drop rle b"] by (simp add: numeral_2_eq_2)
    then show ?thesis by (metis add.commute append_take_drop_id drop_drop)
  qed
  have starts: "starts_with b (m @ '' '' @ t @ '' HTTP/1.1'' @ CRLF)"
  proof -
    have "b = (m @ '' '' @ t @ '' HTTP/1.1'' @ CRLF) @ drop (rle + 2) b" using split rl by simp
    then show ?thesis unfolding starts_with_def by (metis append_eq_conv_conj)
  qed
  have body: "rq_body r = drop (n - length (rq_body r)) (take n b)"
    unfolding len n using enough cur by (simp add: r drop_take add.commute)
  have chunked: "\<not> ContainsChunked (Header r ''Transfer-Encoding'')"
  proof -
    have low: "LowerAscii ''Transfer-Encoding'' = ''transfer-encoding''" by code_simp
    have "\<not> ContainsChunked []" by (simp add: ContainsChunked.simps)
    with fields_okD(6) [OF ok] show ?thesis unfolding Header_def low by (simp add: r split: option.split)
  qed
  have "length (take rle b) = rle" using line by simp
  then have rle_len: "length (m @ '' '' @ t @ '' HTTP/1.1'') = rle" using rl by simp
  have limits: "length (m @ '' '' @ t @ '' HTTP/1.1'') \<le> kMaxRequestLineBytes"
    "n - length (rq_body r) - length (m @ '' '' @ t @ '' HTTP/1.1'' @ CRLF) \<le> kMaxHeaderBytes"
    using short rle_len ParseFields_limit [OF fields] unfolding len n by simp_all
  show ?thesis
    using starts body chunked rl n enough cur len fields_okD(1-4) [OF ok] limits
    by (intro conjI) (auto simp: r)
qed

definition sample_bytes :: string where
  "sample_bytes = ''POST /a?b HTTP/1.1'' @ CRLF @ ''Host: x'' @ CRLF @ ''Content-Length: 2'' @ CRLF @ CRLF @ ''hi!''"

definition sample_request :: http_request where
  "sample_request = \<lparr>rq_method = ''POST'', rq_target = ''/a?b'', rq_version = ''HTTP/1.1'', rq_body = ''hi'',
     rq_headers = [(''host'', ''x''), (''content-length'', ''2'')]\<rparr>"

lemma sample_parses: "ParseBytes sample_bytes = (kComplete, Some (sample_request, 52))"
  by code_simp

theorem Parse_well_framed_witness:
  "ParseBytes sample_bytes = (kComplete, Some (sample_request, 52)) \<and> 52 \<le> length sample_bytes
   \<and> rq_body sample_request = drop (52 - length (rq_body sample_request)) (take 52 sample_bytes)"
  using Parse_well_framed [OF sample_parses] sample_parses by blast

theorem Parse_incremental_witness:
  "fst (ParseBytes sample_bytes) = kComplete \<and> ParseBytes (sample_bytes @ ''?'') = ParseBytes sample_bytes"
proof -
  have "length sample_bytes \<noteq> kMaxRequestLineBytes + 1" by code_simp
  with Parse_incremental [of sample_bytes "''?''"] sample_parses show ?thesis by simp
qed

section \<open>The parser and its buffer\<close>

text \<open>
   The parser never throws, keeps its answer once it has one, and touches the buffer only
  when a request is complete; then it removes exactly the bytes of that request.
\<close>

theorem HttpRequestParser_buffer:
  "\<exists>r p' input'. HttpRequestParser_Parse p input = Inr (r, p', input')
    \<and> HttpRequestParser_Parse p' input' = (if r = kNeedMoreData then HttpRequestParser_Parse p input else Inr (r, p', input'))
    \<and> (if rp_result p = kNeedMoreData \<and> r = kComplete
       then \<exists>n. ParseBytes (ReadableView input) = (kComplete, Some (rp_request p', n))
              \<and> ReadableView input' = drop n (ReadableView input)
       else input' = input \<and> rp_request p' = rp_request p)"
proof (cases "rp_result p = kNeedMoreData")
  case False
  then show ?thesis by (auto simp: HttpRequestParser_Parse_def)
next
  case True
  obtain r out where pb: "ParseBytes (ReadableView input) = (r, out)" by fastforce
  show ?thesis
  proof (cases out)
    case None
    then have "r \<noteq> kComplete"
      using pb by (auto simp: ParseBytes_def Let_def split: if_splits option.splits sum.splits prod.splits
          dest: rq.loop_errors)
    then show ?thesis using True None pb by (cases p) (auto simp: HttpRequestParser_Parse_def)
  next
    case (Some q)
    obtain request n where q: "q = (request, n)" by fastforce
    from pb Some q have r: "r = kComplete"
      by (auto simp: ParseBytes_def Let_def split: if_splits option.splits sum.splits prod.splits)
    have "n \<le> length (ReadableView input)" using Parse_length_bound pb Some q r by blast
    then have "Retrieve input n = Inr (input\<lparr>read_index := read_index input + n\<rparr>)" by (rule Retrieve_ok)
    with True pb Some q r Retrieve_view [OF this] show ?thesis by (simp add: HttpRequestParser_Parse_def)
  qed
qed

end
