(* ===== verification/HttpRoundTrip.thy ===== *)
theory HttpRoundTrip
  imports HttpFraming
begin

text \<open>
  The request parser reads back what the request serializer writes.
\<close>

section \<open>What the serializer checks\<close>

lemma add_all_Inl: "fold (\<lambda>n r. res_bind r (\<lambda>t. TryAddWithinLimit t n limit)) ns (Inl e) = Inl e"
  by (induction ns) simp_all

lemma add_all_Inr:
  "add_all ns limit start = Inr t \<Longrightarrow> start \<le> limit \<Longrightarrow> t = start + sum_list ns \<and> t \<le> limit"
proof (induction ns arbitrary: start)
  case Nil
  then show ?case by (simp add: add_all_def)
next
  case (Cons n ns)
  show ?case
  proof (cases "n > limit - start")
    case True
    then have "TryAddWithinLimit start n limit = Inl InvalidArgument" by (simp add: TryAddWithinLimit_def)
    with Cons.prems show ?thesis by (simp add: add_all_def add_all_Inl)
  next
    case False
    then have "TryAddWithinLimit start n limit = Inr (start + n)" by (simp add: TryAddWithinLimit_def)
    with False have "add_all ns limit (start + n) = Inr t" "start + n \<le> limit"
      using Cons.prems by (simp_all add: add_all_def)
    from Cons.IH [OF this] show ?thesis by simp
  qed
qed

definition header_ok :: "string \<times> string \<Rightarrow> bool" where
  "header_ok nv \<longleftrightarrow> IsToken (fst nv) \<and> IsValidFieldValue (snd nv)
     \<and> LowerAscii (fst nv) \<notin> {''content-length'', ''transfer-encoding'', ''connection''}"

lemma check_headers_Inr:
  "check_headers hs hb hc = Inr (hb', hc') \<Longrightarrow> hb \<le> kMaxHeaderBytes \<Longrightarrow>
   list_all header_ok hs \<and> hb' = hb + length (concat (map field_line hs)) \<and> hb' \<le> kMaxHeaderBytes"
proof (induction hs hb hc rule: check_headers.induct)
  case (2 n v hs hb hc)
  from 2(2) obtain hb1 where ok: "IsToken n" "IsValidFieldValue v"
    and add: "add_all [length n, 2, length v, 2] kMaxHeaderBytes hb = Inr hb1"
    and low: "\<not> (LowerAscii n = ''content-length'' \<or> LowerAscii n = ''transfer-encoding'' \<or> LowerAscii n = ''connection'')"
    and rest: "check_headers hs hb1 (if LowerAscii n = ''host'' then hc + 1 else hc) = Inr (hb', hc')"
    by (auto simp: Let_def split: if_splits)
  from add_all_Inr [OF add 2(3)] have hb1: "hb1 = hb + length (field_line (n, v))" "hb1 \<le> kMaxHeaderBytes"
    by (simp_all add: field_line_def)
  have "list_all header_ok hs \<and> hb' = hb1 + length (concat (map field_line hs)) \<and> hb' \<le> kMaxHeaderBytes"
    by (rule 2(1) [OF _ refl low rest]) (use ok add hb1 in auto)
  moreover have "header_ok (n, v)" using ok low by (simp add: header_ok_def)
  ultimately show ?case using hb1 by simp
qed simp

section \<open>Reading field lines\<close>

definition read_header :: "string \<times> string \<Rightarrow> string \<times> string" where
  "read_header nv = (LowerAscii (fst nv), TrimOws (snd nv))"

lemma find_colon: "IsToken n \<Longrightarrow> find_char (CHR '':'') (n @ '': '' @ v) = Some (length n)"
  using find_char_append [of "CHR '':''" n "CHR '' '' # v"] token_no_special [of n] by simp

lemma space_field [simp]: "IsValidFieldValue (CHR '' '' # v) = IsValidFieldValue v"
proof -
  have "is_field_char (CHR '' '')" by code_simp
  then show ?thesis by (simp add: IsValidFieldValue_def)
qed

lemma ParseField_line:
  assumes "header_ok (n, v)" and "LowerAscii n \<notin> fst ` set hs"
  shows "ParseField (n @ '': '' @ v) (h, cl, hs) = Inr (h, cl, hs @ [read_header (n, v)])"
proof -
  have tok: "IsToken n" and val: "IsValidFieldValue v"
    and low: "LowerAscii n \<noteq> ''content-length''" "LowerAscii n \<noteq> ''transfer-encoding''" "LowerAscii n \<noteq> ''connection''"
    using assms(1) by (simp_all add: header_ok_def)
  have "n \<noteq> []" using tok by (simp add: IsToken_def)
  moreover have "map_of hs (LowerAscii n) = None" using assms(2) by (simp add: map_of_eq_None_iff)
  ultimately show ?thesis
    unfolding ParseField_def find_colon [OF tok] Let_def
    using tok val low by (simp add: update_new read_header_def)
qed

lemma ParseField_content_length:
  assumes "k \<le> kMaxRequestBodyBytes" and "''content-length'' \<notin> fst ` set hs"
  shows "ParseField (''Content-Length: '' @ to_string k) (False, 0, hs)
    = Inr (True, k, hs @ [(''content-length'', to_string k)])"
proof -
  have tok: "IsToken ''Content-Length''" and low: "LowerAscii ''Content-Length'' = ''content-length''" by code_simp+
  have dig: "list_all is_digit (to_string k)" by (rule to_string_digits)
  have val: "IsValidFieldValue (to_string k)"
    using dig by (auto simp: IsValidFieldValue_def list_all_iff is_digit_def is_field_char_def)
  have ows: "\<not> is_ows c" if "is_digit c" for c using that by (auto simp: is_ows_def is_digit_def)
  have trim: "TrimOws (to_string k) = to_string k"
    by (rule TrimOws_no_ows) (use dig ows in \<open>auto simp: list_all_iff hd_in_set last_in_set\<close>)
  have len: "ParseContentLength (to_string k) = Some k"
    using assms(1) by (simp add: ParseContentLength_to_string kMaxRequestBodyBytes_def)
  have new: "map_of hs ''content-length'' = None" using assms(2) by (simp add: map_of_eq_None_iff)
  have colon: "find_char (CHR '':'') (''Content-Length: '' @ to_string k) = Some 14"
    using find_colon [OF tok, of "to_string k"] by simp
  show ?thesis unfolding ParseField_def colon Let_def
    using tok low val trim len new assms(1) by (simp add: update_new)
qed

lemma ParseField_connection:
  assumes "''connection'' \<notin> fst ` set hs"
  shows "ParseField ''Connection: keep-alive'' (h, cl, hs) = Inr (h, cl, hs @ [(''connection'', ''keep-alive'')])"
proof -
  have tok: "IsToken ''Connection''" and low: "LowerAscii ''Connection'' = ''connection''"
    and val: "IsValidFieldValue ''keep-alive''" and trim: "TrimOws ''keep-alive'' = ''keep-alive''" by code_simp+
  have new: "map_of hs ''connection'' = None" using assms by (simp add: map_of_eq_None_iff)
  have colon: "find_char (CHR '':'') ''Connection: keep-alive'' = Some 10"
    using find_colon [OF tok, of "''keep-alive''"] by simp
  show ?thesis unfolding ParseField_def colon Let_def
    using tok low val trim new by simp
qed

lemma field_line_no_CR: "header_ok nv \<Longrightarrow> CR \<notin> set (fst nv @ '': '' @ snd nv)"
  using token_no_special field_no_break by (auto simp: header_ok_def)

lemma ParseFields_headers:
  assumes "list_all header_ok hs" and "distinct (map (LowerAscii \<circ> fst) hs)"
    and "\<forall>nv \<in> set hs. LowerAscii (fst nv) \<notin> fst ` set acc"
    and "rle + 2 \<le> length pre" and "length pre + length (concat (map field_line hs)) \<le> kMaxHeaderBytes + rle + 2"
  shows "ParseFields (pre @ concat (map field_line hs) @ rest) rle (length pre) (h, cl, acc)
    = ParseFields (pre @ concat (map field_line hs) @ rest) rle (length pre + length (concat (map field_line hs)))
        (h, cl, acc @ map read_header hs)"
  using assms
proof (induction hs arbitrary: pre acc)
  case (Cons nv hs)
  obtain n v where nv: "nv = (n, v)" by (cases nv)
  let ?l = "n @ '': '' @ v" and ?rest = "concat (map field_line hs) @ rest"
  have ok: "header_ok (n, v)" using Cons.prems(1) nv by simp
  have bytes: "pre @ concat (map field_line (nv # hs)) @ rest = pre @ ?l @ CRLF @ ?rest"
    by (simp add: nv field_line_def)
  have step: "ParseFields (pre @ ?l @ CRLF @ ?rest) rle (length pre) (h, cl, acc)
      = ParseFields (pre @ ?l @ CRLF @ ?rest) rle (length pre + length ?l + 2) (h, cl, acc @ [read_header (n, v)])"
  proof (rule rq.loop_line)
    show "CR \<notin> set ?l" using field_line_no_CR [OF ok] by simp
    show "ParseField ?l (h, cl, acc) = Inr (h, cl, acc @ [read_header (n, v)])"
      by (rule ParseField_line [OF ok]) (use Cons.prems(3) nv in simp)
    show "length pre + length ?l \<le> kMaxHeaderBytes + rle" using Cons.prems(5) by (simp add: nv field_line_def)
  qed (use Cons.prems(4) in simp_all)
  let ?pre = "pre @ ?l @ CRLF"
  have IH: "ParseFields (?pre @ concat (map field_line hs) @ rest) rle (length ?pre) (h, cl, acc @ [read_header (n, v)])
      = ParseFields (?pre @ concat (map field_line hs) @ rest) rle (length ?pre + length (concat (map field_line hs)))
          (h, cl, (acc @ [read_header (n, v)]) @ map read_header hs)"
  proof (rule Cons.IH)
    show "\<forall>x \<in> set hs. LowerAscii (fst x) \<notin> fst ` set (acc @ [read_header (n, v)])"
    proof
      fix x assume x: "x \<in> set hs"
      have "LowerAscii n \<notin> (LowerAscii \<circ> fst) ` set hs" using Cons.prems(2) nv by simp
      then have "LowerAscii (fst x) \<noteq> LowerAscii n" using x by (metis comp_apply imageI)
      with Cons.prems(3) x show "LowerAscii (fst x) \<notin> fst ` set (acc @ [read_header (n, v)])"
        by (simp add: read_header_def)
    qed
  qed (use Cons.prems nv in \<open>simp_all add: field_line_def\<close>)
  have 1: "length pre + length ?l + 2 = length ?pre" by simp
  have 2: "length ?pre + length (concat (map field_line hs)) = length pre + length (concat (map field_line (nv # hs)))"
    by (simp add: nv field_line_def)
  have 3: "?pre @ concat (map field_line hs) @ rest = pre @ ?l @ CRLF @ ?rest" by simp
  have 4: "(acc @ [read_header (n, v)]) @ map read_header hs = acc @ map read_header (nv # hs)" by (simp add: nv)
  show ?case unfolding bytes using step [unfolded 1] IH [unfolded 2 3 4] by (rule trans)
qed simp

section \<open>Round trip\<close>

lemma not_uri_char: "\<not> uri_char q CR" "\<not> uri_char q LF" "\<not> uri_char q (CHR '' '')"
  by (induct q; code_simp)+

lemma not_hex_digit: "\<not> IsHexDigit CR" "\<not> IsHexDigit LF" "\<not> IsHexDigit (CHR '' '')"
  by code_simp+

lemma uri_no_break:
  "IsValidUriComponent q s \<Longrightarrow> CR \<notin> set s \<and> LF \<notin> set s \<and> CHR '' '' \<notin> set s"
proof (induction q s rule: IsValidUriComponent.induct)
  case (2 q c s)
  show ?case
  proof (cases "uri_char q c")
    case True
    with 2(1) [OF True] 2(3) not_uri_char [of q] show ?thesis by auto
  next
    case False
    with 2(3) obtain h l s' where s: "c = CHR ''%''" "s = h # l # s'" "IsHexDigit h" "IsHexDigit l" "IsValidUriComponent q s'"
      by (auto split: if_splits list.splits)
    with 2(2) [OF False _ s(2) refl] not_hex_digit show ?thesis by auto
  qed
qed simp

lemma target_no_break:
  assumes "IsValidTarget t"
  shows "CR \<notin> set t \<and> LF \<notin> set t \<and> CHR '' '' \<notin> set t \<and> t \<noteq> []"
proof (cases "find_char (CHR ''?'') t")
  case None
  with assms have "IsValidUriComponent False t" "t \<noteq> []" unfolding IsValidTarget_def None
    by (auto split: if_splits)
  with uri_no_break show ?thesis by blast
next
  case (Some q)
  with assms have "IsValidUriComponent False (take q t)" "IsValidUriComponent True (drop (q + 1) t)" "t \<noteq> []"
    by (auto simp: IsValidTarget_def split: if_splits)
  from uri_no_break [OF this(1)] uri_no_break [OF this(2)] \<open>t \<noteq> []\<close>
  have parts: "x \<notin> set (take q t)" "x \<notin> set (drop (q + 1) t)" "t \<noteq> []" if "x \<in> {CR, LF, CHR '' ''}" for x
    using that by auto
  have "t = take q t @ CHR ''?'' # drop (q + 1) t"
    using find_char_Some [OF Some] id_take_nth_drop [of q t] by simp
  then have "set t = set (take q t) \<union> {CHR ''?''} \<union> set (drop (q + 1) t)"
    by (metis Un_insert_right list.simps(15) set_append sup_bot_right insert_is_Un sup_assoc)
  with parts show ?thesis by auto
qed

lemma ParseRequestLine_serialized:
  assumes "IsToken m" and "IsValidTarget t"
  shows "ParseRequestLine (m @ '' '' @ t @ '' HTTP/1.1'') = Some (m, t)"
proof -
  have m: "CHR '' '' \<notin> set m" "m \<noteq> []" using token_no_special [OF assms(1)] assms(1) by (auto simp: IsToken_def)
  have t: "CHR '' '' \<notin> set t" "t \<noteq> []" using target_no_break [OF assms(2)] by auto
  let ?line = "m @ '' '' @ t @ '' HTTP/1.1''"
  have f: "find_char (CHR '' '') ?line = Some (length m)"
    using find_char_append [OF m(1)] by simp
  have g: "find_char_from (CHR '' '') (length m + 1) ?line = Some (length m + 1 + length t)"
    using find_char_append [OF t(1), of "''HTTP/1.1''"] by (simp add: find_char_from_def)
  have h: "find_char_from (CHR '' '') (length m + 1 + length t + 1) ?line = None"
    by (simp add: find_char_from_def)
  have d: "drop (length m + 1 + length t + 1) ?line = ''HTTP/1.1''" by simp
  have e: "take (length m) ?line = m" "take (length m + 1 + length t - length m - 1) (drop (length m + 1) ?line) = t"
    by simp_all
  show ?thesis unfolding ParseRequestLine_def f option.case g h d e
    using assms(1) m(2) t(2) by simp
qed

text \<open>The bytes before the body contain no line feed without a carriage return before it.\<close>

lemma bare_field_line:
  assumes "header_ok nv"
  shows "\<not> bare_line_feed_from p (field_line nv)" and "last (field_line nv) = LF"
proof -
  have "LF \<notin> set (fst nv @ '': '' @ snd nv)"
    using assms token_no_special field_no_break by (auto simp: header_ok_def)
  then have "\<not> bare_line_feed_from p (fst nv @ '': '' @ snd nv)" by (rule bare_no_LF)
  then show "\<not> bare_line_feed_from p (field_line nv)"
    using bare_append [of p "fst nv @ '': '' @ snd nv" CRLF] by (simp add: field_line_def)
  show "last (field_line nv) = LF" by (simp add: field_line_def)
qed

lemma bare_headers: "list_all header_ok hs \<Longrightarrow> \<not> bare_line_feed_from p (concat (map field_line hs))"
  by (induction hs arbitrary: p) (simp_all add: bare_append bare_field_line)

definition serialized_headers :: "http_request \<Rightarrow> (string \<times> string) list" where
  "serialized_headers r = map read_header (rq_headers r)
     @ [(''content-length'', to_string (length (rq_body r))), (''connection'', ''keep-alive'')]"

lemma SerializeRequest_Inr:
  assumes "SerializeRequest r = Inr bytes"
  obtains hb where "IsToken (rq_method r)" "IsValidTarget (rq_target r)" "rq_version r = ''HTTP/1.1''"
    "length (rq_body r) \<le> kMaxRequestBodyBytes"
    "length (rq_method r) + length (rq_target r) + 10 \<le> kMaxRequestLineBytes"
    "list_all header_ok (rq_headers r)"
    "length (concat (map field_line (rq_headers r))) + length (field_line (''Content-Length'', to_string (length (rq_body r))))
       + length (field_line (''Connection'', ''keep-alive'')) + 2 \<le> kMaxHeaderBytes"
    "bytes = rq_method r @ '' '' @ rq_target r @ '' HTTP/1.1'' @ CRLF @ concat (map field_line (rq_headers r))
       @ field_line (''Content-Length'', to_string (length (rq_body r))) @ field_line (''Connection'', ''keep-alive'')
       @ CRLF @ rq_body r"
proof -
  let ?cl = "field_line (''Content-Length'', to_string (length (rq_body r)))"
  let ?co = "field_line (''Connection'', ''keep-alive'')"
  from assms obtain n hb hc k where ok: "IsToken (rq_method r)" "IsValidTarget (rq_target r)"
      "rq_version r = ''HTTP/1.1''" "length (rq_body r) \<le> kMaxRequestBodyBytes"
    and line: "add_all [length (rq_method r), 1, length (rq_target r), 1, length (rq_version r)] kMaxRequestLineBytes 0 = Inr n"
    and hs: "check_headers (rq_headers r) 0 0 = Inr (hb, hc)"
    and tail: "add_all [length ?cl, length ?co, 2] kMaxHeaderBytes hb = Inr k"
    and bytes: "bytes = rq_method r @ '' '' @ rq_target r @ '' '' @ rq_version r @ CRLF
      @ concat (map field_line (rq_headers r)) @ ?cl @ ?co @ CRLF @ rq_body r"
    by (auto simp: SerializeRequest_def Let_def split: if_splits)
  from check_headers_Inr [OF hs] have h: "list_all header_ok (rq_headers r)"
    "hb = length (concat (map field_line (rq_headers r)))" "hb \<le> kMaxHeaderBytes" by simp_all
  show ?thesis
    by (rule that [OF ok]) (use add_all_Inr [OF line] add_all_Inr [OF tail h(3)] h bytes ok(3) in simp_all)
qed

lemma ParseFields_serialized:
  assumes ok: "list_all header_ok hs" and dist: "distinct (map (LowerAscii \<circ> fst) hs)"
    and k: "k \<le> kMaxRequestBodyBytes" and pre: "length pre = rle + 2"
    and len: "length (concat (map field_line hs)) + length (field_line (''Content-Length'', to_string k))
       + length (field_line (''Connection'', ''keep-alive'')) + 2 \<le> kMaxHeaderBytes"
  shows "ParseFields (pre @ concat (map field_line hs) @ field_line (''Content-Length'', to_string k)
      @ field_line (''Connection'', ''keep-alive'') @ CRLF @ rest) rle (rle + 2) (False, 0, [])
    = Inr (length pre + length (concat (map field_line hs)) + length (field_line (''Content-Length'', to_string k))
        + length (field_line (''Connection'', ''keep-alive'')) + 2,
        True, k, map read_header hs @ [(''content-length'', to_string k), (''connection'', ''keep-alive'')])"
    (is "ParseFields ?bytes _ _ _ = _")
proof -
  define cl where "cl = ''Content-Length: '' @ to_string k"
  define co where "co = ''Connection: keep-alive''"
  let ?hs = "concat (map field_line hs)"
  let ?pre1 = "pre @ ?hs" and ?pre2 = "pre @ ?hs @ cl @ CRLF" and ?pre3 = "pre @ ?hs @ cl @ CRLF @ co @ CRLF"
  have fl: "field_line (''Content-Length'', to_string k) = cl @ CRLF" "field_line (''Connection'', ''keep-alive'') = co @ CRLF"
    by (simp_all add: field_line_def cl_def co_def)
  have names: "n \<notin> fst ` set (map read_header hs)" if "n \<in> {''content-length'', ''connection''}" for n
    using ok that by (auto simp: list_all_iff header_ok_def read_header_def)
  have "ParseFields ?bytes rle (length pre) (False, 0, [])
      = ParseFields ?bytes rle (length pre + length ?hs) (False, 0, [] @ map read_header hs)"
    by (rule ParseFields_headers) (use ok dist pre len in simp_all)
  also have "\<dots> = ParseFields (?pre1 @ cl @ CRLF @ (co @ CRLF @ CRLF @ rest)) rle (length ?pre1) (False, 0, map read_header hs)"
    by (simp add: fl)
  also have "\<dots> = ParseFields (?pre1 @ cl @ CRLF @ (co @ CRLF @ CRLF @ rest)) rle (length ?pre1 + length cl + 2)
      (True, k, map read_header hs @ [(''content-length'', to_string k)])"
  proof (rule rq.loop_line)
    show "CR \<notin> set cl" using to_string_digits [of k] by (auto simp: cl_def list_all_iff is_digit_def)
    show "ParseField cl (False, 0, map read_header hs)
        = Inr (True, k, map read_header hs @ [(''content-length'', to_string k)])"
      unfolding cl_def by (rule ParseField_content_length [OF k names]) simp
    show "length ?pre1 + length cl \<le> kMaxHeaderBytes + rle" using pre len by (simp add: fl)
  qed (use pre in \<open>simp_all add: cl_def\<close>)
  also have "\<dots> = ParseFields (?pre2 @ co @ CRLF @ (CRLF @ rest)) rle (length ?pre2)
      (True, k, map read_header hs @ [(''content-length'', to_string k)])"
    by (simp add: ac_simps)
  also have "\<dots> = ParseFields (?pre2 @ co @ CRLF @ (CRLF @ rest)) rle (length ?pre2 + length co + 2)
      (True, k, (map read_header hs @ [(''content-length'', to_string k)]) @ [(''connection'', ''keep-alive'')])"
  proof (rule rq.loop_line)
    show "ParseField co (True, k, map read_header hs @ [(''content-length'', to_string k)])
        = Inr (True, k, (map read_header hs @ [(''content-length'', to_string k)]) @ [(''connection'', ''keep-alive'')])"
      unfolding co_def by (rule ParseField_connection) (use names in auto)
    show "length ?pre2 + length co \<le> kMaxHeaderBytes + rle" using pre len by (simp add: fl)
  qed (use pre in \<open>simp_all add: co_def\<close>)
  also have "\<dots> = ParseFields (?pre3 @ CRLF @ rest) rle (length ?pre3)
      (True, k, map read_header hs @ [(''content-length'', to_string k), (''connection'', ''keep-alive'')])"
    by (simp add: ac_simps)
  also have "\<dots> = Inr (length ?pre3 + 2,
      True, k, map read_header hs @ [(''content-length'', to_string k), (''connection'', ''keep-alive'')])"
    by (rule rq.loop_empty_line) (use pre len in \<open>simp_all add: fl\<close>)
  finally show ?thesis using pre by (simp add: fl ac_simps)
qed

lemma read_back:
  assumes ser: "SerializeRequest r = Inr bytes" and dist: "distinct (map (LowerAscii \<circ> fst) (rq_headers r))"
  shows "ParseBytes (bytes @ rest) = (kComplete, Some (r\<lparr>rq_headers := serialized_headers r\<rparr>, length bytes))"
proof -
  let ?k = "length (rq_body r)"
  let ?line = "rq_method r @ '' '' @ rq_target r @ '' HTTP/1.1''" and ?hs = "concat (map field_line (rq_headers r))"
  let ?cl = "field_line (''Content-Length'', to_string ?k)" and ?co = "field_line (''Connection'', ''keep-alive'')"
  let ?head = "?line @ CRLF @ ?hs @ ?cl @ ?co @ CRLF"
  obtain tok: "IsToken (rq_method r)" and tgt: "IsValidTarget (rq_target r)" and ver: "rq_version r = ''HTTP/1.1''"
    and k: "?k \<le> kMaxRequestBodyBytes" and short: "length (rq_method r) + length (rq_target r) + 10 \<le> kMaxRequestLineBytes"
    and ok: "list_all header_ok (rq_headers r)"
    and len: "length ?hs + length ?cl + length ?co + 2 \<le> kMaxHeaderBytes"
    and bytes: "bytes = ?head @ rq_body r"
    by (rule SerializeRequest_Inr [OF ser]) simp
  have noCR: "CR \<notin> set ?line" and noLF: "LF \<notin> set ?line"
    using token_no_special [OF tok] target_no_break [OF tgt] by auto
  have line: "find_sub CRLF (bytes @ rest) = Some (length ?line)"
    using find_sub_CRLF [OF noCR, of "?hs @ ?cl @ ?co @ CRLF @ rq_body r @ rest"] by (simp add: bytes)
  have bare: "\<not> HasBareLineFeed (protocol_area (bytes @ rest))"
  proof -
    have fl: "\<not> bare_line_feed_from p ?cl" "\<not> bare_line_feed_from p ?co" for p
    proof -
      have "LF \<notin> set (''Content-Length: '' @ to_string ?k)" "LF \<notin> set ''Connection: keep-alive''"
        using to_string_digits [of ?k] by (auto simp: list_all_iff is_digit_def)
      from bare_no_LF [OF this(1)] bare_no_LF [OF this(2)]
        bare_append [of p "''Content-Length: '' @ to_string ?k" CRLF] bare_append [of p "''Connection: keep-alive''" CRLF]
      show "\<not> bare_line_feed_from p ?cl" "\<not> bare_line_feed_from p ?co" by (simp_all add: field_line_def)
    qed
    have head: "\<not> bare_line_feed_from None ?head"
    proof -
      have "\<not> bare_line_feed_from None (?line @ CRLF)"
        using bare_no_LF [OF noLF, of None] bare_append [of None ?line CRLF] by simp
      moreover have "\<not> bare_line_feed_from p (?hs @ ?cl @ ?co @ CRLF)" for p
        using bare_headers [OF ok, of p] fl by (simp add: bare_append)
      ultimately show ?thesis using bare_append [of None "?line @ CRLF" "?hs @ ?cl @ ?co @ CRLF"] by simp
    qed
    have "?head = (?line @ CRLF @ ?hs @ ?cl @ ''Connection: keep-alive'') @ CRLF @ CRLF" by (simp add: field_line_def)
    note head_eq = this
    have eq: "bytes @ rest = ((?line @ CRLF @ ?hs @ ?cl @ ''Connection: keep-alive'') @ CRLF @ CRLF) @ (rq_body r @ rest)"
      unfolding bytes head_eq by simp
    show ?thesis unfolding eq by (rule protocol_within_head [OF head [unfolded head_eq]])
  qed
  have fields: "ParseFields (bytes @ rest) (length ?line) (length ?line + 2) (False, 0, [])
      = Inr (length ?head, True, ?k, serialized_headers r)"
    using ParseFields_serialized [OF ok dist k _ len, of "?line @ CRLF" "length ?line" "rq_body r @ rest"]
    by (simp add: bytes serialized_headers_def)
  have app: "take (length l) (l @ y) = l" "drop (length l) (l @ y) = y" for l y :: string by simp_all
  have "bytes @ rest = ?line @ (CRLF @ ?hs @ ?cl @ ?co @ CRLF @ rq_body r @ rest)"
    "bytes @ rest = ?head @ (rq_body r @ rest)" by (simp_all add: bytes)
  then have take: "take (length ?line) (bytes @ rest) = ?line"
    and body: "take ?k (drop (length ?head) (bytes @ rest)) = rq_body r" using app by metis+
  have len_bytes: "length bytes = length ?head + ?k" "length (bytes @ rest) - length ?head = ?k + length rest"
    by (simp_all add: bytes)
  have fit: "\<not> length ?line > kMaxRequestLineBytes" using short by simp
  show ?thesis
    unfolding ParseBytes_lines [OF bare line] take ParseRequestLine_serialized [OF tok tgt] fields option.case prod.case
      sum.case body len_bytes
    using fit ver by simp
qed

text \<open>
   C22. Round trip: what the serializer emits for a request whose header names differ when
  case is ignored is parsed, whatever bytes follow, into the same method, target and body,
  with the header names in lower case, the values trimmed, and the two framing fields the
  serializer adds; exactly the emitted bytes are consumed.
\<close>

theorem Parse_SerializeRequest:
  assumes "SerializeRequest r = Inr bytes" and "distinct (map (LowerAscii \<circ> fst) (rq_headers r))"
  shows "ParseBytes (bytes @ rest) = (kComplete, Some (r\<lparr>rq_headers := serialized_headers r\<rparr>, length bytes))"
  using read_back [OF assms] .

section \<open>The length limit of the request line\<close>

lemma find_sub_single_CR:
  assumes "CR \<notin> set l"
  shows "find_sub (CR # LF # x) (l @ [CR]) = None"
  using assms by (induction l) auto

text \<open>
   C23. At the length limit of the request line the answer does depend on how the bytes
  arrive: a serialized request whose request line has exactly 8192 bytes is complete when it
  arrives at once, but if the first segment ends between the carriage return and the line feed
  of the request line, the parser reports an error.
\<close>

theorem request_line_limit_split:
  assumes ser: "SerializeRequest r = Inr bytes" and dist: "distinct (map (LowerAscii \<circ> fst) (rq_headers r))"
    and len: "length (rq_method r) + length (rq_target r) + 10 = kMaxRequestLineBytes"
  shows "fst (ParseBytes bytes) = kComplete \<and> fst (ParseBytes (take (kMaxRequestLineBytes + 1) bytes)) = kError"
proof
  show "fst (ParseBytes bytes) = kComplete" using read_back [OF ser dist, of "[]"] by simp
  define line where "line = rq_method r @ '' '' @ rq_target r @ '' HTTP/1.1''"
  obtain tok: "IsToken (rq_method r)" and tgt: "IsValidTarget (rq_target r)"
    and bytes: "\<exists>rest. bytes = line @ CR # rest"
    by (rule SerializeRequest_Inr [OF ser]) (simp add: line_def)
  have noCR: "CR \<notin> set line" and noLF: "LF \<notin> set line"
    using token_no_special [OF tok] target_no_break [OF tgt] by (auto simp: line_def)
  have "length line = kMaxRequestLineBytes" using len by (simp add: line_def)
  with bytes have take: "take (kMaxRequestLineBytes + 1) bytes = line @ [CR]" "length (line @ [CR]) > kMaxRequestLineBytes"
    by auto
  have none: "find_sub CRLF (line @ [CR]) = None" "find_sub (CRLF @ CRLF) (line @ [CR]) = None"
    using find_sub_single_CR [OF noCR] by simp_all
  have "\<not> HasBareLineFeed (line @ [CR])"
    unfolding HasBareLineFeed_def by (rule bare_no_LF) (use noLF in simp)
  then show "fst (ParseBytes (take (kMaxRequestLineBytes + 1) bytes)) = kError"
    using take(2) by (simp only: take(1) ParseBytes_def none option.case Let_def) simp
qed

definition long_request :: http_request where
  "long_request = \<lparr>rq_method = ''GET'', rq_target = CHR ''/'' # replicate 8178 (CHR ''a''), rq_version = ''HTTP/1.1'',
     rq_body = [], rq_headers = [(''host'', ''x'')]\<rparr>"

lemma long_fields:
  "rq_method long_request = ''GET''" "rq_target long_request = CHR ''/'' # replicate 8178 (CHR ''a'')"
  "rq_version long_request = ''HTTP/1.1''" "rq_body long_request = []" "rq_headers long_request = [(''host'', ''x'')]"
  by (simp_all only: long_request_def http_request.simps)

lemma long_target: "IsValidTarget (rq_target long_request)"
proof -
  have a: "uri_char False (CHR ''a'')" "uri_char False (CHR ''/'')" by code_simp+
  then have "IsValidUriComponent False (replicate n (CHR ''a''))" for n by (induction n) simp_all
  then have "IsValidUriComponent False (rq_target long_request)" unfolding long_fields using a(2) by simp
  moreover have "CHR ''?'' \<notin> set (rq_target long_request)" unfolding long_fields by simp
  then have "find_char (CHR ''?'') (rq_target long_request) = None" by simp
  moreover have "rq_target long_request \<noteq> []" "hd (rq_target long_request) = CHR ''/''" unfolding long_fields by simp_all
  ultimately show ?thesis unfolding IsValidTarget_def by (simp del: find_char_None_iff)
qed

lemma long_serializes: "\<exists>bytes. SerializeRequest long_request = Inr bytes"
proof -
  have 1: "add_all [length (rq_method long_request), 1, length (rq_target long_request), 1, length (rq_version long_request)]
      kMaxRequestLineBytes 0 = Inr 8192"
    unfolding long_fields by (simp add: add_all_def TryAddWithinLimit_def kMaxRequestLineBytes_def)
  have 2: "check_headers (rq_headers long_request) 0 0 = Inr (9, 1)"
    unfolding long_fields by code_simp
  have 3: "add_all [length (field_line (''Content-Length'', to_string (length (rq_body long_request)))),
      length (field_line (''Connection'', ''keep-alive'')), 2] kMaxHeaderBytes 9 = Inr 54"
    unfolding long_fields by code_simp
  have 4: "IsToken (rq_method long_request)" "rq_version long_request = ''HTTP/1.1''"
    "\<not> length (rq_body long_request) > kMaxRequestBodyBytes"
    unfolding long_fields by code_simp+
  show ?thesis
    unfolding SerializeRequest_def Let_def 1 2 res_bind.simps prod.case 3 using 4 long_target by simp
qed

theorem request_line_limit_split_witness:
  "\<exists>bytes. fst (ParseBytes bytes) = kComplete \<and> fst (ParseBytes (take 8193 bytes)) = kError"
proof -
  obtain bytes where ser: "SerializeRequest long_request = Inr bytes" using long_serializes by blast
  have "kMaxRequestLineBytes + 1 = 8193" by (simp add: kMaxRequestLineBytes_def)
  moreover have "length (rq_method long_request) + length (rq_target long_request) + 10 = kMaxRequestLineBytes"
    unfolding long_fields by (simp add: kMaxRequestLineBytes_def)
  moreover have "distinct (map (LowerAscii \<circ> fst) (rq_headers long_request))" unfolding long_fields by simp
  ultimately show ?thesis using request_line_limit_split [OF ser] by metis
qed

theorem Parse_SerializeRequest_witness:
  "\<exists>bytes. SerializeRequest (sample_request\<lparr>rq_headers := [(''Host'', '' x'')]\<rparr>) = Inr bytes
    \<and> fst (ParseBytes (bytes @ ''next'')) = kComplete"
proof -
  have "\<not> isl (SerializeRequest (sample_request\<lparr>rq_headers := [(''Host'', '' x'')]\<rparr>))"
    by code_simp
  then obtain bytes where ser: "SerializeRequest (sample_request\<lparr>rq_headers := [(''Host'', '' x'')]\<rparr>) = Inr bytes"
    by (metis sum.collapse(2))
  from Parse_SerializeRequest [OF ser, of "''next''"] ser show ?thesis by simp
qed

end
