(* ===== verification/HttpResponses.thy ===== *)
theory HttpResponses
  imports HttpText
begin

text \<open>
  HTTP/1.1 responses: serialization of complete responses and of streaming heads
  (\<open>HttpResponse\<close>), and the upstream response parser with its two paths, the one for a whole
  response and the streaming one (\<open>HttpResponseParser\<close>).
\<close>

section \<open>Responses and their serialization\<close>

datatype response_body_mode = kNormal | kSuppressedWithKnownLength | kSuppressedWithUnknownLength

type_synonym header_list = "(string \<times> string) list"

record http_response =
  rs_status :: int
  rs_reason :: string
  rs_headers :: header_list
  rs_body :: string
  rs_body_mode :: response_body_mode
  rs_content_length :: "nat option"

record response_head =
  rh_status :: int
  rh_reason :: string
  rh_headers :: header_list
  rh_body_mode :: response_body_mode
  rh_content_length :: "nat option"

definition HttpResponse_new :: http_response where
  "HttpResponse_new = \<lparr>rs_status = 200, rs_reason = ''OK'', rs_headers = [], rs_body = [], rs_body_mode = kNormal,
     rs_content_length = None\<rparr>"

definition HttpResponseHead_new :: response_head where
  "HttpResponseHead_new = \<lparr>rh_status = 200, rh_reason = ''OK'', rh_headers = [], rh_body_mode = kNormal,
     rh_content_length = None\<rparr>"

definition HasLineBreak :: "string \<Rightarrow> bool" where
  "HasLineBreak v \<longleftrightarrow> CR \<in> set v \<or> LF \<in> set v"

text \<open>\<open>std::tolower\<close> in the "C" locale.\<close>

definition Lowercase :: "string \<Rightarrow> string" where
  "Lowercase v = map (\<lambda>c. if is_upper c then char_of (code_of c + 32) else c) v"

definition status_line :: "int \<Rightarrow> string \<Rightarrow> string" where
  "status_line status reason = ''HTTP/1.1 '' @ to_string (nat status) @ '' '' @ reason @ CRLF"

fun serialize_headers :: "header_list \<Rightarrow> cpp_error + string" where
  "serialize_headers [] = Inr []"
| "serialize_headers ((name, v) # headers) =
     (if name = [] \<or> HasLineBreak name \<or> HasLineBreak v then Inl InvalidArgument
      else if Lowercase name = ''content-length'' \<or> Lowercase name = ''transfer-encoding'' then Inl InvalidArgument
      else res_bind (serialize_headers headers) (\<lambda>rest. Inr (name @ '': '' @ v @ CRLF @ rest)))"

definition content_length_line :: "nat \<Rightarrow> string" where
  "content_length_line n = ''Content-Length: '' @ to_string n @ CRLF"

definition response_framing_ok :: "http_response \<Rightarrow> bool" where
  "response_framing_ok r =
     (if rs_status r = 204 \<or> rs_status r = 304 then
        rs_body r = [] \<and> rs_body_mode r = kNormal \<and> rs_content_length r = None
      else case rs_body_mode r of
        kNormal \<Rightarrow> rs_content_length r = None
      | kSuppressedWithKnownLength \<Rightarrow> rs_content_length r \<noteq> None \<and> rs_body r = []
      | kSuppressedWithUnknownLength \<Rightarrow> rs_content_length r = None \<and> rs_body r = [])"

definition HttpResponse_Serialize :: "http_response \<Rightarrow> cpp_error + string" where
  "HttpResponse_Serialize r =
     (if rs_status r < 200 \<or> rs_status r > 599 \<or> HasLineBreak (rs_reason r) then Inl InvalidArgument
      else if \<not> response_framing_ok r then Inl InvalidArgument
      else res_bind (serialize_headers (rs_headers r)) (\<lambda>headers.
        let bodyless_status = (rs_status r = 204 \<or> rs_status r = 304);
            framing = (if \<not> bodyless_status \<and> rs_body_mode r \<noteq> kSuppressedWithUnknownLength
                       then content_length_line (if rs_body_mode r = kSuppressedWithKnownLength
                              then the (rs_content_length r) else length (rs_body r))
                       else [])
        in Inr (status_line (rs_status r) (rs_reason r) @ headers @ framing @ CRLF
                @ (if rs_body_mode r = kNormal then rs_body r else []))))"

definition head_framing_ok :: "response_head \<Rightarrow> bool" where
  "head_framing_ok h =
     (if rh_status h = 204 \<or> rh_status h = 304 then
        rh_body_mode h = kNormal \<and> rh_content_length h = None
      else case rh_body_mode h of
        kNormal \<Rightarrow> rh_content_length h \<noteq> None
      | kSuppressedWithKnownLength \<Rightarrow> rh_content_length h \<noteq> None
      | kSuppressedWithUnknownLength \<Rightarrow> rh_content_length h = None)"

definition HttpResponseHead_Serialize :: "response_head \<Rightarrow> cpp_error + string" where
  "HttpResponseHead_Serialize h =
     (if rh_status h < 200 \<or> rh_status h > 599 \<or> HasLineBreak (rh_reason h) then Inl InvalidArgument
      else if \<not> head_framing_ok h then Inl InvalidArgument
      else res_bind (serialize_headers (rh_headers h)) (\<lambda>headers.
        let bodyless_status = (rh_status h = 204 \<or> rh_status h = 304);
            framing = (if \<not> bodyless_status \<and> rh_body_mode h \<noteq> kSuppressedWithUnknownLength
                       then content_length_line (the (rh_content_length h)) else [])
        in Inr (status_line (rh_status h) (rh_reason h) @ headers @ framing @ CRLF)))"

section \<open>Parser\<close>

definition kMaxStatusLineBytes :: nat where
  "kMaxStatusLineBytes = 8 * 1024"

record parsed_header =
  ph_status :: int
  ph_reason :: string
  ph_headers :: header_list
  ph_has_content_length :: bool
  ph_content_length :: nat
  ph_bodyless :: bool
  ph_header_end :: nat

definition ParsedHeader_new :: parsed_header where
  "ParsedHeader_new = \<lparr>ph_status = 200, ph_reason = [], ph_headers = [], ph_has_content_length = False,
     ph_content_length = 0, ph_bodyless = False, ph_header_end = 0\<rparr>"

text \<open>The status code and the reason of a valid status line.\<close>

definition ParseStatusLine :: "string \<Rightarrow> (int \<times> string) option" where
  "ParseStatusLine line =
     (let first_space = find_char (CHR '' '') line;
          second_space = (case first_space of None \<Rightarrow> None | Some f \<Rightarrow> find_char_from (CHR '' '') (f + 1) line) in
      if first_space \<noteq> Some 8 \<or> second_space \<noteq> Some 12 \<or> length line \<le> 13 \<or> take 8 line \<noteq> ''HTTP/1.1'' then None
      else let text_of = take 3 (drop 9 line); reason = drop 13 line in
        if code_of (text_of ! 0) < (50 :: nat) \<or> code_of (text_of ! 0) > (53 :: nat)
           \<or> \<not> is_digit (text_of ! 1) \<or> \<not> is_digit (text_of ! 2) \<or> \<not> IsValidFieldValue reason then None
        else Some (int (digit_value (text_of ! 0) * 100 + digit_value (text_of ! 1) * 10 + digit_value (text_of ! 2)),
               reason))"

definition ResponseField :: "string \<Rightarrow> parsed_header \<Rightarrow> parse_result + parsed_header" where
  "ResponseField line out =
     (if length line > kMaxStatusLineBytes then Inl kError
      else case find_char (CHR '':'') line of
        None \<Rightarrow> Inl kError
      | Some colon \<Rightarrow>
          if colon = 0 \<or> \<not> IsToken (take colon line) then Inl kError
          else let raw_value = drop (colon + 1) line in
            if \<not> IsValidFieldValue raw_value then Inl kError
            else let v = TrimOws raw_value; name = LowerAscii (take colon line) in
              if name = ''transfer-encoding'' then Inl kUnsupported
              else res_bind
                (if name = ''content-length'' then
                   (case ParseContentLength v of
                      None \<Rightarrow> Inl kError
                    | Some n \<Rightarrow>
                        if ph_has_content_length out \<or> n > kMaxUpstreamResponseBodyBytes then Inl kError
                        else Inr (out\<lparr>ph_has_content_length := True, ph_content_length := n\<rparr>))
                 else Inr out)
                (\<lambda>out. Inr (out\<lparr>ph_headers := ph_headers out @ [(take colon line, v)]\<rparr>)))"

function ResponseFields :: "string \<Rightarrow> nat \<Rightarrow> nat \<Rightarrow> parsed_header \<Rightarrow> parse_result + (nat \<times> parsed_header)" where
  "ResponseFields bytes status_line_end cursor out =
     (if cursor > kMaxHeaderBytes + status_line_end + 2 then Inl kError
      else case find_sub_from CRLF cursor bytes of
        None \<Rightarrow>
          Inl (if length bytes - cursor > kMaxStatusLineBytes then kError
               else if length bytes > kMaxHeaderBytes + status_line_end + 2 then kError else kNeedMoreData)
      | Some line_end \<Rightarrow>
          if line_end + 2 - (status_line_end + 2) > kMaxHeaderBytes then Inl kError
          else if line_end = cursor then Inr (cursor + 2, out)
          else case ResponseField (take (line_end - cursor) (drop cursor bytes)) out of
            Inl e \<Rightarrow> Inl e
          | Inr out' \<Rightarrow> ResponseFields bytes status_line_end (line_end + 2) out')"
  by pat_completeness auto
termination
  by (relation "measure (\<lambda>(bytes, _, cursor, _). length bytes - cursor)")
    (auto dest!: find_sub_from_Some)

declare ResponseFields.simps [simp del]

text \<open>\<open>Inl\<close> is a result other than \<open>kComplete\<close>.\<close>

definition ParseHeaderArea :: "bool \<Rightarrow> string \<Rightarrow> parse_result + parsed_header" where
  "ParseHeaderArea response_to_head bytes =
     (let protocol = (case find_sub (CRLF @ CRLF) bytes of None \<Rightarrow> bytes | Some e \<Rightarrow> take (e + 4) bytes) in
      if HasBareLineFeed protocol then Inl kError
      else case find_sub CRLF bytes of
        None \<Rightarrow> Inl (if length bytes > kMaxStatusLineBytes then kError else kNeedMoreData)
      | Some status_line_end \<Rightarrow>
          if status_line_end > kMaxStatusLineBytes then Inl kError
          else case ParseStatusLine (take status_line_end bytes) of
            None \<Rightarrow> Inl kError
          | Some (status, reason) \<Rightarrow>
              res_bind (ResponseFields bytes status_line_end (status_line_end + 2)
                  (ParsedHeader_new\<lparr>ph_status := status, ph_reason := reason\<rparr>)) (\<lambda>(cursor, out).
                let bodyless = (ph_status out = 204 \<or> ph_status out = 304);
                    out = out\<lparr>ph_bodyless := bodyless\<rparr> in
                if bodyless then
                  if ph_has_content_length out \<and> ph_content_length out \<noteq> 0 then Inl kError
                  else Inr (out\<lparr>ph_content_length := 0, ph_header_end := cursor\<rparr>)
                else if \<not> ph_has_content_length out \<and> \<not> response_to_head then Inl kError
                else Inr (out\<lparr>ph_header_end := cursor\<rparr>)))"

record response_parser =
  sp_result :: parse_result
  sp_headers_complete :: bool
  sp_response_to_head :: bool
  sp_response :: http_response
  sp_head :: response_head
  sp_remaining_body :: nat
  sp_body_complete :: bool

definition HttpResponseParser_Reset :: "bool \<Rightarrow> response_parser" where
  "HttpResponseParser_Reset response_to_head =
     \<lparr>sp_result = kNeedMoreData, sp_headers_complete = False, sp_response_to_head = response_to_head,
      sp_response = HttpResponse_new, sp_head = HttpResponseHead_new, sp_remaining_body = 0, sp_body_complete = False\<rparr>"

definition HttpResponseParser_Parse ::
    "response_parser \<Rightarrow> buffer \<Rightarrow> cpp_error + (parse_result \<times> response_parser \<times> buffer)" where
  "HttpResponseParser_Parse p input =
     (if sp_result p \<noteq> kNeedMoreData then Inr (sp_result p, p, input)
      else case ParseHeaderArea (sp_response_to_head p) (ReadableView input) of
        Inl e \<Rightarrow> Inr (e, p\<lparr>sp_result := e\<rparr>, input)
      | Inr parsed \<Rightarrow>
          let p = p\<lparr>sp_headers_complete := True\<rparr>;
              content_length = (if ph_bodyless parsed then 0 else ph_content_length parsed);
              response = HttpResponse_new\<lparr>rs_status := ph_status parsed, rs_reason := ph_reason parsed,
                           rs_headers := ph_headers parsed\<rparr> in
          if sp_response_to_head p then
            let response = (if \<not> ph_bodyless parsed then
                   if ph_has_content_length parsed
                   then response\<lparr>rs_body_mode := kSuppressedWithKnownLength, rs_content_length := Some content_length\<rparr>
                   else response\<lparr>rs_body_mode := kSuppressedWithUnknownLength\<rparr>
                 else response) in
            res_bind (Retrieve input (ph_header_end parsed)) (\<lambda>input.
              Inr (kComplete, p\<lparr>sp_response := response, sp_result := kComplete\<rparr>, input))
          else if length (ReadableView input) - ph_header_end parsed < content_length then
            Inr (sp_result p, p, input)
          else
            res_bind (Retrieve input (ph_header_end parsed + content_length)) (\<lambda>input'.
              Inr (kComplete, p\<lparr>sp_response := response\<lparr>rs_body :=
                     take content_length (drop (ph_header_end parsed) (ReadableView input))\<rparr>,
                   sp_result := kComplete\<rparr>, input')))"

definition HttpResponseParser_ParseHeaders ::
    "response_parser \<Rightarrow> buffer \<Rightarrow> cpp_error + (parse_result \<times> response_parser \<times> buffer)" where
  "HttpResponseParser_ParseHeaders p input =
     (if sp_result p \<noteq> kNeedMoreData then Inr (sp_result p, p, input)
      else case ParseHeaderArea (sp_response_to_head p) (ReadableView input) of
        Inl e \<Rightarrow> Inr (e, p\<lparr>sp_result := e\<rparr>, input)
      | Inr parsed \<Rightarrow>
          let p = p\<lparr>sp_headers_complete := True\<rparr>;
              head = \<lparr>rh_status = ph_status parsed, rh_reason = ph_reason parsed, rh_headers = ph_headers parsed,
                      rh_body_mode = kNormal, rh_content_length = None\<rparr>;
              p = (if ph_bodyless parsed then p\<lparr>sp_head := head, sp_body_complete := True\<rparr>
                   else if sp_response_to_head p then
                     p\<lparr>sp_head := (if ph_has_content_length parsed
                         then head\<lparr>rh_body_mode := kSuppressedWithKnownLength,
                                    rh_content_length := Some (ph_content_length parsed)\<rparr>
                         else head\<lparr>rh_body_mode := kSuppressedWithUnknownLength\<rparr>),
                        sp_body_complete := True\<rparr>
                   else p\<lparr>sp_head := head\<lparr>rh_content_length := Some (ph_content_length parsed)\<rparr>,
                          sp_remaining_body := ph_content_length parsed,
                          sp_body_complete := (ph_content_length parsed = 0)\<rparr>) in
          res_bind (Retrieve input (ph_header_end parsed)) (\<lambda>input. Inr (kComplete, p, input)))"

text \<open>
  \<open>ConsumeBody\<close> also returns the segment the sink took (the empty list when it was not called
  or declined).
\<close>

definition HttpResponseParser_ConsumeBody ::
    "response_parser \<Rightarrow> buffer \<Rightarrow> (string \<Rightarrow> bool) \<Rightarrow>
     cpp_error + (parse_result \<times> response_parser \<times> buffer \<times> string)" where
  "HttpResponseParser_ConsumeBody p input sink =
     (if \<not> sp_headers_complete p then Inl LogicError
      else if sp_result p \<noteq> kNeedMoreData \<or> sp_body_complete p then
        Inr (kComplete, p\<lparr>sp_result := kComplete\<rparr>, input, [])
      else let bytes = ReadableView input; n = min (sp_remaining_body p) (length bytes) in
        if n = 0 then Inr (kNeedMoreData, p, input, [])
        else if \<not> sink (take n bytes) then Inr (kNeedMoreData, p, input, [])
        else res_bind (Retrieve input n) (\<lambda>input.
          let p = p\<lparr>sp_remaining_body := sp_remaining_body p - n\<rparr>;
              p = (if sp_remaining_body p = 0 then p\<lparr>sp_body_complete := True, sp_result := kComplete\<rparr> else p)
          in Inr (sp_result p, p, input, take n bytes)))"

end
