(* ===== verification/UpstreamConnection.thy ===== *)
theory UpstreamConnection
  imports HttpResponses HttpRequests
begin

text \<open>
  One serial exchange with an upstream endpoint (\<open>net/UpstreamConnection\<close>): connecting,
  writing the serialized request, and reading the response, either as a whole or streamed to a
  body sink that may decline a chunk.

  What the kernel answers to the socket calls is part of the state: the pending answers of
  \<open>recv\<close> and \<open>send\<close> (an exhausted list answers that the call would block), of the peek that
  precedes a keep-alive, and of the calls that open the connection.  Registration with epoll is
  taken to succeed.  Callbacks are recorded in the order in which they are invoked; what the
  body sink answers is part of the state, too.
\<close>

section \<open>Data\<close>

datatype upstream_result =
  kSuccess | kConnectError | kWriteError | kReadError | kEof | kProtocolError | kUnsupportedResult

datatype upstream_progress = kConnected | kRequestWritten | kFirstByte | kResponseHeader

datatype upstream_state = kIdle | kConnecting | kWriting | kReading | kFinished

datatype recv_answer = RecvBytes string | RecvEof | RecvInterrupted | RecvWouldBlock | RecvFailed
datatype send_answer = SendBytes nat | SendInterrupted | SendWouldBlock | SendFailed
datatype peek_answer = PeekClosed | PeekByte | PeekWouldBlock | PeekFailed
datatype connect_answer = ConnectDone | ConnectInProgress | ConnectFailed
datatype pending_error = NoPendingError | PendingError | PendingErrorThrows

text \<open>The sink takes the chunk, takes it and pauses the reading, or declines it.\<close>

datatype sink_answer = SinkTakes | SinkTakesAndPauses | SinkDeclines

datatype upstream_event =
    Progressed upstream_progress
  | HeaderDelivered response_head
  | BodyDelivered string
  | Terminal upstream_result http_response

record kernel_answers =
  ka_socket :: bool
  ka_setsockopt_send :: bool
  ka_setsockopt_receive :: bool
  ka_connect :: connect_answer
  ka_pending_error :: pending_error
  ka_recv :: "recv_answer list"
  ka_send :: "send_answer list"
  ka_peek :: peek_answer
  ka_sink :: "sink_answer list"

text \<open>The interest set of the channel: reading and writing.\<close>

record upstream_connection =
  uc_socket :: bool
  uc_channel :: "(bool \<times> bool) option"
  uc_input :: buffer
  uc_output :: buffer
  uc_parser :: response_parser
  uc_callback :: bool
  uc_progress_callback :: bool
  uc_header_callback :: bool
  uc_body_sink :: bool
  uc_state :: upstream_state
  uc_reusable :: bool
  uc_first_byte_reported :: bool
  uc_response_header_reported :: bool
  uc_header_reported :: bool
  uc_reading_paused :: bool
  uc_kernel :: kernel_answers
  uc_events :: "upstream_event list"

definition UpstreamConnection_new :: "kernel_answers \<Rightarrow> bool \<Rightarrow> upstream_connection" where
  "UpstreamConnection_new answers callback =
     \<lparr>uc_socket = False, uc_channel = None, uc_input = Buffer_new, uc_output = Buffer_new,
      uc_parser = HttpResponseParser_Reset False, uc_callback = callback, uc_progress_callback = False,
      uc_header_callback = False, uc_body_sink = False, uc_state = kIdle, uc_reusable = False,
      uc_first_byte_reported = False, uc_response_header_reported = False, uc_header_reported = False,
      uc_reading_paused = False, uc_kernel = answers, uc_events = []\<rparr>"

section \<open>Helpers\<close>

definition emit :: "upstream_event \<Rightarrow> upstream_connection \<Rightarrow> upstream_connection" where
  "emit e c = c\<lparr>uc_events := uc_events c @ [e]\<rparr>"

definition report_progress :: "upstream_progress \<Rightarrow> upstream_connection \<Rightarrow> upstream_connection" where
  "report_progress p c = (if uc_progress_callback c then emit (Progressed p) c else c)"

fun comma_tokens :: "nat \<Rightarrow> string \<Rightarrow> string list" where
  "comma_tokens 0 v = []"
| "comma_tokens (Suc n) v =
     (if v = [] then []
      else case find_char (CHR '','') v of
        None \<Rightarrow> [TrimOws v]
      | Some comma \<Rightarrow> TrimOws (take comma v) # comma_tokens n (drop (comma + 1) v))"

text \<open>A connection header with a close token; each round of the loop drops at least one character.\<close>

definition RequestsClose :: "header_list \<Rightarrow> bool" where
  "RequestsClose headers \<longleftrightarrow> (\<exists>(name, v) \<in> set headers.
     LowerAscii name = ''connection'' \<and> ''close'' \<in> set (map LowerAscii (comma_tokens (length v) v)))"

definition PeerHasClosedOrSentExtraBytes :: "upstream_connection \<Rightarrow> bool" where
  "PeerHasClosedOrSentExtraBytes c \<longleftrightarrow> ka_peek (uc_kernel c) \<noteq> PeekWouldBlock"

definition ResponseRequestsClose :: "upstream_connection \<Rightarrow> bool" where
  "ResponseRequestsClose c = RequestsClose (rs_headers (sp_response (uc_parser c)))"

definition HeadRequestsClose :: "upstream_connection \<Rightarrow> bool" where
  "HeadRequestsClose c = RequestsClose (rh_headers (sp_head (uc_parser c)))"

section \<open>Operations\<close>

definition Upstream_Close :: "upstream_connection \<Rightarrow> upstream_connection" where
  "Upstream_Close c =
     (if uc_state c = kFinished then c
      else c\<lparr>uc_state := kFinished, uc_channel := None, uc_socket := False\<rparr>)"

definition Upstream_Finish :: "upstream_result \<Rightarrow> upstream_connection \<Rightarrow> upstream_connection" where
  "Upstream_Finish result c =
     (if uc_state c = kFinished then c
      else
        let keep_alive = (result = kSuccess \<and> ReadableBytes (uc_input c) = 0
              \<and> \<not> (if uc_body_sink c then HeadRequestsClose c else ResponseRequestsClose c)
              \<and> \<not> PeerHasClosedOrSentExtraBytes c);
            response = (if result = kSuccess then sp_response (uc_parser c) else HttpResponse_new);
            callback = uc_callback c;
            c = c\<lparr>uc_callback := False\<rparr>;
            c = (if keep_alive
                 then c\<lparr>uc_reusable := True, uc_state := kIdle, uc_progress_callback := False,
                        uc_header_callback := False, uc_body_sink := False,
                        uc_channel := map_option (\<lambda>_. (False, False)) (uc_channel c)\<rparr>
                 else c\<lparr>uc_state := kFinished, uc_channel := None, uc_socket := False\<rparr>)
        in if callback then emit (Terminal result response) c else c)"

definition SetResponseCallback :: "bool \<Rightarrow> upstream_connection \<Rightarrow> upstream_connection effect" where
  "SetResponseCallback callback c =
     (if uc_state c \<noteq> kIdle then (Some LogicError, c) else (None, c\<lparr>uc_callback := callback\<rparr>))"

definition SetProgressCallback :: "bool \<Rightarrow> upstream_connection \<Rightarrow> upstream_connection effect" where
  "SetProgressCallback callback c =
     (if uc_state c \<noteq> kIdle then (Some LogicError, c) else (None, c\<lparr>uc_progress_callback := callback\<rparr>))"

definition SetStreamingCallbacks :: "bool \<Rightarrow> bool \<Rightarrow> upstream_connection \<Rightarrow> upstream_connection effect" where
  "SetStreamingCallbacks header_callback body_sink c =
     (if uc_state c \<noteq> kIdle then (Some LogicError, c)
      else (None, c\<lparr>uc_header_callback := header_callback, uc_body_sink := body_sink\<rparr>))"

definition SuppressCallbacks :: "upstream_connection \<Rightarrow> upstream_connection" where
  "SuppressCallbacks c = c\<lparr>uc_callback := False, uc_progress_callback := False,
     uc_header_callback := False, uc_body_sink := False\<rparr>"

definition enable_writing :: "upstream_connection \<Rightarrow> upstream_connection" where
  "enable_writing c = c\<lparr>uc_channel := map_option (\<lambda>(r, _). (r, True)) (uc_channel c)\<rparr>"

definition set_reading :: "bool \<Rightarrow> upstream_connection \<Rightarrow> upstream_connection" where
  "set_reading on c = c\<lparr>uc_channel := map_option (\<lambda>(_, w). (on, w)) (uc_channel c)\<rparr>"

definition PauseReading :: "upstream_connection \<Rightarrow> upstream_connection" where
  "PauseReading c =
     (if \<not> uc_body_sink c \<or> uc_state c \<noteq> kReading \<or> uc_channel c = None then c
      else set_reading False (c\<lparr>uc_reading_paused := True\<rparr>))"

text \<open>The write loop takes one answer of \<open>send\<close> per round.\<close>

fun send_loop :: "send_answer list \<Rightarrow> upstream_connection \<Rightarrow> upstream_connection effect" where
  "send_loop answers c =
     (if ReadableBytes (uc_output c) = 0 then
        let c = c\<lparr>uc_kernel := (uc_kernel c)\<lparr>ka_send := answers\<rparr>,
                  uc_channel := map_option (\<lambda>(r, _). (r, False)) (uc_channel c), uc_state := kReading\<rparr>
        in (None, set_reading True (report_progress kRequestWritten c))
      else case answers of
        [] \<Rightarrow> (None, enable_writing (c\<lparr>uc_kernel := (uc_kernel c)\<lparr>ka_send := []\<rparr>\<rparr>))
      | SendBytes n # rest \<Rightarrow>
          if n = 0 then (None, Upstream_Finish kWriteError (c\<lparr>uc_kernel := (uc_kernel c)\<lparr>ka_send := rest\<rparr>\<rparr>))
          else (case Retrieve (uc_output c) n of
                  Inl e \<Rightarrow> (Some e, c\<lparr>uc_kernel := (uc_kernel c)\<lparr>ka_send := rest\<rparr>\<rparr>)
                | Inr output \<Rightarrow> send_loop rest (c\<lparr>uc_output := output\<rparr>))
      | SendInterrupted # rest \<Rightarrow> send_loop rest c
      | SendWouldBlock # rest \<Rightarrow> (None, enable_writing (c\<lparr>uc_kernel := (uc_kernel c)\<lparr>ka_send := rest\<rparr>\<rparr>))
      | SendFailed # rest \<Rightarrow> (None, Upstream_Finish kWriteError (c\<lparr>uc_kernel := (uc_kernel c)\<lparr>ka_send := rest\<rparr>\<rparr>)))"

declare send_loop.simps [simp del]

definition HandleWrite :: "upstream_connection \<Rightarrow> upstream_connection effect" where
  "HandleWrite c =
     (if uc_state c = kConnecting then
        (if ka_pending_error (uc_kernel c) \<noteq> NoPendingError then (None, Upstream_Finish kConnectError c)
         else let c = report_progress kConnected (c\<lparr>uc_state := kWriting\<rparr>) in send_loop (ka_send (uc_kernel c)) c)
      else if uc_state c \<noteq> kWriting then (None, c)
      else send_loop (ka_send (uc_kernel c)) c)"

definition Upstream_Start :: "http_request \<Rightarrow> upstream_connection \<Rightarrow> upstream_connection effect" where
  "Upstream_Start request c =
     (if uc_state c \<noteq> kIdle then (Some LogicError, c)
      else
        let c = c\<lparr>uc_reusable := False, uc_input := RetrieveAll (uc_input c), uc_output := RetrieveAll (uc_output c),
                  uc_parser := HttpResponseParser_Reset (rq_method request = ''HEAD''),
                  uc_first_byte_reported := False, uc_response_header_reported := False,
                  uc_header_reported := False, uc_reading_paused := False\<rparr>
        in case SerializeRequest request of
             Inl _ \<Rightarrow> (None, Upstream_Finish kProtocolError c)
           | Inr bytes \<Rightarrow>
               let c = c\<lparr>uc_output := Append (uc_output c) bytes\<rparr> in
               if uc_socket c then
                 HandleWrite (enable_writing (report_progress kConnected (c\<lparr>uc_state := kWriting\<rparr>)))
               else if \<not> ka_socket (uc_kernel c) then (Some SystemError, c)
               else
                 let c = c\<lparr>uc_socket := True\<rparr> in
                 if \<not> ka_setsockopt_send (uc_kernel c) then (None, Upstream_Finish kConnectError c)
                 else if \<not> ka_setsockopt_receive (uc_kernel c) then (None, Upstream_Finish kConnectError c)
                 else
                   let c = c\<lparr>uc_channel := Some (False, False), uc_state := kConnecting\<rparr> in
                   if ka_connect (uc_kernel c) = ConnectFailed then (None, Upstream_Finish kConnectError c)
                   else
                     let c = enable_writing c in
                     if ka_connect (uc_kernel c) = ConnectDone then HandleWrite c else (None, c))"

subsection \<open>Reading a whole response\<close>

definition receive :: "string \<Rightarrow> upstream_connection \<Rightarrow> upstream_connection" where
  "receive bytes c =
     (let c = c\<lparr>uc_input := Append (uc_input c) bytes\<rparr> in
      if \<not> uc_first_byte_reported c then report_progress kFirstByte (c\<lparr>uc_first_byte_reported := True\<rparr>) else c)"

fun read_loop :: "recv_answer list \<Rightarrow> upstream_connection \<Rightarrow> upstream_connection effect" where
  "read_loop [] c = (None, c\<lparr>uc_kernel := (uc_kernel c)\<lparr>ka_recv := []\<rparr>\<rparr>)"
| "read_loop (RecvBytes bytes # rest) c =
     (let c = receive bytes c in
      case HttpResponseParser_Parse (uc_parser c) (uc_input c) of
        Inl e \<Rightarrow> (Some e, c)
      | Inr (result, parser, input) \<Rightarrow>
          let c = c\<lparr>uc_parser := parser, uc_input := input\<rparr>;
              c = (if sp_headers_complete parser \<and> \<not> uc_response_header_reported c
                   then report_progress kResponseHeader (c\<lparr>uc_response_header_reported := True\<rparr>) else c);
              stop = c\<lparr>uc_kernel := (uc_kernel c)\<lparr>ka_recv := rest\<rparr>\<rparr>
          in case result of
               kNeedMoreData \<Rightarrow> read_loop rest c
             | kComplete \<Rightarrow> (None, Upstream_Finish kSuccess stop)
             | kError \<Rightarrow> (None, Upstream_Finish kProtocolError stop)
             | kUnsupported \<Rightarrow> (None, Upstream_Finish kUnsupportedResult stop))"
| "read_loop (RecvEof # rest) c = (None, Upstream_Finish kEof (c\<lparr>uc_kernel := (uc_kernel c)\<lparr>ka_recv := rest\<rparr>\<rparr>))"
| "read_loop (RecvInterrupted # rest) c = read_loop rest c"
| "read_loop (RecvWouldBlock # rest) c = (None, c\<lparr>uc_kernel := (uc_kernel c)\<lparr>ka_recv := rest\<rparr>\<rparr>)"
| "read_loop (RecvFailed # rest) c =
     (None, Upstream_Finish kReadError (c\<lparr>uc_kernel := (uc_kernel c)\<lparr>ka_recv := rest\<rparr>\<rparr>))"

subsection \<open>Streaming\<close>

text \<open>Calling the body sink with a chunk: what it answers, and the effect of a pause it asks for.\<close>

definition next_sink_answer :: "upstream_connection \<Rightarrow> sink_answer" where
  "next_sink_answer c = (case ka_sink (uc_kernel c) of [] \<Rightarrow> SinkTakes | a # _ \<Rightarrow> a)"

definition sink_called :: "string \<Rightarrow> upstream_connection \<Rightarrow> upstream_connection" where
  "sink_called chunk c =
     (let c' = c\<lparr>uc_kernel := (uc_kernel c)\<lparr>ka_sink := tl (ka_sink (uc_kernel c))\<rparr>\<rparr> in
      case next_sink_answer c of
        SinkTakes \<Rightarrow> emit (BodyDelivered chunk) c'
      | SinkTakesAndPauses \<Rightarrow> PauseReading (emit (BodyDelivered chunk) c')
      | SinkDeclines \<Rightarrow> c')"

text \<open>The chunk that \<open>ConsumeBody\<close> hands to the sink, if it calls it.\<close>

definition offered_chunk :: "response_parser \<Rightarrow> buffer \<Rightarrow> string" where
  "offered_chunk p input =
     (if \<not> sp_headers_complete p \<or> sp_result p \<noteq> kNeedMoreData \<or> sp_body_complete p then []
      else take (min (sp_remaining_body p) (ReadableBytes input)) (ReadableView input))"

definition ConsumeStreamingInput :: "upstream_connection \<Rightarrow> cpp_error + (bool \<times> upstream_connection)" where
  "ConsumeStreamingInput c =
     (if \<not> uc_header_reported c then
        res_bind (HttpResponseParser_ParseHeaders (uc_parser c) (uc_input c)) (\<lambda>(result, parser, input).
          let c = c\<lparr>uc_parser := parser, uc_input := input\<rparr> in
          Inr (case result of
                 kError \<Rightarrow> (False, Upstream_Finish kProtocolError c)
               | kUnsupported \<Rightarrow> (False, Upstream_Finish kUnsupportedResult c)
               | kNeedMoreData \<Rightarrow> (True, c)
               | kComplete \<Rightarrow>
                   let c = c\<lparr>uc_header_reported := True\<rparr>;
                       c = (if uc_header_callback c then emit (HeaderDelivered (sp_head parser)) c else c)
                   in if sp_body_complete parser then (False, Upstream_Finish kSuccess c) else (True, c)))
      else if sp_body_complete (uc_parser c) then Inr (False, Upstream_Finish kSuccess c)
      else
        let chunk = offered_chunk (uc_parser c) (uc_input c); taken = (next_sink_answer c \<noteq> SinkDeclines) in
        res_bind (HttpResponseParser_ConsumeBody (uc_parser c) (uc_input c) (\<lambda>_. taken)) (\<lambda>(result, parser, input, _).
          let c = (if chunk \<noteq> [] then sink_called chunk c else c);
              c = c\<lparr>uc_parser := parser, uc_input := input\<rparr> in
          Inr (if result = kComplete then (False, Upstream_Finish kSuccess c)
               else if ReadableBytes (uc_input c) \<noteq> 0 then (False, PauseReading c)
               else (True, c))))"

text \<open>The loop need not end, so its result is optional.\<close>

partial_function (option) HandleStreamingRead :: "upstream_connection \<Rightarrow> upstream_connection effect option" where
  "HandleStreamingRead c =
     (if uc_reading_paused c then Some (None, c)
      else if ReadableBytes (uc_input c) \<noteq> 0 then
        (case ConsumeStreamingInput c of
           Inl e \<Rightarrow> Some (Some e, c)
         | Inr (go_on, c') \<Rightarrow> if \<not> go_on then Some (None, c') else HandleStreamingRead c')
      else
        (let answers = ka_recv (uc_kernel c); stop = c\<lparr>uc_kernel := (uc_kernel c)\<lparr>ka_recv := tl answers\<rparr>\<rparr> in
         if answers = [] then Some (None, c)
         else case hd answers of
           RecvBytes bytes \<Rightarrow>
             (case ConsumeStreamingInput (receive bytes stop) of
                Inl e \<Rightarrow> Some (Some e, receive bytes stop)
              | Inr (go_on, c') \<Rightarrow> if \<not> go_on then Some (None, c') else HandleStreamingRead c')
         | RecvEof \<Rightarrow> Some (None, Upstream_Finish kEof stop)
         | RecvInterrupted \<Rightarrow> HandleStreamingRead stop
         | RecvWouldBlock \<Rightarrow> Some (None, stop)
         | RecvFailed \<Rightarrow> Some (None, Upstream_Finish kReadError stop)))"

definition HandleRead :: "upstream_connection \<Rightarrow> upstream_connection effect option" where
  "HandleRead c =
     (if uc_state c = kConnecting \<or> uc_state c = kWriting then Some (HandleWrite c)
      else if uc_state c \<noteq> kReading then Some (None, c)
      else if uc_body_sink c then HandleStreamingRead c
      else Some (read_loop (ka_recv (uc_kernel c)) c))"

definition ResumeReading :: "upstream_connection \<Rightarrow> upstream_connection effect option" where
  "ResumeReading c =
     (if \<not> uc_body_sink c \<or> uc_state c \<noteq> kReading \<or> uc_channel c = None \<or> \<not> uc_reading_paused c
      then Some (None, c)
      else
        let c = set_reading True (c\<lparr>uc_reading_paused := False\<rparr>) in
        if ReadableBytes (uc_input c) \<noteq> 0 then HandleRead c else Some (None, c))"

definition Reusable :: "upstream_connection \<Rightarrow> bool" where
  "Reusable c \<longleftrightarrow> uc_state c = kIdle \<and> uc_reusable c"

definition HealthyForReuse :: "upstream_connection \<Rightarrow> bool \<times> upstream_connection" where
  "HealthyForReuse c =
     (if \<not> Reusable c then (False, c)
      else if \<not> PeerHasClosedOrSentExtraBytes c then (True, c)
      else (False, Upstream_Close c))"

section \<open>The terminal callback\<close>

fun is_terminal :: "upstream_event \<Rightarrow> bool" where
  "is_terminal (Terminal _ _) = True"
| "is_terminal _ = False"

definition quiet :: "upstream_connection \<Rightarrow> bool" where
  "quiet c \<longleftrightarrow> uc_state c = kIdle \<or> uc_state c = kFinished"

definition pending_terminal :: "upstream_connection \<Rightarrow> bool" where
  "pending_terminal c \<longleftrightarrow> (\<forall>e \<in> set (uc_events c). \<not> is_terminal e)"

text \<open>
  The terminal event is still to come, or it was the last one and the connection rests.  The
  parameter says whether the caller may have given up the exchange by closing the connection or
  by suppressing its callbacks, in which case the terminal event need not come.
\<close>

definition may_report :: "bool \<Rightarrow> upstream_connection \<Rightarrow> bool" where
  "may_report given_up c \<longleftrightarrow> pending_terminal c \<and> (given_up \<or> uc_callback c \<and> uc_state c \<noteq> kFinished)"

definition awaiting :: "bool \<Rightarrow> upstream_connection \<Rightarrow> bool" where
  "awaiting given_up c \<longleftrightarrow> pending_terminal c \<and> (given_up \<or> uc_callback c \<and> \<not> quiet c)"

definition ends_terminal :: "upstream_connection \<Rightarrow> bool" where
  "ends_terminal c \<longleftrightarrow> uc_events c \<noteq> [] \<and> is_terminal (last (uc_events c))"

definition exchange_ok :: "bool \<Rightarrow> upstream_connection \<Rightarrow> bool" where
  "exchange_ok given_up c \<longleftrightarrow> awaiting given_up c
     \<or> (\<forall>e \<in> set (butlast (uc_events c)). \<not> is_terminal e) \<and> quiet c \<and> (given_up \<or> ends_terminal c)"

lemma awaiting_exchange: "awaiting g c \<Longrightarrow> exchange_ok g c"
  by (simp add: exchange_ok_def)

lemma awaiting_ready: "awaiting g c \<Longrightarrow> may_report g c"
  by (auto simp: awaiting_def may_report_def quiet_def)

lemma awaiting_open: "exchange_ok g c \<Longrightarrow> \<not> quiet c \<Longrightarrow> awaiting g c"
  by (auto simp: exchange_ok_def)

lemma awaiting_update [simp]:
  "awaiting g (c\<lparr>uc_kernel := x0\<rparr>) = awaiting g c"
  "awaiting g (c\<lparr>uc_parser := x1\<rparr>) = awaiting g c"
  "awaiting g (c\<lparr>uc_input := x2\<rparr>) = awaiting g c"
  "awaiting g (c\<lparr>uc_output := x3\<rparr>) = awaiting g c"
  "awaiting g (c\<lparr>uc_header_reported := x4\<rparr>) = awaiting g c"
  "awaiting g (c\<lparr>uc_response_header_reported := x5\<rparr>) = awaiting g c"
  "awaiting g (c\<lparr>uc_first_byte_reported := x6\<rparr>) = awaiting g c"
  "awaiting g (c\<lparr>uc_channel := x7\<rparr>) = awaiting g c"
  "awaiting g (c\<lparr>uc_socket := x8\<rparr>) = awaiting g c"
  "awaiting g (c\<lparr>uc_reading_paused := x9\<rparr>) = awaiting g c"
  "awaiting g (c\<lparr>uc_reusable := x10\<rparr>) = awaiting g c"
  by (simp_all add: awaiting_def pending_terminal_def quiet_def)

lemma ready_update [simp]:
  "may_report g (c\<lparr>uc_kernel := x0\<rparr>) = may_report g c"
  "may_report g (c\<lparr>uc_parser := x1\<rparr>) = may_report g c"
  "may_report g (c\<lparr>uc_input := x2\<rparr>) = may_report g c"
  "may_report g (c\<lparr>uc_output := x3\<rparr>) = may_report g c"
  "may_report g (c\<lparr>uc_header_reported := x4\<rparr>) = may_report g c"
  "may_report g (c\<lparr>uc_response_header_reported := x5\<rparr>) = may_report g c"
  "may_report g (c\<lparr>uc_first_byte_reported := x6\<rparr>) = may_report g c"
  "may_report g (c\<lparr>uc_channel := x7\<rparr>) = may_report g c"
  "may_report g (c\<lparr>uc_socket := x8\<rparr>) = may_report g c"
  "may_report g (c\<lparr>uc_reading_paused := x9\<rparr>) = may_report g c"
  "may_report g (c\<lparr>uc_reusable := x10\<rparr>) = may_report g c"
  by (simp_all add: may_report_def pending_terminal_def)

lemma ready_state [simp]:
  "may_report g c \<Longrightarrow> awaiting g (c\<lparr>uc_state := kConnecting\<rparr>)" "may_report g c \<Longrightarrow> awaiting g (c\<lparr>uc_state := kWriting\<rparr>)"
  "may_report g c \<Longrightarrow> awaiting g (c\<lparr>uc_state := kReading\<rparr>)"
  by (auto simp: may_report_def awaiting_def pending_terminal_def quiet_def)

lemma emit_fields [simp]:
  "uc_events (emit e c) = uc_events c @ [e]" "uc_state (emit e c) = uc_state c" "uc_input (emit e c) = uc_input c"
  "uc_kernel (emit e c) = uc_kernel c" "uc_callback (emit e c) = uc_callback c" "uc_parser (emit e c) = uc_parser c" "uc_output (emit e c) = uc_output c"
  by (simp_all add: emit_def)

lemma emit_live [simp]: "awaiting g (emit e c) \<longleftrightarrow> awaiting g c \<and> \<not> is_terminal e"
  by (auto simp: awaiting_def pending_terminal_def quiet_def)

lemma report_progress_live [simp]: "awaiting g (report_progress p c) = awaiting g c"
  by (simp add: report_progress_def)

lemma report_progress_fields [simp]:
  "uc_state (report_progress p c) = uc_state c" "uc_input (report_progress p c) = uc_input c"
  "uc_kernel (report_progress p c) = uc_kernel c" "uc_parser (report_progress p c) = uc_parser c"
  "uc_output (report_progress p c) = uc_output c"
  by (simp_all add: report_progress_def)

lemma channel_frame [simp]:
  "uc_events (enable_writing c) = uc_events c" "uc_events (set_reading on c) = uc_events c"
  "uc_state (enable_writing c) = uc_state c" "uc_state (set_reading on c) = uc_state c"
  "uc_callback (enable_writing c) = uc_callback c" "uc_callback (set_reading on c) = uc_callback c"
  "uc_callback (PauseReading c) = uc_callback c" "uc_events (PauseReading c) = uc_events c" "uc_state (PauseReading c) = uc_state c"
  by (simp_all add: enable_writing_def set_reading_def PauseReading_def)

lemma channel_live [simp]:
  "awaiting g (enable_writing c) = awaiting g c" "awaiting g (set_reading on c) = awaiting g c" "awaiting g (PauseReading c) = awaiting g c"
  by (simp_all add: awaiting_def pending_terminal_def quiet_def)

lemma Finish_exchange:
  assumes "may_report g c"
  shows "exchange_ok g (Upstream_Finish r c)"
proof (cases "uc_state c = kFinished")
  case True
  then show ?thesis using assms by (simp add: Upstream_Finish_def may_report_def exchange_ok_def awaiting_def)
next
  case False
  have "quiet (Upstream_Finish r c)" using False by (auto simp: Upstream_Finish_def Let_def quiet_def)
  moreover have "uc_events (Upstream_Finish r c) =
      uc_events c @ (if uc_callback c then [Terminal r (if r = kSuccess then sp_response (uc_parser c) else HttpResponse_new)] else [])"
    using False by (auto simp: Upstream_Finish_def Let_def)
  ultimately show ?thesis using assms
    by (auto simp: exchange_ok_def may_report_def ends_terminal_def pending_terminal_def dest: in_set_butlastD)
qed

lemmas Finish_live = Finish_exchange [OF awaiting_ready]

lemma send_loop_terminal: "awaiting g c \<Longrightarrow> exchange_ok g (snd (send_loop answers c))"
proof (induction answers c rule: send_loop.induct)
  case (1 answers c)
  have keep: "awaiting g (c\<lparr>uc_kernel := k\<rparr>)" for k using 1(3) by simp
  have out: "awaiting g (c\<lparr>uc_output := o'\<rparr>)" for o' using 1(3) by simp
  show ?case
  proof (cases "ReadableBytes (uc_output c) = 0")
    case True
    then show ?thesis using 1(3)
      by (subst send_loop.simps) (simp add: Let_def awaiting_exchange awaiting_ready)
  next
    case False
    then show ?thesis using keep
      by (subst send_loop.simps)
        (auto simp: 1(1)[OF False _ _ _ _ out] 1(2)[OF False _ _ 1(3)]
          intro!: awaiting_exchange Finish_live split: list.splits send_answer.splits sum.splits)
  qed
qed

lemma HandleWrite_terminal: "awaiting g c \<Longrightarrow> exchange_ok g (snd (HandleWrite c))"
  using awaiting_exchange [of g c] Finish_live [of g c kConnectError] awaiting_ready [of g c]
    send_loop_terminal [of g c] send_loop_terminal [of g "report_progress kConnected (c\<lparr>uc_state := kWriting\<rparr>)"]
  by (simp add: HandleWrite_def Let_def )

lemma receive_pending [simp]: "awaiting g (receive bytes c) = awaiting g c"
  by (simp add: receive_def Let_def )

lemma read_loop_terminal: "awaiting g c \<Longrightarrow> exchange_ok g (snd (read_loop answers c))"
proof (induction answers c rule: read_loop.induct)
  case (2 bytes rest c)
  define c1 where "c1 = receive bytes c"
  have c1: "awaiting g c1" using 2(2) by (simp add: c1_def)
  show ?case
  proof (cases "HttpResponseParser_Parse (uc_parser c1) (uc_input c1)")
    case (Inl e)
    then show ?thesis using c1 by (simp add: c1_def [symmetric] Let_def awaiting_exchange)
  next
    case (Inr r)
    obtain result parser input where r: "r = (result, parser, input)" by (cases r)
    define c2 where "c2 = c1\<lparr>uc_parser := parser, uc_input := input\<rparr>"
    define c3 where "c3 = (if sp_headers_complete parser \<and> \<not> uc_response_header_reported c2
        then report_progress kResponseHeader (c2\<lparr>uc_response_header_reported := True\<rparr>) else c2)"
    have "awaiting g c2" using c1 by (simp add: c2_def )
    then have c3: "awaiting g c3" by (simp add: c3_def )
    then have stop: "awaiting g (c3\<lparr>uc_kernel := k\<rparr>)" for k by simp
    have loop: "exchange_ok g (snd (read_loop rest c3))" if "result = kNeedMoreData"
      by (rule 2(1) [OF c1_def Inr r [symmetric] refl c2_def c3_def refl that c3])
    show ?thesis
      unfolding read_loop.simps Let_def c1_def [symmetric] Inr sum.case r prod.case c2_def [symmetric] c3_def [symmetric]
      using loop Finish_live [OF stop] by (cases result) simp_all
  qed
qed (simp_all add: awaiting_exchange  Finish_live)

lemma sink_called_pending [simp]: "awaiting g (sink_called chunk c) = awaiting g c"
  by (cases "next_sink_answer c") (simp_all add: sink_called_def Let_def pending_terminal_def)

lemma ConsumeStreamingInput_terminal:
  assumes "ConsumeStreamingInput c = Inr (go_on, c')" and "awaiting g c"
  shows "exchange_ok g c'" and "go_on \<Longrightarrow> awaiting g c'"
proof -
  have "exchange_ok g c' \<and> (go_on \<longrightarrow> awaiting g c')"
  proof (cases "uc_header_reported c")
    case False
    with assms(1) obtain result parser input where
      p: "HttpResponseParser_ParseHeaders (uc_parser c) (uc_input c) = Inr (result, parser, input)" by (auto simp: ConsumeStreamingInput_def)
    define c1 where "c1 = c\<lparr>uc_parser := parser, uc_input := input\<rparr>"
    have c1: "awaiting g c1" using assms(2) by (simp add: c1_def )
    show ?thesis
      using assms(1) False p c1
      by (cases result)
        (auto simp: ConsumeStreamingInput_def c1_def [symmetric] Let_def
          awaiting_exchange Finish_live split: if_splits)
  next
    case True
    show ?thesis
    proof (cases "sp_body_complete (uc_parser c)")
      case True
      with \<open>uc_header_reported c\<close> assms show ?thesis
        by (auto simp: ConsumeStreamingInput_def Finish_live)
    next
      case False
      with assms True show ?thesis
        by (auto simp: ConsumeStreamingInput_def Let_def awaiting_exchange Finish_live split: if_splits)
    qed
  qed
  then show "exchange_ok g c'" "go_on \<Longrightarrow> awaiting g c'" by blast+
qed

lemma HandleStreamingRead_terminal:
  assumes "HandleStreamingRead c = Some r"
  shows "awaiting g c \<longrightarrow> exchange_ok g (snd r)"
proof (rule HandleStreamingRead.raw_induct [OF _ assms], intro impI)
  fix loop :: "upstream_connection \<Rightarrow> upstream_connection effect option" and c r
  assume IH: "\<And>c r. loop c = Some r \<Longrightarrow> awaiting g c \<longrightarrow> exchange_ok g (snd r)"
    and step: "(if uc_reading_paused c then Some (None, c)
      else if ReadableBytes (uc_input c) \<noteq> 0 then
        (case ConsumeStreamingInput c of
           Inl e \<Rightarrow> Some (Some e, c)
         | Inr (go_on, c') \<Rightarrow> if \<not> go_on then Some (None, c') else loop c')
      else
        (let answers = ka_recv (uc_kernel c); stop = c\<lparr>uc_kernel := (uc_kernel c)\<lparr>ka_recv := tl answers\<rparr>\<rparr> in
         if answers = [] then Some (None, c)
         else case hd answers of
           RecvBytes bytes \<Rightarrow>
             (case ConsumeStreamingInput (receive bytes stop) of
                Inl e \<Rightarrow> Some (Some e, receive bytes stop)
              | Inr (go_on, c') \<Rightarrow> if \<not> go_on then Some (None, c') else loop c')
         | RecvEof \<Rightarrow> Some (None, Upstream_Finish kEof stop)
         | RecvInterrupted \<Rightarrow> loop stop
         | RecvWouldBlock \<Rightarrow> Some (None, stop)
         | RecvFailed \<Rightarrow> Some (None, Upstream_Finish kReadError stop))) = Some r"
    and pend: "awaiting g c"
  have stop: "awaiting g (c\<lparr>uc_kernel := k\<rparr>)" for k using pend by simp
  have rec: "exchange_ok g (snd r)" if "ConsumeStreamingInput c0 = Inr (go_on, c')" "awaiting g c0"
    "(if \<not> go_on then Some (None, c') else loop c') = Some r" for c0 go_on c'
    using ConsumeStreamingInput_terminal [OF that(1,2)] that(3) IH by (auto split: if_splits)
  show "exchange_ok g (snd r)"
  proof (cases "uc_reading_paused c")
    case True
    with step pend show ?thesis by (auto simp: awaiting_exchange)
  next
    case unpaused: False
    show ?thesis
    proof (cases "ReadableBytes (uc_input c) = 0")
      case False
      show ?thesis
      proof (cases "ConsumeStreamingInput c")
        case (Inl e)
        with step pend unpaused False show ?thesis by (auto simp: awaiting_exchange)
      next
        case (Inr x)
        obtain go_on c' where x: "x = (go_on, c')" by (cases x)
        show ?thesis by (rule rec [OF Inr [unfolded x] pend]) (use step unpaused False Inr x in simp)
      qed
    next
      case True
      show ?thesis
      proof (cases "ka_recv (uc_kernel c)")
        case Nil
        with step pend unpaused True show ?thesis by (auto simp: Let_def awaiting_exchange)
      next
        case (Cons answer rest)
        define c1 where "c1 = c\<lparr>uc_kernel := (uc_kernel c)\<lparr>ka_recv := tl (ka_recv (uc_kernel c))\<rparr>\<rparr>"
        have c1: "awaiting g c1" using stop by (simp add: c1_def)
        have body: "(case answer of
             RecvBytes bytes \<Rightarrow>
               (case ConsumeStreamingInput (receive bytes c1) of
                  Inl e \<Rightarrow> Some (Some e, receive bytes c1)
                | Inr (go_on, c') \<Rightarrow> if \<not> go_on then Some (None, c') else loop c')
           | RecvEof \<Rightarrow> Some (None, Upstream_Finish kEof c1)
           | RecvInterrupted \<Rightarrow> loop c1
           | RecvWouldBlock \<Rightarrow> Some (None, c1)
           | RecvFailed \<Rightarrow> Some (None, Upstream_Finish kReadError c1)) = Some r"
          using step unpaused True Cons unfolding Let_def c1_def [symmetric] by simp
        show ?thesis
        proof (cases answer)
          case (RecvBytes bytes)
          have rb: "awaiting g (receive bytes c1)" using c1 by simp
          show ?thesis
          proof (cases "ConsumeStreamingInput (receive bytes c1)")
            case (Inl e)
            with body RecvBytes rb show ?thesis by (auto simp: awaiting_exchange)
          next
            case (Inr x)
            obtain go_on c' where x: "x = (go_on, c')" by (cases x)
            show ?thesis by (rule rec [OF Inr [unfolded x] rb]) (use body RecvBytes Inr x in simp)
          qed
        next
          case RecvInterrupted
          with body IH c1 show ?thesis by simp
        qed (use body c1 Finish_live [OF c1] in \<open>auto simp: awaiting_exchange\<close>)
      qed
    qed
  qed
qed

lemma HandleRead_terminal:
  assumes "HandleRead c = Some r" and "exchange_ok g c"
  shows "exchange_ok g (snd r)"
proof (cases "quiet c")
  case True
  then have "HandleRead c = Some (None, c)" by (auto simp: HandleRead_def quiet_def)
  with assms show ?thesis by auto
next
  case False
  then have pend: "awaiting g c" using assms(2) by (rule awaiting_open [rotated])
  show ?thesis
    using assms(1) HandleWrite_terminal [OF pend] read_loop_terminal [OF pend] awaiting_exchange [OF pend]
      HandleStreamingRead_terminal [of c r g] pend
    by (auto simp: HandleRead_def split: if_splits)
qed

lemma exchange_update [simp]:
  "exchange_ok g (c\<lparr>uc_kernel := x1\<rparr>) = exchange_ok g c"
  "exchange_ok g (c\<lparr>uc_reading_paused := x2\<rparr>) = exchange_ok g c"
  "exchange_ok g (set_reading on c) = exchange_ok g c" "exchange_ok g (PauseReading c) = exchange_ok g c"
  "exchange_ok True (SuppressCallbacks c) = exchange_ok True c"
  by (simp_all add: exchange_ok_def awaiting_def ends_terminal_def pending_terminal_def quiet_def SuppressCallbacks_def)

text \<open>Everything that can happen to a connection during an exchange; \<open>OpKernel\<close> is a change of what
  the kernel and the sink will answer.\<close>

datatype connection_op =
  OpRead | OpWrite | OpPause | OpResume | OpSuppress | OpClose | OpProbe | OpKernel kernel_answers

fun connection_step :: "connection_op \<Rightarrow> upstream_connection \<Rightarrow> upstream_connection option" where
  "connection_step OpRead c = map_option snd (HandleRead c)"
| "connection_step OpWrite c = Some (snd (HandleWrite c))"
| "connection_step OpPause c = Some (PauseReading c)"
| "connection_step OpResume c = map_option snd (ResumeReading c)"
| "connection_step OpSuppress c = Some (SuppressCallbacks c)"
| "connection_step OpClose c = Some (Upstream_Close c)"
| "connection_step OpProbe c = Some (snd (HealthyForReuse c))"
| "connection_step (OpKernel answers) c = Some (c\<lparr>uc_kernel := answers\<rparr>)"

fun connection_run :: "connection_op list \<Rightarrow> upstream_connection \<Rightarrow> upstream_connection option" where
  "connection_run [] c = Some c"
| "connection_run (op # ops) c = Option.bind (connection_step op c) (connection_run ops)"

lemma Close_exchange: "exchange_ok True c \<Longrightarrow> exchange_ok True (Upstream_Close c)"
  by (auto simp: exchange_ok_def awaiting_def pending_terminal_def quiet_def Upstream_Close_def)

lemma HealthyForReuse_exchange: "exchange_ok g c \<Longrightarrow> exchange_ok g (snd (HealthyForReuse c))"
  by (auto simp: HealthyForReuse_def Reusable_def Upstream_Close_def exchange_ok_def awaiting_def ends_terminal_def
      pending_terminal_def quiet_def)

fun gives_up :: "connection_op \<Rightarrow> bool" where
  "gives_up OpSuppress = True"
| "gives_up OpClose = True"
| "gives_up _ = False"

lemma connection_step_terminal:
  assumes "connection_step op c = Some c'" and "exchange_ok g c" and "g \<or> \<not> gives_up op"
  shows "exchange_ok g c'"
proof (cases op)
  case OpRead
  with assms HandleRead_terminal [of c _ g] show ?thesis by auto
next
  case OpWrite
  show ?thesis
  proof (cases "quiet c")
    case True
    then have "HandleWrite c = (None, c)" by (auto simp: HandleWrite_def quiet_def)
    with assms OpWrite show ?thesis by simp
  next
    case False
    with assms OpWrite HandleWrite_terminal [OF awaiting_open] show ?thesis by auto
  qed
next
  case OpResume
  with assms obtain r where r: "ResumeReading c = Some r" "c' = snd r" by auto
  have "exchange_ok g (set_reading True (c\<lparr>uc_reading_paused := False\<rparr>))" using assms(2) by simp
  from HandleRead_terminal [OF _ this, of r] r assms(2) show ?thesis
    by (auto simp: ResumeReading_def Let_def split: if_splits)
qed (use assms in \<open>auto simp: Close_exchange HealthyForReuse_exchange\<close>)

lemma connection_run_terminal:
  "connection_run ops c = Some c' \<Longrightarrow> exchange_ok g c \<Longrightarrow> g \<or> (\<forall>op \<in> set ops. \<not> gives_up op) \<Longrightarrow> exchange_ok g c'"
  by (induction ops arbitrary: c) (auto simp: bind_eq_Some_conv dest: connection_step_terminal)

lemma Start_terminal:
  assumes "may_report g c" "Upstream_Start request c = (None, c1)"
  shows "exchange_ok g c1"
proof (cases "SerializeRequest request")
  case (Inl e)
  then show ?thesis using assms by (auto simp: Upstream_Start_def Let_def Finish_exchange split: if_splits)
next
  case (Inr bytes)
  have written: "exchange_ok g c2" if "HandleWrite c0 = (None, c2)" "awaiting g c0" for c0 c2
    using HandleWrite_terminal [OF that(2)] that(1) by simp
  show ?thesis using assms Inr
    by (auto simp: Upstream_Start_def Let_def Finish_exchange awaiting_exchange awaiting_ready dest!: written split: if_splits)
qed

text \<open>
   C29. After the start of an exchange the terminal callback runs at most once and nothing is
  reported after it, whatever the kernel and the body sink answer and in whatever order reading,
  writing, pausing, resuming, suppressing and closing follow.  Unless the caller closes the
  connection or suppresses its callbacks, it runs exactly once: the connection is at rest, idle or
  finished, exactly when the last event is the terminal one.  The callbacks are recorded; the only
  call they make back into the connection is the pause that the body sink may ask for.
\<close>

theorem Upstream_terminal_once:
  assumes "uc_callback c" "uc_events c = []" "uc_state c = kIdle" and "Upstream_Start request c = (None, c1)"
    and "connection_run ops c1 = Some c'"
  shows "(\<forall>e \<in> set (butlast (uc_events c')). \<not> is_terminal e)
    \<and> ((\<forall>op \<in> set ops. \<not> gives_up op) \<longrightarrow> quiet c' = ends_terminal c')"
proof -
  have ready: "may_report g c" for g using assms(1-3) by (simp add: may_report_def pending_terminal_def)
  note run = connection_run_terminal [OF assms(5) Start_terminal [OF ready assms(4)]]
  have "exchange_ok True c'" by (rule run) simp
  moreover have "exchange_ok False c'" if "\<forall>op \<in> set ops. \<not> gives_up op" by (rule run) (use that in simp)
  ultimately show ?thesis
    by (auto simp: exchange_ok_def awaiting_def ends_terminal_def pending_terminal_def dest: in_set_butlastD)
qed

section \<open>A response head in more than one segment\<close>

definition awaiting_head :: "upstream_connection \<Rightarrow> bool" where
  "awaiting_head c \<longleftrightarrow> \<not> uc_reading_paused c \<and> \<not> uc_header_reported c \<and> sp_result (uc_parser c) = kNeedMoreData
     \<and> ReadableBytes (uc_input c) \<noteq> 0
     \<and> ParseHeaderArea (sp_response_to_head (uc_parser c)) (ReadableView (uc_input c)) = Inl kNeedMoreData"

lemma awaiting_head_no_progress:
  assumes "awaiting_head c"
  shows "ConsumeStreamingInput c = Inr (True, c)"
proof -
  have "(uc_parser c)\<lparr>sp_result := kNeedMoreData\<rparr> = uc_parser c"
    using assms by (cases "uc_parser c") (simp add: awaiting_head_def)
  moreover have "c\<lparr>uc_parser := uc_parser c, uc_input := uc_input c\<rparr> = c" by simp
  ultimately show ?thesis
    using assms by (simp add: ConsumeStreamingInput_def HttpResponseParser_ParseHeaders_def awaiting_head_def Let_def)
qed

lemma awaiting_head_diverges: "awaiting_head c \<Longrightarrow> HandleStreamingRead c = None"
proof (rule ccontr)
  assume a: "awaiting_head c" and "HandleStreamingRead c \<noteq> None"
  then obtain r where r: "HandleStreamingRead c = Some r" by blast
  have "\<not> awaiting_head c"
  proof (rule HandleStreamingRead.raw_induct [where P = "\<lambda>c r. \<not> awaiting_head c", OF _ r], rule notI)
    fix loop :: "upstream_connection \<Rightarrow> upstream_connection effect option" and c r
    assume IH: "\<And>c r. loop c = Some r \<Longrightarrow> \<not> awaiting_head c" and a: "awaiting_head c"
      and step: "(if uc_reading_paused c then Some (None, c)
        else if ReadableBytes (uc_input c) \<noteq> 0 then
          (case ConsumeStreamingInput c of
             Inl e \<Rightarrow> Some (Some e, c)
           | Inr (go_on, c') \<Rightarrow> if \<not> go_on then Some (None, c') else loop c')
        else
          (let answers = ka_recv (uc_kernel c); stop = c\<lparr>uc_kernel := (uc_kernel c)\<lparr>ka_recv := tl answers\<rparr>\<rparr> in
           if answers = [] then Some (None, c)
           else case hd answers of
             RecvBytes bytes \<Rightarrow>
               (case ConsumeStreamingInput (receive bytes stop) of
                  Inl e \<Rightarrow> Some (Some e, receive bytes stop)
                | Inr (go_on, c') \<Rightarrow> if \<not> go_on then Some (None, c') else loop c')
           | RecvEof \<Rightarrow> Some (None, Upstream_Finish kEof stop)
           | RecvInterrupted \<Rightarrow> loop stop
           | RecvWouldBlock \<Rightarrow> Some (None, stop)
           | RecvFailed \<Rightarrow> Some (None, Upstream_Finish kReadError stop))) = Some r"
    have "loop c = Some r"
      using step a awaiting_head_no_progress [OF a] by (simp add: awaiting_head_def)
    with IH a show False by blast
  qed
  with a show False by blast
qed

text \<open>
   C28. In streaming mode a response head that arrives in more than one segment makes the read
  handler run forever: when the first segment is a proper part of the head, the handler does not
  return, whatever the kernel would answer next, so the event loop of the worker never runs
  again.
\<close>

theorem streaming_head_split_diverges:
  assumes "uc_state c = kReading" and "uc_body_sink c" and "\<not> uc_reading_paused c" and "\<not> uc_header_reported c"
    and "sp_result (uc_parser c) = kNeedMoreData" and "buffer_wf (uc_input c)" "ReadableView (uc_input c) = []"
    and "ka_recv (uc_kernel c) = RecvBytes bytes # later" and "bytes \<noteq> []"
    and "ParseHeaderArea (sp_response_to_head (uc_parser c)) bytes = Inl kNeedMoreData"
  shows "HandleRead c = None"
proof -
  let ?c = "receive bytes (c\<lparr>uc_kernel := (uc_kernel c)\<lparr>ka_recv := later\<rparr>\<rparr>)"
  have view: "ReadableView (uc_input ?c) = bytes"
    using assms(6,7) by (simp add: receive_def Let_def Append_view)
  have flags: "uc_reading_paused ?c = uc_reading_paused c" "uc_header_reported ?c = uc_header_reported c"
    "uc_parser ?c = uc_parser c"
    by (simp_all add: receive_def Let_def report_progress_def emit_def)
  have await: "awaiting_head ?c"
    unfolding awaiting_head_def flags view ReadableBytes_view using assms by simp
  have "HandleStreamingRead c = HandleStreamingRead ?c"
    using assms awaiting_head_no_progress [OF await]
    by (subst HandleStreamingRead.simps) (simp add: Let_def)
  with awaiting_head_diverges [OF await] show ?thesis
    using assms(1,2) by (simp add: HandleRead_def)
qed

section \<open>Samples\<close>

definition sample_get :: http_request where
  "sample_get = \<lparr>rq_method = ''GET'', rq_target = ''/'', rq_version = ''HTTP/1.1'', rq_body = [],
     rq_headers = [(''Host'', ''x'')]\<rparr>"

definition sample_answers :: "recv_answer list \<Rightarrow> kernel_answers" where
  "sample_answers received = \<lparr>ka_socket = True, ka_setsockopt_send = True, ka_setsockopt_receive = True,
     ka_connect = ConnectDone, ka_pending_error = NoPendingError, ka_recv = received,
     ka_send = [SendBytes 40, SendInterrupted, SendBytes 30], ka_peek = PeekWouldBlock, ka_sink = []\<rparr>"

definition sample_idle :: "bool \<Rightarrow> recv_answer list \<Rightarrow> upstream_connection" where
  "sample_idle streaming received =
     (UpstreamConnection_new (sample_answers received) True)\<lparr>uc_header_callback := streaming, uc_body_sink := streaming\<rparr>"

definition sample_started :: "bool \<Rightarrow> recv_answer list \<Rightarrow> upstream_connection" where
  "sample_started streaming received = snd (Upstream_Start sample_get (sample_idle streaming received))"

definition sample_segment :: string where
  "sample_segment = ''HTTP/1.1 200 OK'' @ CRLF"

theorem streaming_head_split_diverges_witness:
  "HandleRead (sample_started True [RecvBytes sample_segment, RecvBytes (''Content-Length: 0'' @ CRLF @ CRLF)]) = None"
proof -
  let ?c = "sample_started True [RecvBytes sample_segment, RecvBytes (''Content-Length: 0'' @ CRLF @ CRLF)]"
  have 1: "uc_state ?c = kReading" "uc_body_sink ?c" "\<not> uc_reading_paused ?c" "\<not> uc_header_reported ?c"
    "sp_result (uc_parser ?c) = kNeedMoreData" by code_simp+
  have 2: "buffer_wf (uc_input ?c)" "ReadableView (uc_input ?c) = []" "sample_segment \<noteq> []"
    "ka_recv (uc_kernel ?c) = [RecvBytes sample_segment, RecvBytes (''Content-Length: 0'' @ CRLF @ CRLF)]"
    by code_simp+
  have "ParseHeaderArea (sp_response_to_head (uc_parser ?c)) sample_segment = Inl kNeedMoreData \<longleftrightarrow> True"
    by code_simp
  with streaming_head_split_diverges [OF 1 2(1,2,4,3)] show ?thesis by blast
qed

theorem Upstream_terminal_once_witness:
  "\<exists>c'. connection_run [OpRead, OpRead, OpProbe]
      (sample_started False [RecvBytes sample_segment, RecvBytes (''Content-Length: 2'' @ CRLF @ CRLF @ ''ok'')]) = Some c'
    \<and> (\<forall>e \<in> set (butlast (uc_events c')). \<not> is_terminal e) \<and> quiet c' \<and> ends_terminal c'"
proof -
  let ?received = "[RecvBytes sample_segment, RecvBytes (''Content-Length: 2'' @ CRLF @ CRLF @ ''ok'')]"
  let ?run = "connection_run [OpRead, OpRead, OpProbe] (sample_started False ?received)"
  have "\<not> Option.is_none ?run \<and> quiet (the ?run)" by code_simp
  then obtain c' where run: "?run = Some c'" and rest: "quiet c'" by (auto simp: Option.is_none_def)
  have idle: "uc_callback (sample_idle False ?received)" "uc_events (sample_idle False ?received) = []"
    "uc_state (sample_idle False ?received) = kIdle" by code_simp+
  have "fst (Upstream_Start sample_get (sample_idle False ?received)) = None" by code_simp
  then have "Upstream_Start sample_get (sample_idle False ?received) = (None, sample_started False ?received)"
    by (simp add: sample_started_def prod_eq_iff)
  from Upstream_terminal_once [OF idle this run] run rest show ?thesis by simp
qed

end
