(* ===== verification/TimerQueue.thy ===== *)
theory TimerQueue
  imports Prelude "HOL-Library.Product_Lexorder" "HOL-Library.Sublist"
begin

text \<open>
  The timer queue of an event loop (\<open>net/TimerQueue\<close>): an ordered map from deadline and
  identifier to a callback, an index from identifiers to positions, and one kernel timer that
  is re-armed for the first deadline after every change.

  A callback is a value of a type parameter; what calling it does is a function argument of
  the dispatch loop.  Every reading of the clock is an argument.  The kernel timer is the value
  last written to it together with the time of writing; whether the system call succeeds is an
  argument.
\<close>

section \<open>Model\<close>

subsection \<open>Ordered maps\<close>

fun map_emplace :: "'k::linorder \<Rightarrow> 'v \<Rightarrow> ('k \<times> 'v) list \<Rightarrow> ('k \<times> 'v) list" where
  "map_emplace k v [] = [(k, v)]"
| "map_emplace k v ((k', v') # m) =
     (if k < k' then (k, v) # (k', v') # m
      else if k = k' then (k', v') # m
      else (k', v') # map_emplace k v m)"

definition map_erase :: "'k \<Rightarrow> ('k \<times> 'v) list \<Rightarrow> ('k \<times> 'v) list" where
  "map_erase k m = filter (\<lambda>kv. fst kv \<noteq> k) m"

subsection \<open>Timers\<close>

type_synonym timer_key = "time_point \<times> u64"

text \<open>\<open>tq_timer\<close> is the time of the last write to the kernel timer and the written interval in
  seconds and nanoseconds, \<open>None\<close> when the timer is disarmed.\<close>

record 'a timer_queue =
  tq_timers :: "(timer_key \<times> 'a) list"
  tq_by_identifier :: "u64 \<rightharpoonup> timer_key"
  tq_next_identifier :: u64
  tq_timer :: "(time_point \<times> int \<times> int) option"

definition ToTimespec :: "int \<Rightarrow> int \<times> int" where
  "ToTimespec duration =
     (let duration = (if duration \<le> 0 then 1 else duration);
          seconds = tdiv duration 1000000000
      in (seconds, duration - seconds * 1000000000))"

definition TimerQueue_new :: "'a timer_queue" where
  "TimerQueue_new = \<lparr>tq_timers = [], tq_by_identifier = Map.empty, tq_next_identifier = 1, tq_timer = None\<rparr>"

definition Rearm :: "bool \<Rightarrow> time_point \<Rightarrow> 'a timer_queue \<Rightarrow> (cpp_error + unit) \<times> 'a timer_queue" where
  "Rearm settime_ok now q =
     (if \<not> settime_ok then (Inl SystemError, q)
      else (Inr (), q\<lparr>tq_timer :=
        (case tq_timers q of
           [] \<Rightarrow> None
         | ((deadline, _), _) # _ \<Rightarrow> Some (now, ToTimespec (deadline - now)))\<rparr>))"

definition ScheduleAt ::
    "bool \<Rightarrow> time_point \<Rightarrow> time_point \<Rightarrow> 'a option \<Rightarrow> 'a timer_queue \<Rightarrow> (cpp_error + u64) \<times> 'a timer_queue" where
  "ScheduleAt settime_ok now deadline callback q =
     (case callback of
        None \<Rightarrow> (Inl InvalidArgument, q)
      | Some action \<Rightarrow>
          if tq_next_identifier q = 0 then (Inl OverflowError, q)
          else
            let identifier = tq_next_identifier q;
                q = q\<lparr>tq_next_identifier := identifier + 1,
                      tq_timers := map_emplace (deadline, identifier) action (tq_timers q),
                      tq_by_identifier := (tq_by_identifier q)(identifier \<mapsto> (deadline, identifier))\<rparr>
            in case Rearm settime_ok now q of
                 (Inl e, q) \<Rightarrow> (Inl e, q)
               | (Inr _, q) \<Rightarrow> (Inr identifier, q))"

definition ScheduleAfter ::
    "bool \<Rightarrow> time_point \<Rightarrow> time_point \<Rightarrow> int \<Rightarrow> 'a option \<Rightarrow> 'a timer_queue \<Rightarrow> (cpp_error + u64) \<times> 'a timer_queue" where
  "ScheduleAfter settime_ok now rearm_now delay callback q =
     (if delay < 0 then (Inl InvalidArgument, q)
      else ScheduleAt settime_ok rearm_now (now + delay) callback q)"

definition Timer_Cancel :: "bool \<Rightarrow> time_point \<Rightarrow> u64 \<Rightarrow> 'a timer_queue \<Rightarrow> (cpp_error + bool) \<times> 'a timer_queue" where
  "Timer_Cancel settime_ok now identifier q =
     (case tq_by_identifier q identifier of
        None \<Rightarrow> (Inr False, q)
      | Some position \<Rightarrow>
          let q = q\<lparr>tq_timers := map_erase position (tq_timers q),
                    tq_by_identifier := (tq_by_identifier q)(identifier := None)\<rparr>
          in case Rearm settime_ok now q of
               (Inl e, q) \<Rightarrow> (Inl e, q)
             | (Inr _, q) \<Rightarrow> (Inr True, q))"

definition PendingCount :: "'a timer_queue \<Rightarrow> nat" where
  "PendingCount q = length (tq_timers q)"

text \<open>Detaching the first timer before its callback runs.\<close>

definition timer_pop :: "'a timer_queue \<Rightarrow> 'a timer_queue" where
  "timer_pop q =
     (case tq_timers q of
        [] \<Rightarrow> q
      | (key, _) # rest \<Rightarrow>
          q\<lparr>tq_by_identifier := (tq_by_identifier q)(snd key := None), tq_timers := rest\<rparr>)"

text \<open>
  The dispatch loop.  A callback may schedule and cancel timers of the same queue, so the loop
  need not end, and it may throw, which leaves the loop; the first component of the result
  lists the timers that ran.
\<close>

partial_function (option) fire_due ::
    "('a \<Rightarrow> 's \<times> 'a timer_queue \<Rightarrow> ('s \<times> 'a timer_queue) effect) \<Rightarrow> time_point \<Rightarrow> 's \<times> 'a timer_queue
     \<Rightarrow> (timer_key list \<times> ('s \<times> 'a timer_queue) effect) option" where
  "fire_due run now sq =
     (case tq_timers (snd sq) of
        [] \<Rightarrow> Some ([], None, sq)
      | (key, action) # rest \<Rightarrow>
          if fst key \<le> now
          then (case run action (fst sq, timer_pop (snd sq)) of
                  (Some e, sq') \<Rightarrow> Some ([key], Some e, sq')
                | (None, sq') \<Rightarrow>
                    Option.bind (fire_due run now sq') (\<lambda>(fired, r). Some (key # fired, r)))
          else Some ([], None, sq))"

text \<open>How reading the expiration counter of the kernel timer ends.\<close>

datatype timer_read = ReadDrained | ReadFailed | ReadShort

definition HandleReadable ::
    "('a \<Rightarrow> 's \<times> 'a timer_queue \<Rightarrow> ('s \<times> 'a timer_queue) effect) \<Rightarrow> timer_read \<Rightarrow> bool \<Rightarrow> time_point \<Rightarrow> time_point
     \<Rightarrow> 's \<times> 'a timer_queue \<Rightarrow> (timer_key list \<times> ('s \<times> 'a timer_queue) effect) option" where
  "HandleReadable run outcome settime_ok now rearm_now sq =
     (case outcome of
        ReadFailed \<Rightarrow> Some ([], Some SystemError, sq)
      | ReadShort \<Rightarrow> Some ([], Some RuntimeError, sq)
      | ReadDrained \<Rightarrow>
          Option.bind (fire_due run now sq) (\<lambda>(fired, r). Some (fired,
            then_do r (\<lambda>(s, q).
              (case Rearm settime_ok rearm_now q of
                 (Inl e, q) \<Rightarrow> (Some e, s, q) | (Inr _, q) \<Rightarrow> (None, s, q))))))"

section \<open>Well-formed queues\<close>

abbreviation timer_keys :: "'a timer_queue \<Rightarrow> timer_key list" where
  "timer_keys q \<equiv> map fst (tq_timers q)"

text \<open>
  The keys ascend, the index holds exactly the pending identifiers, and identifiers are below
  the next one to be issued.
\<close>

definition timers_wf :: "'a timer_queue \<Rightarrow> bool" where
  "timers_wf q \<longleftrightarrow> sorted_wrt (<) (timer_keys q)
     \<and> (\<forall>i k. tq_by_identifier q i = Some k \<longleftrightarrow> k \<in> set (timer_keys q) \<and> snd k = i)
     \<and> (\<forall>k \<in> set (timer_keys q). snd k \<noteq> 0 \<and> (tq_next_identifier q = 0 \<or> snd k < tq_next_identifier q))"

lemma set_map_emplace: "fst ` set (map_emplace k v m) = insert k (fst ` set m)"
  by (induction k v m rule: map_emplace.induct) auto

lemma map_emplace_mem: "kv \<in> set (map_emplace k v m) \<Longrightarrow> kv = (k, v) \<or> kv \<in> set m"
  by (induction k v m rule: map_emplace.induct) (auto split: if_splits)

lemma map_emplace_new: "k \<notin> fst ` set m \<Longrightarrow> set (map_emplace k v m) = insert (k, v) (set m)"
  by (induction k v m rule: map_emplace.induct) auto

lemma sorted_map_emplace:
  "sorted_wrt (<) (map fst m) \<Longrightarrow> sorted_wrt (<) (map fst (map_emplace k v m))"
proof (induction k v m rule: map_emplace.induct)
  case (2 k v k' v' m)
  have "fst ` set (map_emplace k v m) = insert k (fst ` set m)" by (rule set_map_emplace)
  with 2 show ?case by (auto dest: less_trans simp flip: set_map)
qed simp

lemma map_erase_keys: "map fst (map_erase k m) = filter (\<lambda>k'. k' \<noteq> k) (map fst m)"
  by (induction m) (simp_all add: map_erase_def)

lemma erase_keys_subset: "set (map fst (map_erase k m)) \<subseteq> set (map fst m)"
  unfolding map_erase_keys set_filter by blast

lemma set_map_erase: "set (map_erase k m) = {kv \<in> set m. fst kv \<noteq> k}"
  by (simp add: map_erase_def)

lemma Rearm_frame:
  assumes "Rearm ok now q = (r, q')"
  shows "tq_timers q' = tq_timers q \<and> tq_by_identifier q' = tq_by_identifier q
    \<and> tq_next_identifier q' = tq_next_identifier q"
  using assms by (auto simp: Rearm_def split: if_splits)

lemma timers_wf_cong:
  "tq_timers q' = tq_timers q \<Longrightarrow> tq_by_identifier q' = tq_by_identifier q
   \<Longrightarrow> tq_next_identifier q' = tq_next_identifier q \<Longrightarrow> timers_wf q' = timers_wf q"
  by (simp add: timers_wf_def)

lemma wf_index: "timers_wf q \<Longrightarrow> (tq_by_identifier q i = Some k) = (k \<in> set (timer_keys q) \<and> snd k = i)"
  by (simp only: timers_wf_def)

lemma wf_bounds:
  "timers_wf q \<Longrightarrow> k \<in> set (timer_keys q) \<Longrightarrow> snd k \<noteq> 0 \<and> (tq_next_identifier q = 0 \<or> snd k < tq_next_identifier q)"
  unfolding timers_wf_def by blast

lemma timers_wfI:
  assumes "sorted_wrt (<) (timer_keys q)"
    and "\<And>i k. (tq_by_identifier q i = Some k) = (k \<in> set (timer_keys q) \<and> snd k = i)"
    and "\<And>k. k \<in> set (timer_keys q) \<Longrightarrow> snd k \<noteq> 0 \<and> (tq_next_identifier q = 0 \<or> snd k < tq_next_identifier q)"
  shows "timers_wf q"
  using assms by (simp only: timers_wf_def) simp

lemma timers_wf_new: "timers_wf TimerQueue_new"
  by (simp add: timers_wf_def TimerQueue_new_def)

lemma word_next_above: "n \<noteq> 0 \<Longrightarrow> i < n \<Longrightarrow> n + 1 = 0 \<or> i < n + (1 :: u64)"
  by (metis add.commute less_Suc_eq unatSuc word_less_nat_alt)

lemma word_next_self: "n + 1 = 0 \<or> n < n + (1 :: u64)"
  by (metis add.commute lessI unatSuc word_less_nat_alt)

lemma next_not_pending: "timers_wf q \<Longrightarrow> tq_next_identifier q \<noteq> 0 \<Longrightarrow> tq_by_identifier q (tq_next_identifier q) = None"
  unfolding timers_wf_def by (metis not_None_eq order_less_irrefl)

lemma ScheduleAt_Inr:
  assumes "ScheduleAt ok now deadline cb q = (Inr i, q')"
  obtains action where "cb = Some action" "i = tq_next_identifier q" "i \<noteq> 0" "ok"
    "tq_timers q' = map_emplace (deadline, i) action (tq_timers q)"
    "tq_by_identifier q' = (tq_by_identifier q)(i \<mapsto> (deadline, i))" "tq_next_identifier q' = i + 1"
    "tq_timer q' = (case tq_timers q' of [] \<Rightarrow> None | ((d, _), _) # _ \<Rightarrow> Some (now, ToTimespec (d - now)))"
  using assms
  by (cases cb) (auto simp: ScheduleAt_def Rearm_def Let_def split: if_splits)

lemma ScheduleAt_cases:
  assumes "ScheduleAt ok now deadline cb q = (r, q')"
  obtains "q' = q" "isl r" | action where "cb = Some action" "tq_next_identifier q \<noteq> 0"
    "tq_timers q' = map_emplace (deadline, tq_next_identifier q) action (tq_timers q)"
    "tq_by_identifier q' = (tq_by_identifier q)(tq_next_identifier q \<mapsto> (deadline, tq_next_identifier q))"
    "tq_next_identifier q' = tq_next_identifier q + 1"
  using assms by (cases cb) (auto simp: ScheduleAt_def Rearm_def Let_def split: if_splits)

lemma ScheduleAt_wf:
  assumes wf: "timers_wf q" and s: "ScheduleAt ok now deadline cb q = (r, q')"
  shows "timers_wf q'"
proof -
  show ?thesis using s
  proof (cases rule: ScheduleAt_cases)
    case 1
    with wf show ?thesis by simp
  next
    case (2 action)
    let ?i = "tq_next_identifier q"
    have keys: "set (timer_keys q') = insert (deadline, ?i) (set (timer_keys q))"
      using 2(3) set_map_emplace [of "(deadline, ?i)" action "tq_timers q"] by simp
    have fresh: "snd k \<noteq> ?i" if "k \<in> set (timer_keys q)" for k
      using wf_bounds [OF wf that] 2(2) by auto
    show ?thesis
    proof (rule timers_wfI)
      show "sorted_wrt (<) (timer_keys q')" using wf 2(3) sorted_map_emplace by (auto simp: timers_wf_def)
      show "(tq_by_identifier q' i = Some k) = (k \<in> set (timer_keys q') \<and> snd k = i)" for i k
        using fresh [of k] wf_index [OF wf, of i k] unfolding keys 2(4) by (cases "i = ?i") auto
      show "snd k \<noteq> 0 \<and> (tq_next_identifier q' = 0 \<or> snd k < tq_next_identifier q')"
        if "k \<in> set (timer_keys q')" for k
        using that wf_bounds [OF wf, of k] 2(2) word_next_above [OF 2(2), of "snd k"] word_next_self [of ?i]
        unfolding keys 2(5) by auto
    qed
  qed
qed

lemma erase_wf:
  assumes wf: "timers_wf q" and k: "k \<in> set (timer_keys q)"
    and q': "timer_keys q' = filter (\<lambda>k'. k' \<noteq> k) (timer_keys q)"
      "tq_by_identifier q' = (tq_by_identifier q)(snd k := None)" "tq_next_identifier q' = tq_next_identifier q"
  shows "timers_wf q'"
proof (rule timers_wfI)
  have uniq: "k' = k" if "k' \<in> set (timer_keys q)" "snd k' = snd k" for k'
    using wf_index [OF wf, of "snd k" k'] wf_index [OF wf, of "snd k" k] that k by simp
  have keys: "set (timer_keys q') = set (timer_keys q) - {k}" unfolding q'(1) set_filter by blast
  show "sorted_wrt (<) (timer_keys q')"
    unfolding q'(1) by (rule sorted_wrt_filter) (use wf in \<open>simp only: timers_wf_def\<close>)
  show "(tq_by_identifier q' i = Some k') = (k' \<in> set (timer_keys q') \<and> snd k' = i)" for i k'
    using wf_index [OF wf, of i k'] uniq [of k'] unfolding keys q'(2) by (cases "i = snd k") auto
  show "snd k' \<noteq> 0 \<and> (tq_next_identifier q' = 0 \<or> snd k' < tq_next_identifier q')"
    if "k' \<in> set (timer_keys q')" for k'
    using wf_bounds [OF wf, of k'] that unfolding keys q'(3) by blast
qed

lemma Cancel_cases:
  assumes "Timer_Cancel ok now i q = (r, q')"
  obtains "tq_by_identifier q i = None" "q' = q" "r = Inr False"
  | k where "tq_by_identifier q i = Some k" "tq_timers q' = map_erase k (tq_timers q)"
    "tq_by_identifier q' = (tq_by_identifier q)(i := None)" "tq_next_identifier q' = tq_next_identifier q"
    "r = (if ok then Inr True else Inl SystemError)"
  using assms
  by (cases "tq_by_identifier q i") (auto simp: Timer_Cancel_def Rearm_def Let_def split: if_splits)

lemma Cancel_wf:
  assumes wf: "timers_wf q" and c: "Timer_Cancel ok now i q = (r, q')"
  shows "timers_wf q'"
  using c
proof (cases rule: Cancel_cases)
  case (2 k)
  have k: "k \<in> set (timer_keys q)" "snd k = i" using wf_index [OF wf, of i k] 2(1) by blast+
  show ?thesis by (rule erase_wf [OF wf k(1)]) (use 2 k in \<open>simp_all add: map_erase_keys\<close>)
qed (use wf in simp)

lemma pop_wf:
  assumes wf: "timers_wf q" and q: "tq_timers q = (k, a) # rest"
  shows "timers_wf (timer_pop q)" and "timer_keys (timer_pop q) = map fst rest"
proof -
  show keys: "timer_keys (timer_pop q) = map fst rest" by (simp add: timer_pop_def q)
  have "k \<notin> set (map fst rest)" using wf q by (auto simp: timers_wf_def)
  then have "filter (\<lambda>k'. k' \<noteq> k) (map fst rest) = map fst rest" by (intro filter_True) auto
  then have "map fst rest = filter (\<lambda>k'. k' \<noteq> k) (timer_keys q)" by (simp only: q list.map filter.simps fst_conv) simp
  then show "timers_wf (timer_pop q)"
    by (intro erase_wf [OF wf, of k]) (use keys in \<open>simp_all add: timer_pop_def q\<close>)
qed

section \<open>The kernel timer\<close>

text \<open>
  The kernel timer is disarmed exactly when no timer is pending, and otherwise expires at the
  first deadline, or one nanosecond after it was set when that deadline has passed.
\<close>

definition timer_armed :: "'a timer_queue \<Rightarrow> bool" where
  "timer_armed q = (case tq_timers q of
       [] \<Rightarrow> tq_timer q = None
     | ((deadline, _), _) # _ \<Rightarrow>
         (case tq_timer q of
            None \<Rightarrow> False
          | Some (t, seconds, nanoseconds) \<Rightarrow>
              0 \<le> nanoseconds \<and> nanoseconds < 1000000000
              \<and> t + seconds * 1000000000 + nanoseconds = max deadline (t + 1)))"

lemma ToTimespec_value:
  assumes "ToTimespec d = (s, n)"
  shows "0 \<le> n \<and> n < 1000000000 \<and> s * 1000000000 + n = max d 1"
proof -
  define e where "e = max d 1"
  have "0 < e" by (simp add: e_def)
  have "ToTimespec d = (e div 1000000000, e - e div 1000000000 * 1000000000)"
    using \<open>0 < e\<close> by (auto simp: ToTimespec_def e_def Let_def tdiv_nonneg)
  with assms have "s = e div 1000000000" "n = e mod 1000000000" by (auto simp: minus_div_mult_eq_mod)
  then show ?thesis by (simp add: e_def [symmetric])
qed

lemma timer_armed_written:
  assumes "tq_timer q = (case tq_timers q of [] \<Rightarrow> None | ((d, _), _) # _ \<Rightarrow> Some (now, ToTimespec (d - now)))"
  shows "timer_armed q"
proof (cases "tq_timers q")
  case Nil
  with assms show ?thesis by (simp add: timer_armed_def)
next
  case (Cons kv rest)
  obtain d i a where kv: "kv = ((d, i), a)" by (metis prod.exhaust)
  obtain s n where sn: "ToTimespec (d - now) = (s, n)" by (cases "ToTimespec (d - now)")
  from ToTimespec_value [OF sn] assms show ?thesis
    by (auto simp: timer_armed_def Cons kv sn max_def)
qed

lemma Rearm_armed: "Rearm True now q = (r, q') \<Longrightarrow> timer_armed q'"
  by (rule timer_armed_written [of _ now]) (auto simp: Rearm_def)

section \<open>Retired identifiers\<close>

text \<open>
  The operations of the queue, and the detaching of the first timer by the dispatch loop.
\<close>

datatype 'a timer_op =
    OpScheduleAt time_point time_point "'a option"
  | OpScheduleAfter time_point time_point int "'a option"
  | OpCancel time_point u64
  | OpDetach

fun timer_step :: "'a timer_op \<Rightarrow> 'a timer_queue \<Rightarrow> 'a timer_queue" where
  "timer_step (OpScheduleAt now deadline callback) q = snd (ScheduleAt True now deadline callback q)"
| "timer_step (OpScheduleAfter now rearm_now delay callback) q =
     snd (ScheduleAfter True now rearm_now delay callback q)"
| "timer_step (OpCancel now identifier) q = snd (Timer_Cancel True now identifier q)"
| "timer_step OpDetach q = timer_pop q"

definition timer_run :: "'a timer_op list \<Rightarrow> 'a timer_queue \<Rightarrow> 'a timer_queue" where
  "timer_run ops q = fold timer_step ops q"

definition retired :: "u64 \<Rightarrow> 'a timer_queue \<Rightarrow> bool" where
  "retired i q \<longleftrightarrow> i \<noteq> 0 \<and> (tq_next_identifier q = 0 \<or> i < tq_next_identifier q) \<and> i \<notin> snd ` set (timer_keys q)"

lemma timer_step_wf: "timers_wf q \<Longrightarrow> timers_wf (timer_step op q)"
proof (cases op)
  case OpDetach
  assume "timers_wf q"
  then show ?thesis
  proof (cases "tq_timers q")
    case (Cons kv rest)
    then show ?thesis using pop_wf(1) [OF \<open>timers_wf q\<close>, of "fst kv" "snd kv" rest] OpDetach by simp
  qed (simp add: OpDetach timer_pop_def)
qed (auto intro: ScheduleAt_wf [OF _ surjective_pairing] Cancel_wf [OF _ surjective_pairing] simp: ScheduleAfter_def)

lemma ScheduleAt_retired:
  assumes "retired i q" and "ScheduleAt ok now deadline cb q = (r, q')"
  shows "retired i q'"
proof -
  show ?thesis using assms(2)
  proof (cases rule: ScheduleAt_cases)
    case (2 action)
    let ?n = "tq_next_identifier q"
    have keys: "set (timer_keys q') = insert (deadline, ?n) (set (timer_keys q))"
      using 2(3) set_map_emplace [of "(deadline, ?n)" action "tq_timers q"] by simp
    have i: "i \<noteq> 0" "i < ?n" "i \<notin> snd ` set (timer_keys q)" using assms(1) 2(2) unfolding retired_def by blast+
    from i(2) have "i \<noteq> ?n" by simp
    with i(3) have "i \<notin> snd ` set (timer_keys q')" unfolding keys image_insert snd_conv by blast
    with i(1) word_next_above [OF 2(2) i(2)] show ?thesis unfolding retired_def 2(5) by blast
  qed (use assms(1) in simp)
qed

lemma retired_mono:
  assumes "retired i q" "set (timer_keys q') \<subseteq> set (timer_keys q)" "tq_next_identifier q' = tq_next_identifier q"
  shows "retired i q'"
  using assms(1) image_mono [OF assms(2), of snd] unfolding retired_def assms(3) by blast

lemma timer_step_retired: "retired i q \<Longrightarrow> retired i (timer_step op q)"
proof (cases op)
  case (OpCancel now j)
  assume r: "retired i q"
  obtain b q' where c: "Timer_Cancel True now j q = (b, q')" by (cases "Timer_Cancel True now j q")
  from c have keys: "set (timer_keys q') \<subseteq> set (timer_keys q)"
    by (cases rule: Cancel_cases) (simp_all only: erase_keys_subset order_refl)
  from c have "tq_next_identifier q' = tq_next_identifier q" by (cases rule: Cancel_cases) simp_all
  from retired_mono [OF r keys this] show ?thesis unfolding OpCancel timer_step.simps c snd_conv .
next
  case OpDetach
  assume "retired i q"
  moreover have "set (timer_keys (timer_pop q)) \<subseteq> set (timer_keys q)" "tq_next_identifier (timer_pop q) = tq_next_identifier q"
    by (auto simp: timer_pop_def split: list.splits)
  ultimately show ?thesis unfolding OpDetach timer_step.simps by (rule retired_mono)
qed (simp_all add: ScheduleAfter_def ScheduleAt_retired [OF _ surjective_pairing])

lemma timer_run_wf: "timers_wf q \<Longrightarrow> timers_wf (timer_run ops q)"
  unfolding timer_run_def by (induction ops arbitrary: q) (simp_all add: timer_step_wf)

lemma timer_run_retired: "retired i q \<Longrightarrow> retired i (timer_run ops q)"
  unfolding timer_run_def by (induction ops arbitrary: q) (simp_all add: timer_step_retired)

lemma only_key: "timers_wf q \<Longrightarrow> k \<in> set (timer_keys q) \<Longrightarrow> snd k \<notin> snd ` (set (timer_keys q) - {k})"
proof
  assume wf: "timers_wf q" and k: "k \<in> set (timer_keys q)" and "snd k \<in> snd ` (set (timer_keys q) - {k})"
  then obtain k' where k': "k' \<in> set (timer_keys q)" "k' \<noteq> k" "snd k' = snd k" by fastforce
  have "tq_by_identifier q (snd k) = Some k" "tq_by_identifier q (snd k) = Some k'"
    using wf_index [OF wf] k k'(1,3) by blast+
  with k'(2) show False by simp
qed

lemma Cancel_retires:
  assumes wf: "timers_wf q" and c: "Timer_Cancel ok now i q = (Inr True, q')"
  shows "retired i q'"
  using c
proof (cases rule: Cancel_cases)
  case (2 k)
  have k: "k \<in> set (timer_keys q)" "snd k = i" using wf_index [OF wf, of i k] 2(1) by blast+
  have "set (timer_keys q') \<subseteq> set (timer_keys q) - {k}" unfolding 2(2) map_erase_keys set_filter by blast
  with only_key [OF wf k(1)] have "i \<notin> snd ` set (timer_keys q')" unfolding k(2) by blast
  with wf_bounds [OF wf k(1)] show ?thesis unfolding retired_def 2(4) k(2) by blast
qed simp

text \<open>
   C25. A cancelled timer never runs after its cancellation returns, and a timer runs at most
  once: when a cancellation reports success, or the dispatch loop has detached a timer, that
  identifier is not pending in any later state of the queue, whatever is scheduled or
  cancelled afterwards.
\<close>

theorem TimerQueue_cancel_final:
  assumes "q = timer_run ops TimerQueue_new"
    and "Timer_Cancel ok now i q = (Inr True, q') \<or> tq_timers q = ((d, i), a) # rest \<and> q' = timer_pop q"
  shows "i \<notin> snd ` set (timer_keys (timer_run later q'))"
proof -
  have wf: "timers_wf q" unfolding assms(1) by (rule timer_run_wf [OF timers_wf_new])
  have "retired i q'"
    using assms(2)
  proof
    assume "tq_timers q = ((d, i), a) # rest \<and> q' = timer_pop q"
    then have q: "tq_timers q = ((d, i), a) # rest" and q': "q' = timer_pop q" by simp_all
    have k: "(d, i) \<in> set (timer_keys q)" unfolding q by simp
    have "(d, i) \<notin> set (map fst rest)" using wf q by (auto simp: timers_wf_def)
    then have "set (map fst rest) \<subseteq> set (timer_keys q) - {(d, i)}" unfolding q by auto
    with only_key [OF wf k] have "i \<notin> snd ` set (timer_keys q')"
      unfolding q' pop_wf(2) [OF wf q] snd_conv by blast
    moreover have "tq_next_identifier q' = tq_next_identifier q" unfolding q' by (simp add: timer_pop_def q)
    ultimately show ?thesis using wf_bounds [OF wf k] unfolding retired_def snd_conv by metis
  qed (rule Cancel_retires [OF wf])
  from timer_run_retired [OF this] show ?thesis unfolding retired_def by blast
qed

definition sample_timers :: "nat timer_queue" where
  "sample_timers = timer_run [OpScheduleAt 0 50 (Some 7), OpScheduleAfter 0 0 20 (Some 8)] TimerQueue_new"

theorem TimerQueue_cancel_final_witness:
  "timer_keys sample_timers = [(20, 2), (50, 1)]
   \<and> 1 \<notin> snd ` set (timer_keys (timer_run [OpScheduleAt 0 60 (Some 9), OpDetach] (snd (Timer_Cancel True 1 1 sample_timers))))"
proof
  show "timer_keys sample_timers = [(20, 2), (50, 1)]"
    by (simp add: sample_timers_def timer_run_def TimerQueue_new_def ScheduleAt_def ScheduleAfter_def Rearm_def Let_def)
  have "Timer_Cancel True 1 1 sample_timers = (Inr True, snd (Timer_Cancel True 1 1 sample_timers))"
    by (simp add: sample_timers_def timer_run_def TimerQueue_new_def ScheduleAt_def ScheduleAfter_def Rearm_def
        Timer_Cancel_def Let_def)
  then show "1 \<notin> snd ` set (timer_keys (timer_run [OpScheduleAt 0 60 (Some 9), OpDetach] (snd (Timer_Cancel True 1 1 sample_timers))))"
    using TimerQueue_cancel_final [OF sample_timers_def, of True 1 1] by blast
qed

section \<open>The dispatch loop\<close>

definition due :: "time_point \<Rightarrow> 'a timer_queue \<Rightarrow> timer_key list" where
  "due now q = filter (\<lambda>k. fst k \<le> now) (timer_keys q)"

lemma sorted_subset_subseq:
  fixes xs ys :: "'k::linorder list"
  assumes "sorted_wrt (<) xs" "sorted_wrt (<) ys" "set xs \<subseteq> set ys"
  shows "subseq xs ys"
proof -
  have "sorted_wrt (<) (filter (\<lambda>y. y \<in> set xs) ys)" using assms(2) by (rule sorted_wrt_filter)
  moreover have "set (filter (\<lambda>y. y \<in> set xs) ys) = set xs" using assms(3) by auto
  ultimately have "filter (\<lambda>y. y \<in> set xs) ys = xs" using assms(1) by (metis strict_sorted_equal)
  then show ?thesis by (metis subseq_filter_left)
qed

lemma due_sorted: "timers_wf q \<Longrightarrow> sorted_wrt (<) (due now q)"
  unfolding due_def by (rule sorted_wrt_filter) (simp add: timers_wf_def)

lemma due_Cons:
  assumes wf: "timers_wf q" and q: "tq_timers q = (k, a) # rest" and k: "fst k \<le> now"
  shows "due now q = k # due now (timer_pop q)"
  unfolding due_def pop_wf(2) [OF wf q] using k by (simp add: q)

lemma due_Nil:
  assumes wf: "timers_wf q" and q: "tq_timers q = (k, a) # rest" and k: "\<not> fst k \<le> now"
  shows "due now q = []"
proof -
  have "now < fst k'" if "k' \<in> set (timer_keys q)" for k'
  proof -
    have "k \<le> k'" using wf q that by (auto simp: timers_wf_def)
    then have "fst k \<le> fst k'" by (auto simp: less_eq_prod_def)
    with k show ?thesis by simp
  qed
  then show ?thesis unfolding due_def filter_empty_conv by (meson linorder_not_le)
qed

text \<open>
  Callbacks that keep the queue well-formed and schedule only timers later than the time of the
  dispatch; \<open>inv\<close> is what they rely on of their own state and of the queue.
\<close>

locale timer_callbacks =
  fixes run :: "'a \<Rightarrow> 's \<times> 'a timer_queue \<Rightarrow> ('s \<times> 'a timer_queue) effect"
    and now :: time_point
    and inv :: "'s \<times> 'a timer_queue \<Rightarrow> bool"
  assumes inv_wf: "inv sq \<Longrightarrow> timers_wf (snd sq)"
    and run_inv: "inv (s, q) \<Longrightarrow> tq_timers q = (k, a) # rest \<Longrightarrow> fst k \<le> now \<Longrightarrow>
      inv (snd (run a (s, timer_pop q)))"
    and run_later: "inv (s, q) \<Longrightarrow> tq_timers q = (k, a) # rest \<Longrightarrow> fst k \<le> now \<Longrightarrow>
      k' \<in> set (timer_keys (snd (snd (run a (s, timer_pop q))))) \<Longrightarrow>
      k' \<in> set (timer_keys (timer_pop q)) \<or> now < fst k'"
begin

lemma run_due:
  assumes "inv (s, q)" "tq_timers q = (k, a) # rest" "fst k \<le> now"
  shows "subseq (due now (snd (snd (run a (s, timer_pop q))))) (due now (timer_pop q))"
proof (rule sorted_subset_subseq)
  show "sorted_wrt (<) (due now (snd (snd (run a (s, timer_pop q)))))"
    by (rule due_sorted [OF inv_wf [OF run_inv [OF assms]]])
  show "sorted_wrt (<) (due now (timer_pop q))"
    using pop_wf(1) assms(2) inv_wf [OF assms(1)] by (metis due_sorted snd_conv)
  show "set (due now (snd (snd (run a (s, timer_pop q))))) \<subseteq> set (due now (timer_pop q))"
    using run_later [OF assms] unfolding due_def set_filter by force
qed

text \<open>
  The loop ends, having run due timers only, in the order of their keys, and unless a callback
  threw none is left due.
\<close>

lemma fire_due_returns:
  "inv sq \<Longrightarrow> \<exists>fired e sq'. fire_due run now sq = Some (fired, e, sq') \<and> inv sq'
     \<and> (e = None \<longrightarrow> due now (snd sq') = []) \<and> subseq fired (due now (snd sq))"
proof (induction "length (due now (snd sq))" arbitrary: sq rule: less_induct)
  case less
  obtain s q where sq: "sq = (s, q)" by (cases sq)
  note wf = inv_wf [OF less.prems, unfolded sq snd_conv]
  show ?case
  proof (cases "tq_timers q")
    case Nil
    then show ?thesis using less.prems by (subst fire_due.simps) (simp add: sq due_def)
  next
    case (Cons kv rest)
    obtain k a where q: "tq_timers q = (k, a) # rest" using Cons by (cases kv) simp
    show ?thesis
    proof (cases "fst k \<le> now")
      case False
      then show ?thesis using less.prems due_Nil [OF wf q False]
        by (subst fire_due.simps) (simp add: sq q)
    next
      case True
      obtain e sq1 where run: "run a (s, timer_pop q) = (e, sq1)" by (cases "run a (s, timer_pop q)")
      note step = run_inv [OF less.prems [unfolded sq] q True, unfolded run snd_conv]
        and sub = run_due [OF less.prems [unfolded sq] q True, unfolded run snd_conv]
      have eq: "due now q = k # due now (timer_pop q)" by (rule due_Cons [OF wf q True])
      show ?thesis
      proof (cases e)
        case (Some x)
        have "fire_due run now sq = Some ([k], Some x, sq1)"
          using True run Some by (subst fire_due.simps) (simp add: sq q)
        then show ?thesis using step by (simp add: sq eq)
      next
        case None
        have "length (due now (snd sq1)) < length (due now (snd sq))"
          using list_emb_length [OF sub] by (simp add: sq eq)
        from less.hyps [OF this step] obtain fired e' sq'
          where r: "fire_due run now sq1 = Some (fired, e', sq')" "inv sq'" "e' = None \<longrightarrow> due now (snd sq') = []"
            "subseq fired (due now (snd sq1))" by blast
        have "fire_due run now sq = Some (k # fired, e', sq')"
          using True r(1) run None by (subst fire_due.simps) (simp add: sq q)
        moreover have "subseq (k # fired) (due now (snd sq))"
          using subseq_order.trans [OF r(4) sub] by (simp add: sq eq)
        ultimately show ?thesis using r(2,3) by blast
      qed
    qed
  qed
qed

end

end
