(* ===== verification/WorkerRuntime.thy ===== *)
theory WorkerRuntime
  imports Prelude
begin

text \<open>
  The thread that drives one event loop (\<open>runtime/WorkerRuntime\<close>): a bounded task queue behind
  a mutex, a reserved slot for a shutdown task, and an eventfd that wakes the loop.

  The worker thread is a program counter that moves from one critical section to the next, so
  the steps of the worker interleave with the calls of other threads at the granularity of the
  mutex.  The eventfd is whether its counter is non-zero.  \<open>wr_accepted\<close>, \<open>wr_executed\<close> and
  \<open>wr_shutdown_runs\<close> record the history.
\<close>

section \<open>Model\<close>

datatype 't worker_pc =
    NotStarted | Starting | Parked | Draining | Running 't | TakingShutdown | RunningShutdown 't
  | Deciding | Leaving | Exited | Failed

text \<open>What a write to the eventfd answers.  It would block only when the counter is at its maximum.\<close>

datatype write_answer = Wrote | WriteInterrupted | WriteWouldBlock | WriteFailed

record 't worker_runtime =
  wr_task_capacity :: nat
  wr_wake_fd :: bool
  wr_wake_pending :: bool
  wr_tasks :: "'t list"
  wr_shutdown_task :: "'t option"
  wr_running :: bool
  wr_loop_ready :: bool
  wr_started :: bool
  wr_stopping :: bool
  wr_pc :: "'t worker_pc"
  wr_accepted :: "'t list"
  wr_executed :: "'t list"
  wr_shutdown_runs :: "'t list"

definition WorkerRuntime_new :: "nat \<Rightarrow> bool \<Rightarrow> cpp_error + 't worker_runtime" where
  "WorkerRuntime_new task_capacity eventfd_ok =
     (if task_capacity = 0 then Inl InvalidArgument
      else if \<not> eventfd_ok then Inl SystemError
      else Inr \<lparr>wr_task_capacity = task_capacity, wr_wake_fd = True, wr_wake_pending = False, wr_tasks = [],
                wr_shutdown_task = None, wr_running = False, wr_loop_ready = False, wr_started = False,
                wr_stopping = False, wr_pc = NotStarted, wr_accepted = [], wr_executed = [], wr_shutdown_runs = []\<rparr>)"

subsection \<open>Calls of other threads\<close>

text \<open>An exhausted list of answers is a successful write.\<close>

fun write_succeeds :: "write_answer list \<Rightarrow> bool" where
  "write_succeeds [] = True"
| "write_succeeds (Wrote # _) = True"
| "write_succeeds (WriteInterrupted # rest) = write_succeeds rest"
| "write_succeeds (WriteWouldBlock # _) = True"
| "write_succeeds (WriteFailed # _) = False"

definition WakeLocked :: "write_answer list \<Rightarrow> 't worker_runtime \<Rightarrow> bool \<times> 't worker_runtime" where
  "WakeLocked answers w =
     (if \<not> wr_wake_fd w then (False, w)
      else if write_succeeds answers then (True, w\<lparr>wr_wake_pending := True\<rparr>)
      else (False, w))"

definition PostTask :: "write_answer list \<Rightarrow> 't \<Rightarrow> 't worker_runtime \<Rightarrow> bool \<times> 't worker_runtime" where
  "PostTask answers task w =
     (if \<not> wr_started w then (False, w)
      else if wr_stopping w \<or> \<not> wr_running w then (False, w)
      else if length (wr_tasks w) \<ge> wr_task_capacity w then (False, w)
      else
        let w = w\<lparr>wr_tasks := wr_tasks w @ [task]\<rparr>;
            (woken, w) = WakeLocked answers w
        in if \<not> woken then (False, w\<lparr>wr_tasks := butlast (wr_tasks w)\<rparr>)
           else (True, w\<lparr>wr_accepted := wr_accepted w @ [task]\<rparr>))"

definition Post :: "write_answer list \<Rightarrow> 't option \<Rightarrow> 't worker_runtime \<Rightarrow> bool \<times> 't worker_runtime" where
  "Post answers task w = (case task of None \<Rightarrow> (False, w) | Some t \<Rightarrow> PostTask answers t w)"

definition PostShutdown :: "write_answer list \<Rightarrow> 't option \<Rightarrow> 't worker_runtime \<Rightarrow> bool \<times> 't worker_runtime" where
  "PostShutdown answers task w =
     (case task of
        None \<Rightarrow> (False, w)
      | Some t \<Rightarrow>
          if \<not> wr_started w \<or> \<not> wr_running w \<or> wr_stopping w \<or> wr_shutdown_task w \<noteq> None then (False, w)
          else
            let (woken, w) = WakeLocked answers (w\<lparr>wr_shutdown_task := Some t\<rparr>)
            in if \<not> woken then (False, w\<lparr>wr_shutdown_task := None\<rparr>) else (True, w))"

text \<open>
  Handing over a descriptor: the result says whether the task was accepted and whether the call
  closed the descriptor itself.
\<close>

definition PostFd ::
    "write_answer list \<Rightarrow> int \<Rightarrow> 't option \<Rightarrow> 't worker_runtime \<Rightarrow> (bool \<times> bool) \<times> 't worker_runtime" where
  "PostFd answers fd handler w =
     (case handler of
        None \<Rightarrow> ((False, fd \<ge> 0), w)
      | Some t \<Rightarrow>
          if fd < 0 then ((False, False), w)
          else let (accepted, w) = PostTask answers t w in ((accepted, \<not> accepted), w))"

definition WorkerRuntime_Start :: "'t worker_runtime \<Rightarrow> 't worker_runtime effect" where
  "WorkerRuntime_Start w =
     (if wr_started w then (Some LogicError, w)
      else if wr_stopping w then (Some LogicError, w)
      else (None, w\<lparr>wr_started := True, wr_pc := Starting\<rparr>))"

text \<open>The end of \<open>Start\<close>, once the worker has reported that its loop is ready.\<close>

definition Start_returns :: "'t worker_runtime \<Rightarrow> cpp_error option" where
  "Start_returns w = (if wr_stopping w then Some LogicError else None)"

definition RequestStop :: "'t worker_runtime \<Rightarrow> 't worker_runtime" where
  "RequestStop w =
     (let w = w\<lparr>wr_stopping := True\<rparr>
      in if wr_wake_fd w then w\<lparr>wr_wake_pending := True\<rparr> else w)"

text \<open>The end of \<open>Stop\<close> on another thread, once the worker thread has been joined.\<close>

definition FinishStop :: "'t worker_runtime \<Rightarrow> 't worker_runtime" where
  "FinishStop w = w\<lparr>wr_wake_fd := False\<rparr>"

subsection \<open>The worker thread\<close>

definition Run_begin :: "bool \<Rightarrow> 't worker_runtime \<Rightarrow> 't worker_runtime" where
  "Run_begin setup_ok w =
     (if \<not> wr_wake_fd w then w\<lparr>wr_pc := Exited\<rparr>
      else if setup_ok then w\<lparr>wr_running := True, wr_loop_ready := True, wr_pc := Parked\<rparr>
      else w\<lparr>wr_stopping := True, wr_running := False, wr_loop_ready := True, wr_pc := Failed\<rparr>)"

text \<open>An exception that leaves the loop, for instance from the callback of another channel.\<close>

definition Run_failed :: "'t worker_runtime \<Rightarrow> 't worker_runtime" where
  "Run_failed w = w\<lparr>wr_stopping := True, wr_running := False, wr_loop_ready := True, wr_pc := Failed\<rparr>"

definition Run_end :: "'t worker_runtime \<Rightarrow> 't worker_runtime" where
  "Run_end w = w\<lparr>wr_running := False, wr_wake_fd := False, wr_pc := Exited\<rparr>"

definition HandleWake_read :: "'t worker_runtime \<Rightarrow> 't worker_runtime" where
  "HandleWake_read w = w\<lparr>wr_wake_pending := False, wr_pc := Draining\<rparr>"

definition DrainQueue_pop :: "'t worker_runtime \<Rightarrow> 't worker_runtime" where
  "DrainQueue_pop w =
     (case wr_tasks w of
        [] \<Rightarrow> w\<lparr>wr_pc := TakingShutdown\<rparr>
      | task # rest \<Rightarrow> w\<lparr>wr_tasks := rest, wr_pc := Running task\<rparr>)"

text \<open>Running a task, whether it returns or throws, and going on with the queue.\<close>

definition DrainQueue_run :: "'t \<Rightarrow> 't worker_runtime \<Rightarrow> 't worker_runtime" where
  "DrainQueue_run task w = w\<lparr>wr_executed := wr_executed w @ [task], wr_pc := Draining\<rparr>"

definition DrainShutdownTask_take :: "'t worker_runtime \<Rightarrow> 't worker_runtime" where
  "DrainShutdownTask_take w =
     (case wr_shutdown_task w of
        None \<Rightarrow> w\<lparr>wr_pc := Deciding\<rparr>
      | Some task \<Rightarrow> w\<lparr>wr_shutdown_task := None, wr_pc := RunningShutdown task\<rparr>)"

definition DrainShutdownTask_run :: "'t \<Rightarrow> 't worker_runtime \<Rightarrow> 't worker_runtime" where
  "DrainShutdownTask_run task w = w\<lparr>wr_shutdown_runs := wr_shutdown_runs w @ [task], wr_pc := Deciding\<rparr>"

definition HandleWake_decide :: "'t worker_runtime \<Rightarrow> 't worker_runtime" where
  "HandleWake_decide w =
     (if wr_stopping w \<and> wr_tasks w = [] \<and> wr_shutdown_task w = None then w\<lparr>wr_pc := Leaving\<rparr>
      else w\<lparr>wr_pc := Parked\<rparr>)"

text \<open>The next step of the worker, \<open>None\<close> while it sleeps or does not run.\<close>

definition worker_next :: "'t worker_runtime \<Rightarrow> 't worker_runtime option" where
  "worker_next w =
     (case wr_pc w of
        Parked \<Rightarrow> if wr_wake_pending w then Some (HandleWake_read w) else None
      | Draining \<Rightarrow> Some (DrainQueue_pop w)
      | Running task \<Rightarrow> Some (DrainQueue_run task w)
      | TakingShutdown \<Rightarrow> Some (DrainShutdownTask_take w)
      | RunningShutdown task \<Rightarrow> Some (DrainShutdownTask_run task w)
      | Deciding \<Rightarrow> Some (HandleWake_decide w)
      | Leaving \<Rightarrow> Some (Run_end w)
      | _ \<Rightarrow> None)"

inductive runtime_step :: "'t worker_runtime \<Rightarrow> 't worker_runtime \<Rightarrow> bool" where
  post: "runtime_step w (snd (Post answers task w))"
| post_shutdown: "runtime_step w (snd (PostShutdown answers task w))"
| post_fd: "runtime_step w (snd (PostFd answers fd handler w))"
| start: "runtime_step w (snd (WorkerRuntime_Start w))"
| begin_run: "wr_pc w = Starting \<Longrightarrow> runtime_step w (Run_begin setup_ok w)"
| worker: "worker_next w = Some w' \<Longrightarrow> runtime_step w w'"
| fail: "wr_pc w = Parked \<Longrightarrow> runtime_step w (Run_failed w)"
| stop: "runtime_step w (RequestStop w)"
| stopped: "wr_pc w \<in> {NotStarted, Exited, Failed} \<Longrightarrow> wr_stopping w \<Longrightarrow> runtime_step w (FinishStop w)"

section \<open>Invariant\<close>

fun in_flight :: "'t worker_pc \<Rightarrow> 't list" where
  "in_flight (Running task) = [task]"
| "in_flight _ = []"

text \<open>
  Every accepted task was executed, is being executed, or is queued, in the order of
  acceptance.  A parked worker that has something to do has a wake pending; a worker past its
  decision to quit has nothing left to do, and nothing new is accepted.
\<close>

definition accounted :: "'t worker_runtime \<Rightarrow> bool" where
  "accounted w \<longleftrightarrow> wr_accepted w = wr_executed w @ in_flight (wr_pc w) @ wr_tasks w
     \<and> length (wr_tasks w) \<le> wr_task_capacity w"

definition has_work :: "'t worker_runtime \<Rightarrow> bool" where
  "has_work w \<longleftrightarrow> wr_tasks w \<noteq> [] \<or> wr_shutdown_task w \<noteq> None"

definition phase_ok :: "'t worker_runtime \<Rightarrow> bool" where
  "phase_ok w = (case wr_pc w of
       NotStarted \<Rightarrow> \<not> has_work w \<and> \<not> wr_running w \<and> \<not> wr_started w \<and> (wr_stopping w \<or> wr_wake_fd w)
     | Starting \<Rightarrow> \<not> has_work w \<and> \<not> wr_running w \<and> wr_started w \<and> wr_wake_fd w
         \<and> (wr_stopping w \<longrightarrow> wr_wake_pending w)
     | Parked \<Rightarrow> wr_running w \<and> (has_work w \<or> wr_stopping w \<longrightarrow> wr_wake_pending w)
     | Deciding \<Rightarrow> wr_running w \<and> (has_work w \<longrightarrow> wr_wake_pending w)
     | TakingShutdown \<Rightarrow> wr_running w \<and> (wr_tasks w \<noteq> [] \<longrightarrow> wr_wake_pending w)
     | RunningShutdown _ \<Rightarrow> wr_running w \<and> (has_work w \<longrightarrow> wr_wake_pending w)
     | Leaving \<Rightarrow> wr_running w \<and> \<not> has_work w \<and> wr_stopping w
     | Exited \<Rightarrow> \<not> wr_running w \<and> \<not> has_work w \<and> wr_stopping w
     | Failed \<Rightarrow> \<not> wr_running w \<and> wr_stopping w
     | _ \<Rightarrow> wr_running w)"

definition runtime_inv :: "'t worker_runtime \<Rightarrow> bool" where
  "runtime_inv w \<longleftrightarrow> accounted w \<and> phase_ok w \<and> (wr_running w \<longrightarrow> wr_wake_fd w \<and> wr_started w)"

lemmas runtime_defs = runtime_inv_def accounted_def phase_ok_def has_work_def

lemma PostTask_eq:
  "PostTask answers task w =
     (if wr_started w \<and> \<not> wr_stopping w \<and> wr_running w \<and> length (wr_tasks w) < wr_task_capacity w
         \<and> wr_wake_fd w \<and> write_succeeds answers
      then (True, w\<lparr>wr_tasks := wr_tasks w @ [task], wr_wake_pending := True, wr_accepted := wr_accepted w @ [task]\<rparr>)
      else (False, w))"
  by (simp add: PostTask_def WakeLocked_def Let_def not_le)

lemma PostTask_inv: "runtime_inv w \<Longrightarrow> runtime_inv (snd (PostTask answers task w))"
  by (cases "wr_pc w") (simp_all add: PostTask_eq runtime_defs)

lemma PostShutdown_eq:
  "PostShutdown answers (Some t) w =
     (if wr_started w \<and> wr_running w \<and> \<not> wr_stopping w \<and> wr_shutdown_task w = None \<and> wr_wake_fd w \<and> write_succeeds answers
      then (True, w\<lparr>wr_shutdown_task := Some t, wr_wake_pending := True\<rparr>) else (False, w))"
  by (cases w) (simp add: PostShutdown_def WakeLocked_def Let_def)

lemma PostShutdown_inv: "runtime_inv w \<Longrightarrow> runtime_inv (snd (PostShutdown answers task w))"
proof (cases task)
  case (Some t)
  assume "runtime_inv w"
  then show ?thesis unfolding Some by (cases "wr_pc w") (simp_all add: PostShutdown_eq runtime_defs)
qed (simp add: PostShutdown_def)

lemma worker_next_inv: "runtime_inv w \<Longrightarrow> worker_next w = Some w' \<Longrightarrow> runtime_inv w'"
proof (cases "wr_pc w")
  case Draining
  assume "runtime_inv w" "worker_next w = Some w'"
  with Draining show ?thesis
    by (cases "wr_tasks w") (auto simp: worker_next_def DrainQueue_pop_def runtime_defs)
next
  case TakingShutdown
  assume "runtime_inv w" "worker_next w = Some w'"
  with TakingShutdown show ?thesis
    by (cases "wr_shutdown_task w") (auto simp: worker_next_def DrainShutdownTask_take_def runtime_defs)
qed (auto simp: worker_next_def HandleWake_read_def DrainQueue_run_def DrainShutdownTask_run_def
    HandleWake_decide_def Run_end_def runtime_defs split: if_splits)

lemma runtime_step_inv: "runtime_step w w' \<Longrightarrow> runtime_inv w \<Longrightarrow> runtime_inv w'"
proof (induction rule: runtime_step.induct)
  case (post w answers task)
  then show ?case using PostTask_inv by (cases task) (auto simp: Post_def)
next
  case (post_shutdown w answers task)
  then show ?case by (rule PostShutdown_inv)
next
  case (post_fd w answers fd handler)
  then show ?case by (cases handler) (simp_all add: PostFd_def Let_def split_beta PostTask_inv)
next
  case (start w)
  then show ?case by (cases "wr_pc w") (auto simp: WorkerRuntime_Start_def runtime_defs)
next
  case (begin_run w setup_ok)
  then show ?case by (auto simp: Run_begin_def runtime_defs)
next
  case (worker w w')
  then show ?case using worker_next_inv by blast
next
  case (fail w)
  then show ?case by (auto simp: Run_failed_def runtime_defs)
next
  case (stop w)
  then show ?case by (cases "wr_pc w") (auto simp: RequestStop_def Let_def runtime_defs)
next
  case (stopped w)
  then show ?case by (cases "wr_pc w") (auto simp: FinishStop_def runtime_defs)
qed

lemma runtime_new_inv: "WorkerRuntime_new capacity eventfd_ok = Inr w \<Longrightarrow> runtime_inv w"
  by (auto simp: WorkerRuntime_new_def runtime_defs split: if_splits)

lemma runtime_reachable_inv:
  assumes "WorkerRuntime_new capacity eventfd_ok = Inr w0" and "runtime_step\<^sup>*\<^sup>* w0 w"
  shows "runtime_inv w"
  using assms(2) runtime_new_inv [OF assms(1)] by (induction rule: rtranclp_induct) (auto intro: runtime_step_inv)

text \<open>
   C26. Tasks are neither lost, duplicated nor reordered: in every interleaving of posting
  threads, the stopping thread and the worker, the accepted tasks are the executed ones, the one
  being executed and the queued ones, in the order of acceptance.  A parked worker with
  something to do has its wake pending, and a worker that left its loop has executed everything
  that was accepted.
\<close>

theorem WorkerRuntime_no_task_lost:
  assumes "WorkerRuntime_new capacity eventfd_ok = Inr w0" and "runtime_step\<^sup>*\<^sup>* w0 w"
  shows "wr_accepted w = wr_executed w @ in_flight (wr_pc w) @ wr_tasks w
    \<and> (wr_pc w = Parked \<and> has_work w \<longrightarrow> wr_wake_pending w)
    \<and> (wr_pc w = Exited \<longrightarrow> wr_executed w = wr_accepted w \<and> wr_shutdown_task w = None)"
  using runtime_reachable_inv [OF assms] by (auto simp: runtime_defs)

section \<open>Progress of the worker\<close>

fun worker_run :: "nat \<Rightarrow> 't worker_runtime \<Rightarrow> 't worker_runtime" where
  "worker_run 0 w = w"
| "worker_run (Suc n) w = (case worker_next w of None \<Rightarrow> w | Some w' \<Rightarrow> worker_run n w')"

fun pc_rank :: "'t worker_pc \<Rightarrow> nat" where
  "pc_rank (Running _) = 6" | "pc_rank Draining = 5" | "pc_rank TakingShutdown = 4"
| "pc_rank (RunningShutdown _) = 3" | "pc_rank Deciding = 2" | "pc_rank Leaving = 1" | "pc_rank _ = 0"

definition worker_rank :: "'t worker_runtime \<Rightarrow> nat" where
  "worker_rank w = pc_rank (wr_pc w) + 2 * length (wr_tasks w) + (if wr_wake_pending w then 8 else 0)"

lemma worker_next_rank: "worker_next w = Some w' \<Longrightarrow> worker_rank w' < worker_rank w"
proof (cases "wr_pc w")
  case Draining
  assume "worker_next w = Some w'"
  with Draining show ?thesis by (cases "wr_tasks w") (auto simp: worker_next_def DrainQueue_pop_def worker_rank_def)
next
  case TakingShutdown
  assume "worker_next w = Some w'"
  with TakingShutdown show ?thesis
    by (cases "wr_shutdown_task w") (auto simp: worker_next_def DrainShutdownTask_take_def worker_rank_def)
qed (auto simp: worker_next_def HandleWake_read_def DrainQueue_run_def DrainShutdownTask_run_def
    HandleWake_decide_def Run_end_def worker_rank_def split: if_splits)

definition in_loop :: "'t worker_runtime \<Rightarrow> bool" where
  "in_loop w \<longleftrightarrow> wr_pc w \<notin> {NotStarted, Starting, Failed}"

lemma worker_next_frame:
  assumes "worker_next w = Some w'"
  shows "wr_accepted w' = wr_accepted w \<and> wr_stopping w' = wr_stopping w \<and> in_loop w'"
proof (cases "wr_pc w")
  case Draining
  with assms show ?thesis by (cases "wr_tasks w") (auto simp: worker_next_def DrainQueue_pop_def in_loop_def)
next
  case TakingShutdown
  with assms show ?thesis
    by (cases "wr_shutdown_task w") (auto simp: worker_next_def DrainShutdownTask_take_def in_loop_def)
qed (use assms in \<open>auto simp: worker_next_def HandleWake_read_def DrainQueue_run_def DrainShutdownTask_run_def
    HandleWake_decide_def Run_end_def in_loop_def split: if_splits\<close>)

lemma resting_worker_done:
  assumes "runtime_inv w" and "in_loop w" and "worker_next w = None"
  shows "wr_executed w = wr_accepted w \<and> wr_shutdown_task w = None \<and> (wr_stopping w \<longrightarrow> wr_pc w = Exited)"
  using assms by (cases "wr_pc w") (auto simp: worker_next_def in_loop_def runtime_defs split: if_splits)

lemma worker_finishes:
  "runtime_inv w \<Longrightarrow> in_loop w \<Longrightarrow> \<exists>n. wr_executed (worker_run n w) = wr_accepted w
     \<and> wr_shutdown_task (worker_run n w) = None \<and> (wr_stopping w \<longrightarrow> wr_pc (worker_run n w) = Exited)"
proof (induction "worker_rank w" arbitrary: w rule: less_induct)
  case less
  show ?case
  proof (cases "worker_next w")
    case None
    with resting_worker_done [OF less.prems None] show ?thesis by (intro exI [of _ 0]) simp
  next
    case (Some w')
    note f = worker_next_frame [OF Some]
    from less.hyps [OF worker_next_rank [OF Some] worker_next_inv [OF less.prems(1) Some]] f
    obtain n where n: "wr_executed (worker_run n w') = wr_accepted w'" "wr_shutdown_task (worker_run n w') = None"
      "wr_stopping w' \<longrightarrow> wr_pc (worker_run n w') = Exited" by blast
    show ?thesis using n f Some by (intro exI [of _ "Suc n"]) simp
  qed
qed

text \<open>
   C27. Every accepted task is executed: once the worker is in its loop, and as long as the loop
  does not fail, the worker's own steps lead in finite time to a state in which all tasks
  accepted so far, and the shutdown task, have run; if a stop was requested, the worker has left
  its loop.
\<close>

theorem WorkerRuntime_executes_all:
  assumes "WorkerRuntime_new capacity eventfd_ok = Inr w0" and "runtime_step\<^sup>*\<^sup>* w0 w" and "in_loop w"
  shows "\<exists>n. wr_executed (worker_run n w) = wr_accepted w \<and> wr_shutdown_task (worker_run n w) = None
    \<and> (wr_stopping w \<longrightarrow> wr_pc (worker_run n w) = Exited)"
  by (rule worker_finishes [OF runtime_reachable_inv [OF assms(1,2)] assms(3)])

section \<open>Samples\<close>

definition sample_worker :: "nat worker_runtime" where
  "sample_worker =
     RequestStop (snd (PostShutdown [] (Some 9) (snd (Post [WriteInterrupted] (Some 2) (snd (Post [] (Some 1)
       (Run_begin True (snd (WorkerRuntime_Start (projr (WorkerRuntime_new 4 True)))))))))))"

lemma sample_worker_reached: "runtime_step\<^sup>*\<^sup>* (projr (WorkerRuntime_new 4 True)) sample_worker"
proof -
  let ?w0 = "projr (WorkerRuntime_new 4 True) :: nat worker_runtime"
  let ?w1 = "snd (WorkerRuntime_Start ?w0)" let ?w2 = "Run_begin True ?w1"
  let ?w3 = "snd (Post [] (Some 1) ?w2)" let ?w4 = "snd (Post [WriteInterrupted] (Some 2) ?w3)"
  let ?w5 = "snd (PostShutdown [] (Some 9) ?w4)"
  have "wr_pc ?w1 = Starting" by (simp add: WorkerRuntime_new_def WorkerRuntime_Start_def)
  then have 2: "runtime_step ?w1 ?w2" by (rule runtime_step.begin_run)
  note s = converse_rtranclp_into_rtranclp [where r = runtime_step]
  have "runtime_step\<^sup>*\<^sup>* ?w2 (RequestStop ?w5)"
    by (rule s [OF runtime_step.post s [OF runtime_step.post s [OF runtime_step.post_shutdown
          r_into_rtranclp [where r = runtime_step, OF runtime_step.stop]]]])
  then show ?thesis unfolding sample_worker_def by (rule s [OF runtime_step.start s [OF 2]])
qed

lemma sample_worker_new: "WorkerRuntime_new 4 True = Inr (projr (WorkerRuntime_new 4 True) :: nat worker_runtime)"
  by (simp add: WorkerRuntime_new_def)

theorem WorkerRuntime_no_task_lost_witness: "wr_accepted sample_worker = [1, 2] \<and> wr_wake_pending sample_worker"
proof -
  have "wr_executed sample_worker = []" "wr_pc sample_worker = Parked" "wr_tasks sample_worker = [1, 2]"
    by (simp_all add: sample_worker_def WorkerRuntime_new_def WorkerRuntime_Start_def Run_begin_def Post_def PostTask_eq
        PostShutdown_eq RequestStop_def Let_def)
  then show ?thesis
    using WorkerRuntime_no_task_lost [OF sample_worker_new sample_worker_reached] by (simp add: has_work_def)
qed

theorem WorkerRuntime_executes_all_witness:
  "\<exists>n. wr_executed (worker_run n sample_worker) = [1, 2] \<and> wr_pc (worker_run n sample_worker) = Exited"
proof -
  have "wr_accepted sample_worker = [1, 2]" "wr_stopping sample_worker" "in_loop sample_worker"
    by (simp_all add: sample_worker_def WorkerRuntime_new_def WorkerRuntime_Start_def Run_begin_def Post_def PostTask_eq
        PostShutdown_eq RequestStop_def Let_def in_loop_def)
  with WorkerRuntime_executes_all [OF sample_worker_new sample_worker_reached] show ?thesis by auto
qed

end
