(* ===== verification/HealthChecker.thy ===== *)
theory HealthChecker
  imports TimerQueue UpstreamConnection Routing
begin

text \<open>
  The periodic probe of one endpoint (\<open>health/HealthChecker\<close>).  A check is one generation: it
  starts a deadline timer and an upstream exchange, ends with the result of the exchange or
  with the deadline, reports whether the endpoint is healthy, and arms the timer of the next
  check.

  The timers live in a queue shared with other owners, so the callbacks of the checker are
  embedded into the callbacks of that queue by a function \<open>wrap\<close>.  The argument \<open>t\<close> gives the
  successive readings of the clock, and \<open>outcome\<close> what starting the exchange does.
\<close>

section \<open>Model\<close>

record health_check_config =
  hcc_interval :: int
  hcc_timeout :: int

record health_checker =
  hk_config :: health_check_config
  hk_connection :: bool
  hk_timeout_timer :: u64
  hk_generation :: u64
  hk_running :: bool

text \<open>The callbacks the checker puts into the timer queue, with the generation they capture.\<close>

datatype check_timer = CheckTimeout u64 | CheckNext u64

text \<open>Starting the exchange returns, throws, or finishes the exchange before it returns.\<close>

datatype start_outcome = StartReturns | StartThrows | StartFinishes upstream_result http_response

text \<open>A checker with the timer queue it uses and the reports it has made, in order.\<close>

type_synonym 'a check_state = "health_checker \<times> 'a timer_queue \<times> bool list"

definition HasContentLength :: "http_response \<Rightarrow> bool" where
  "HasContentLength response \<longleftrightarrow> (\<exists>(name, v) \<in> set (rs_headers response). EqualsIgnoreCase name ''content-length'')"

definition HealthChecker_new :: "health_check_config \<Rightarrow> cpp_error + health_checker" where
  "HealthChecker_new config =
     (if hcc_interval config \<le> 0 \<or> hcc_timeout config \<le> 0 then Inl InvalidArgument
      else Inr \<lparr>hk_config = config, hk_connection = False, hk_timeout_timer = 0, hk_generation = 0, hk_running = False\<rparr>)"

definition ms_to_ns :: "int \<Rightarrow> int" where
  "ms_to_ns ms = ms * 1000000"

definition ScheduleNext ::
    "(check_timer \<Rightarrow> 'a) \<Rightarrow> (nat \<Rightarrow> time_point) \<Rightarrow> u64 \<Rightarrow> 'a check_state \<Rightarrow> 'a check_state effect" where
  "ScheduleNext wrap t generation = (\<lambda>(h, q, reports).
     if generation \<noteq> hk_generation h then (None, h, q, reports)
     else
       let h = h\<lparr>hk_generation := hk_generation h + 1\<rparr> in
       case ScheduleAfter True (t 0) (t 1) (ms_to_ns (hcc_interval (hk_config h)))
              (Some (wrap (CheckNext (hk_generation h)))) q of
         (Inl e, q) \<Rightarrow> (Some e, h, q, reports)
       | (Inr _, q) \<Rightarrow> (None, h, q, reports))"

definition FinishCheck ::
    "(check_timer \<Rightarrow> 'a) \<Rightarrow> (nat \<Rightarrow> time_point) \<Rightarrow> u64 \<Rightarrow> bool \<Rightarrow> 'a check_state \<Rightarrow> 'a check_state effect" where
  "FinishCheck wrap t generation healthy = (\<lambda>(h, q, reports).
     then_do (if hk_running h \<and> generation = hk_generation h then ScheduleNext wrap t generation (h, q, reports)
              else (None, h, q, reports))
       (\<lambda>(h, q, reports). (None, h, q, reports @ [healthy])))"

definition cancel_timeout ::
    "(nat \<Rightarrow> time_point) \<Rightarrow> 'a check_state \<Rightarrow> 'a check_state" where
  "cancel_timeout t = (\<lambda>(h, q, reports).
     (h\<lparr>hk_timeout_timer := 0\<rparr>,
      if hk_timeout_timer h \<noteq> 0 then snd (Timer_Cancel True (t 0) (hk_timeout_timer h) q) else q, reports))"

definition HealthChecker_Stop :: "(nat \<Rightarrow> time_point) \<Rightarrow> 'a check_state \<Rightarrow> 'a check_state" where
  "HealthChecker_Stop t = (\<lambda>(h, q, reports).
     (case cancel_timeout t (h\<lparr>hk_running := False, hk_generation := hk_generation h + 1\<rparr>, q, reports) of
        (h, q, reports) \<Rightarrow> (h\<lparr>hk_connection := False\<rparr>, q, reports)))"

definition is_2xx :: "int \<Rightarrow> bool" where
  "is_2xx status \<longleftrightarrow> status \<ge> 200 \<and> status \<le> 299"

definition HandleResult ::
    "(check_timer \<Rightarrow> 'a) \<Rightarrow> (nat \<Rightarrow> time_point) \<Rightarrow> u64 \<Rightarrow> upstream_result \<Rightarrow> http_response
     \<Rightarrow> 'a check_state \<Rightarrow> 'a check_state effect" where
  "HandleResult wrap t generation result response = (\<lambda>(h, q, reports).
     if \<not> hk_running h \<or> generation \<noteq> hk_generation h then (None, h, q, reports)
     else
       let (h, q, reports) = cancel_timeout t (h, q, reports);
           healthy = (result = kSuccess \<and> is_2xx (rs_status response) \<and> HasContentLength response)
       in FinishCheck wrap (\<lambda>i. t (i + 1)) generation healthy (h\<lparr>hk_connection := False\<rparr>, q, reports))"

definition HandleTimeout ::
    "(check_timer \<Rightarrow> 'a) \<Rightarrow> (nat \<Rightarrow> time_point) \<Rightarrow> u64 \<Rightarrow> 'a check_state \<Rightarrow> 'a check_state effect" where
  "HandleTimeout wrap t generation = (\<lambda>(h, q, reports).
     if \<not> hk_running h \<or> generation \<noteq> hk_generation h then (None, h, q, reports)
     else FinishCheck wrap t generation False (h\<lparr>hk_timeout_timer := 0, hk_connection := False\<rparr>, q, reports))"

definition RunCheck ::
    "(check_timer \<Rightarrow> 'a) \<Rightarrow> (nat \<Rightarrow> time_point) \<Rightarrow> start_outcome \<Rightarrow> u64 \<Rightarrow> 'a check_state \<Rightarrow> 'a check_state effect" where
  "RunCheck wrap t outcome generation = (\<lambda>(h, q, reports).
     if \<not> hk_running h \<or> generation \<noteq> hk_generation h then (None, h, q, reports)
     else
       case ScheduleAfter True (t 0) (t 1) (ms_to_ns (hcc_timeout (hk_config h)))
              (Some (wrap (CheckTimeout generation))) q of
         (Inl e, q) \<Rightarrow> (Some e, h, q, reports)
       | (Inr identifier, q) \<Rightarrow>
           let h = h\<lparr>hk_timeout_timer := identifier, hk_connection := True\<rparr> in
           case outcome of
             StartReturns \<Rightarrow> (None, h, q, reports)
           | StartThrows \<Rightarrow> FinishCheck wrap (\<lambda>i. t (i + 2)) generation False (h\<lparr>hk_connection := False\<rparr>, q, reports)
           | StartFinishes result response \<Rightarrow>
               HandleResult wrap (\<lambda>i. t (i + 2)) generation result response (h, q, reports))"

definition HealthChecker_Start ::
    "(check_timer \<Rightarrow> 'a) \<Rightarrow> (nat \<Rightarrow> time_point) \<Rightarrow> start_outcome \<Rightarrow> 'a check_state \<Rightarrow> 'a check_state effect" where
  "HealthChecker_Start wrap t outcome = (\<lambda>(h, q, reports).
     if hk_running h then (Some LogicError, h, q, reports)
     else
       let h = h\<lparr>hk_running := True, hk_generation := hk_generation h + 1\<rparr>
       in RunCheck wrap t outcome (hk_generation h) (h, q, reports))"

text \<open>The callback that the timer queue runs.\<close>

fun check_timer_fired ::
    "(check_timer \<Rightarrow> 'a) \<Rightarrow> (nat \<Rightarrow> time_point) \<Rightarrow> start_outcome \<Rightarrow> check_timer \<Rightarrow> 'a check_state \<Rightarrow> 'a check_state effect" where
  "check_timer_fired wrap t outcome (CheckTimeout generation) s = HandleTimeout wrap t generation s"
| "check_timer_fired wrap t outcome (CheckNext generation) s = RunCheck wrap t outcome generation s"

section \<open>What the operations do to the queue\<close>

text \<open>
  The queue stays well-formed, and every timer in it was there before or is a later one with a
  callback from \<open>A\<close>.
\<close>

definition later_queue :: "time_point \<Rightarrow> 'a set \<Rightarrow> 'a timer_queue \<Rightarrow> 'a timer_queue \<Rightarrow> bool" where
  "later_queue now A q q' \<longleftrightarrow> timers_wf q'
     \<and> (\<forall>kv \<in> set (tq_timers q'). kv \<in> set (tq_timers q) \<or> now < fst (fst kv) \<and> snd kv \<in> A)"

lemma later_queue_refl: "timers_wf q \<Longrightarrow> later_queue now A q q"
  by (simp add: later_queue_def)

lemma later_queue_trans: "later_queue now A q q' \<Longrightarrow> later_queue now A q' q'' \<Longrightarrow> later_queue now A q q''"
  unfolding later_queue_def by blast

lemma later_queue_mono: "later_queue now A q q' \<Longrightarrow> A \<subseteq> B \<Longrightarrow> later_queue now B q q'"
  unfolding later_queue_def by blast

lemma later_queue_wf: "later_queue now A q q' \<Longrightarrow> timers_wf q'"
  by (simp add: later_queue_def)

lemma ScheduleAfter_later:
  assumes "timers_wf q" "now \<le> t0" "0 < delay" "action \<in> A"
    and s: "ScheduleAfter ok t0 t1 delay (Some action) q = (r, q')"
  shows "later_queue now A q q'"
proof -
  have at: "ScheduleAt ok t1 (t0 + delay) (Some action) q = (r, q')"
    using s assms(3) by (simp add: ScheduleAfter_def)
  have wf: "timers_wf q'" by (rule ScheduleAt_wf [OF assms(1) at])
  from at show ?thesis
  proof (cases rule: ScheduleAt_cases)
    case (2 a)
    have "kv \<in> set (tq_timers q) \<or> now < fst (fst kv) \<and> snd kv \<in> A" if "kv \<in> set (tq_timers q')" for kv
      using map_emplace_mem [OF that [unfolded 2(3)]] 2(1) assms(2-4) by auto
    with wf show ?thesis by (simp add: later_queue_def)
  qed (use assms(1) in \<open>simp add: later_queue_refl\<close>)
qed

lemma Cancel_later:
  assumes "timers_wf q"
  shows "later_queue now A q (snd (Timer_Cancel ok t i q))"
proof -
  obtain r q' where c: "Timer_Cancel ok t i q = (r, q')" by (cases "Timer_Cancel ok t i q")
  have "set (tq_timers q') \<subseteq> set (tq_timers q)"
    using c by (cases rule: Cancel_cases) (simp_all add: set_map_erase)
  with Cancel_wf [OF assms c] show ?thesis by (auto simp: later_queue_def c)
qed

definition checker_ok :: "health_checker \<Rightarrow> bool" where
  "checker_ok h \<longleftrightarrow> 0 < hcc_interval (hk_config h) \<and> 0 < hcc_timeout (hk_config h)"

text \<open>What every operation of a checker keeps.\<close>

definition check_effect :: "time_point \<Rightarrow> (check_timer \<Rightarrow> 'a) \<Rightarrow> 'a check_state \<Rightarrow> 'a check_state \<Rightarrow> bool" where
  "check_effect now wrap s s' \<longleftrightarrow> later_queue now (range wrap) (fst (snd s)) (fst (snd s'))
     \<and> hk_config (fst s') = hk_config (fst s)"

lemma check_effect_refl: "timers_wf (fst (snd s)) \<Longrightarrow> check_effect now wrap s s"
  by (simp add: check_effect_def later_queue_refl)

lemma check_effect_trans: "check_effect now wrap s s' \<Longrightarrow> check_effect now wrap s' s'' \<Longrightarrow> check_effect now wrap s s''"
  unfolding check_effect_def by (auto intro: later_queue_trans)

lemma ms_to_ns_pos [simp]: "0 < ms_to_ns d \<longleftrightarrow> 0 < d"
  by (simp add: ms_to_ns_def)

lemma ScheduleNext_effect:
  assumes "timers_wf q" "checker_ok h" "now \<le> t 0"
  shows "check_effect now wrap (h, q, rs) (snd (ScheduleNext wrap t g (h, q, rs)))"
proof (cases "g = hk_generation h")
  case True
  obtain r q' where s: "ScheduleAfter True (t 0) (t 1) (ms_to_ns (hcc_interval (hk_config h)))
      (Some (wrap (CheckNext (hk_generation h + 1)))) q = (r, q')" by (metis prod.exhaust)
  have "later_queue now (range wrap) q q'"
    by (rule ScheduleAfter_later [OF assms(1,3) _ _ s]) (use assms(2) in \<open>simp_all add: checker_ok_def\<close>)
  then show ?thesis using True s
    by (cases r) (simp_all add: ScheduleNext_def check_effect_def Let_def)
qed (use assms(1) in \<open>simp add: ScheduleNext_def check_effect_refl\<close>)

lemma FinishCheck_effect:
  assumes "timers_wf q" "checker_ok h" "now \<le> t 0"
  shows "check_effect now wrap (h, q, rs) (snd (FinishCheck wrap t g healthy (h, q, rs)))"
proof -
  obtain e h' q' rs' where r: "(if hk_running h \<and> g = hk_generation h then ScheduleNext wrap t g (h, q, rs) else (None, h, q, rs))
      = (e, h', q', rs')" by (metis prod.exhaust)
  have "check_effect now wrap (h, q, rs) (snd (e, h', q', rs'))"
    unfolding r [symmetric] using ScheduleNext_effect [where t = t and now = now, OF assms, of wrap rs g] check_effect_refl [of "(h, q, rs)"] assms(1)
    by auto
  then show ?thesis unfolding FinishCheck_def prod.case r by (cases e) (simp_all add: check_effect_def)
qed

lemma cancel_timeout_effect:
  assumes "timers_wf q"
  shows "check_effect now wrap (h, q, rs) (cancel_timeout t (h, q, rs))"
  using Cancel_later [OF assms, of now "range wrap"] later_queue_refl [OF assms]
  by (simp add: cancel_timeout_def check_effect_def)

lemma HandleResult_effect:
  assumes "timers_wf q" "checker_ok h" "now \<le> t 1"
  shows "check_effect now wrap (h, q, rs) (snd (HandleResult wrap t g result response (h, q, rs)))"
proof (cases "\<not> hk_running h \<or> g \<noteq> hk_generation h")
  case True
  then show ?thesis using assms(1) by (simp add: HandleResult_def check_effect_refl)
next
  case False
  obtain h' q' rs' where c: "cancel_timeout t (h, q, rs) = (h', q', rs')" by (metis prod.exhaust)
  have 1: "check_effect now wrap (h, q, rs) (h'\<lparr>hk_connection := False\<rparr>, q', rs')"
    using cancel_timeout_effect [OF assms(1), of now wrap h rs t] by (simp add: c check_effect_def)
  then have "timers_wf q'" "checker_ok (h'\<lparr>hk_connection := False\<rparr>)"
    using assms(2) by (auto simp: check_effect_def checker_ok_def dest: later_queue_wf)
  from check_effect_trans [OF 1 FinishCheck_effect [where t = "\<lambda>i. t (i + 1)", OF this]] assms(3) False show ?thesis
    by (simp add: HandleResult_def c Let_def)
qed

lemma HandleTimeout_effect:
  assumes "timers_wf q" "checker_ok h" "now \<le> t 0"
  shows "check_effect now wrap (h, q, rs) (snd (HandleTimeout wrap t g (h, q, rs)))"
proof -
  let ?h = "h\<lparr>hk_timeout_timer := 0, hk_connection := False\<rparr>"
  have "checker_ok ?h" using assms(2) by (simp add: checker_ok_def)
  from FinishCheck_effect [where t = t, OF assms(1) this assms(3), of wrap rs g False] check_effect_refl [of "(h, q, rs)"] assms(1)
  show ?thesis by (auto simp: HandleTimeout_def check_effect_def)
qed

lemma RunCheck_effect:
  assumes "timers_wf q" "checker_ok h" "\<And>i. now \<le> t i"
  shows "check_effect now wrap (h, q, rs) (snd (RunCheck wrap t outcome g (h, q, rs)))"
proof (cases "\<not> hk_running h \<or> g \<noteq> hk_generation h")
  case True
  then show ?thesis using assms(1) by (simp add: RunCheck_def check_effect_refl)
next
  case False
  obtain r q' where s: "ScheduleAfter True (t 0) (t 1) (ms_to_ns (hcc_timeout (hk_config h)))
      (Some (wrap (CheckTimeout g))) q = (r, q')" by (metis prod.exhaust)
  have later: "later_queue now (range wrap) q q'"
    by (rule ScheduleAfter_later [OF assms(1) assms(3) _ _ s]) (use assms(2) in \<open>simp_all add: checker_ok_def\<close>)
  show ?thesis
  proof (cases r)
    case (Inl e)
    then show ?thesis using False s later by (simp add: RunCheck_def check_effect_def)
  next
    case (Inr i)
    define h1 where "h1 = h\<lparr>hk_timeout_timer := i, hk_connection := True\<rparr>"
    have h1: "checker_ok h1" "checker_ok (h1\<lparr>hk_connection := False\<rparr>)" using assms(2) by (simp_all add: h1_def checker_ok_def)
    have 1: "check_effect now wrap (h, q, rs) (h1, q', rs)" "check_effect now wrap (h, q, rs) (h1\<lparr>hk_connection := False\<rparr>, q', rs)"
      using later by (simp_all add: check_effect_def h1_def)
    note wf = later_queue_wf [OF later]
    have 2: "check_effect now wrap (h, q, rs) (snd (HandleResult wrap (\<lambda>i. t (i + 2)) g result response (h1, q', rs)))" for result response
      by (rule check_effect_trans [OF 1(1) HandleResult_effect [OF wf h1(1)]]) (rule assms(3))
    have 3: "check_effect now wrap (h, q, rs) (snd (FinishCheck wrap (\<lambda>i. t (i + 2)) g False (h1\<lparr>hk_connection := False\<rparr>, q', rs)))"
      by (rule check_effect_trans [OF 1(2) FinishCheck_effect [OF wf h1(2)]]) (rule assms(3))
    show ?thesis using False s Inr 1(1) 2 3
      by (cases outcome) (simp_all add: RunCheck_def Let_def h1_def [symmetric])
  qed
qed

lemma check_timer_fired_effect:
  assumes "timers_wf q" "checker_ok h" "\<And>i. now \<le> t i"
  shows "check_effect now wrap (h, q, rs) (snd (check_timer_fired wrap t outcome timer (h, q, rs)))"
  by (cases timer) (simp_all add: HandleTimeout_effect RunCheck_effect assms)

lemma HealthChecker_Start_effect:
  assumes "timers_wf q" "checker_ok h" "\<And>i. now \<le> t i"
  shows "check_effect now wrap (h, q, rs) (snd (HealthChecker_Start wrap t outcome (h, q, rs)))"
proof -
  let ?h = "h\<lparr>hk_running := True, hk_generation := hk_generation h + 1\<rparr>"
  have "checker_ok ?h" using assms(2) by (simp add: checker_ok_def)
  from RunCheck_effect [where t = t, OF assms(1) this assms(3)] check_effect_refl [of "(h, q, rs)"] assms(1)
  show ?thesis by (auto simp: HealthChecker_Start_def check_effect_def Let_def)
qed

lemma HealthChecker_Stop_effect:
  assumes "timers_wf q"
  shows "check_effect now wrap (h, q, rs) (HealthChecker_Stop t (h, q, rs))"
  using cancel_timeout_effect [OF assms, of now wrap "h\<lparr>hk_running := False, hk_generation := hk_generation h + 1\<rparr>" rs t]
  by (auto simp: HealthChecker_Stop_def check_effect_def split: prod.splits)

end
