(* ===== verification/Coordinator.thy ===== *)
theory Coordinator
  imports HealthChecker CoordState OutcomeChannel Admission
begin

text \<open>
  The coordination runtime (\<open>health/Coordinator\<close>): one loop thread owns the health and breaker
  state, drains the outcome channels of the routes, moves open breakers to half-open when their
  timer fires, runs the health checkers and refills the admission credits, and publishes an
  immutable snapshot after every change.

  Tasks that other threads hand to the loop are the functions they execute there; whether the
  worker runtime accepts a task is an argument.  The clock is an argument \<open>clock\<close> that gives its
  successive readings by the loop thread; \<open>co_reads\<close> counts them.
\<close>

section \<open>Data\<close>

datatype lifecycle = LcNew | LcPrepared | LcActive | LcStopping | LcStopped

datatype coord_timer = ArmTimer nat nat | RefillTick | CheckerTimer nat check_timer

text \<open>A checker with the route and endpoint its reports are about.\<close>

record loop_data =
  ld_timers :: "coord_timer timer_queue"
  ld_checkers :: "(nat \<times> nat \<times> health_checker) list"
  ld_arm_timers :: "u64 list list"
  ld_outcome_wake_channels :: "nat list"

record coordinator =
  co_config :: config
  co_state :: coordinator_state
  co_admissions :: "global_admission list"
  co_outcome_channels :: "outcome_state option list"
  co_snapshot :: "health_circuit_snapshot option"
  co_loop_data :: "loop_data option"
  co_lifecycle :: lifecycle
  co_prepared_only :: bool
  co_runtime_started :: bool
  co_reads :: nat

definition kRefillTick :: int where
  "kRefillTick = 250 * 1000000"

definition readings :: "(nat \<Rightarrow> time_point) \<Rightarrow> coordinator \<Rightarrow> nat \<Rightarrow> time_point" where
  "readings clock c = (\<lambda>i. clock (co_reads c + i))"

definition reads_used :: "nat \<Rightarrow> coordinator \<Rightarrow> coordinator" where
  "reads_used n c = c\<lparr>co_reads := co_reads c + n\<rparr>"

section \<open>The loop\<close>

definition Publish_snapshot :: "coordinator \<Rightarrow> coordinator" where
  "Publish_snapshot c =
     (let (snapshot, state) = BuildSnapshot (co_state c)
      in c\<lparr>co_snapshot := Some snapshot, co_state := state\<rparr>)"

definition set_loop :: "loop_data \<Rightarrow> coordinator \<Rightarrow> coordinator" where
  "set_loop ld c = c\<lparr>co_loop_data := Some ld\<rparr>"

definition set_arm :: "nat \<Rightarrow> nat \<Rightarrow> u64 \<Rightarrow> loop_data \<Rightarrow> loop_data" where
  "set_arm route endpoint identifier ld =
     ld\<lparr>ld_arm_timers := (ld_arm_timers ld)[route := (ld_arm_timers ld ! route)[endpoint := identifier]]\<rparr>"

definition ScheduleArm :: "(nat \<Rightarrow> time_point) \<Rightarrow> nat \<Rightarrow> nat \<Rightarrow> coordinator \<Rightarrow> coordinator effect" where
  "ScheduleArm clock route endpoint c =
     (case co_loop_data c of
        None \<Rightarrow> (None, c)
      | Some ld \<Rightarrow>
          if route \<ge> length (ld_arm_timers ld) \<or> endpoint \<ge> length (ld_arm_timers ld ! route) then (None, c)
          else
            let t = readings clock c;
                c = reads_used 4 c;
                timer_id = ld_arm_timers ld ! route ! endpoint;
                q = (if timer_id \<noteq> 0 then snd (Timer_Cancel True (t 0) timer_id (ld_timers ld)) else ld_timers ld);
                ld = set_arm route endpoint 0 (ld\<lparr>ld_timers := q\<rparr>);
                now = t 1
            in case OpenUntil (co_state c) route endpoint of
                 None \<Rightarrow> (None, set_loop ld c)
               | Some until \<Rightarrow>
                   if until \<le> now then (None, set_loop ld c)
                   else case ScheduleAfter True (t 2) (t 3) (until - now) (Some (ArmTimer route endpoint)) (ld_timers ld) of
                          (Inl e, q) \<Rightarrow> (Some e, set_loop (ld\<lparr>ld_timers := q\<rparr>) c)
                        | (Inr identifier, q) \<Rightarrow>
                            (None, set_loop (set_arm route endpoint identifier (ld\<lparr>ld_timers := q\<rparr>)) c))"

definition RecordResultDirect :: "(nat \<Rightarrow> time_point) \<Rightarrow> attempt_result \<Rightarrow> coordinator \<Rightarrow> coordinator effect" where
  "RecordResultDirect clock result c =
     (let now = readings clock c 0;
          c = (reads_used 1 c)\<lparr>co_state := RecordResult (co_state c) result now\<rparr>
      in if IsOpen (co_state c) (ar_route_index result) (ar_endpoint_index result)
         then ScheduleArm clock (ar_route_index result) (ar_endpoint_index result) c
         else (None, c))"

definition RecordResultTask :: "(nat \<Rightarrow> time_point) \<Rightarrow> attempt_result \<Rightarrow> coordinator \<Rightarrow> coordinator effect" where
  "RecordResultTask clock result c =
     then_do (RecordResultDirect clock result c) (\<lambda>c. (None, Publish_snapshot c))"

definition RecordHealthTask :: "nat \<Rightarrow> nat \<Rightarrow> bool \<Rightarrow> coordinator \<Rightarrow> coordinator" where
  "RecordHealthTask route endpoint healthy c =
     Publish_snapshot (c\<lparr>co_state := RecordHealth (co_state c) route endpoint healthy\<rparr>)"

text \<open>
  Draining one channel with the coordinator's consumer: the number of drained outcomes, and the
  exception that stopped the loop, if any.
\<close>

function drain_into :: "(nat \<Rightarrow> time_point) \<Rightarrow> outcome_state \<Rightarrow> coordinator \<Rightarrow> nat \<times> outcome_state \<times> coordinator effect" where
  "drain_into clock channel c =
     (case drain_take channel of
        None \<Rightarrow> (0, channel, None, c)
      | Some (result, channel') \<Rightarrow>
          (case RecordResultDirect clock result c of
             (Some e, c) \<Rightarrow> (0, channel', Some e, c)
           | (None, c) \<Rightarrow>
               let (drained, channel'', r) = drain_into clock (restore_credit channel') c
               in (drained + 1, channel'', r)))"
  by pat_completeness auto
termination
  by (relation "measure (\<lambda>(_, channel, _). length (filter sl_ready (oc_slots channel)))")
    (auto simp: restore_credit_def dest: drain_take_fewer)

declare drain_into.simps [simp del]

definition drain_route :: "(nat \<Rightarrow> time_point) \<Rightarrow> nat \<Rightarrow> coordinator \<Rightarrow> nat \<times> coordinator effect" where
  "drain_route clock route c =
     (case co_outcome_channels c ! route of
        None \<Rightarrow> (0, None, c)
      | Some channel \<Rightarrow>
          let (drained, channel, e, c) = drain_into clock channel c
          in (drained, e, c\<lparr>co_outcome_channels := (co_outcome_channels c)[route := Some channel]\<rparr>))"

definition DrainOneOutcomeChannel :: "(nat \<Rightarrow> time_point) \<Rightarrow> nat \<Rightarrow> coordinator \<Rightarrow> coordinator effect" where
  "DrainOneOutcomeChannel clock route c =
     (let (drained, r) = drain_route clock route c
      in then_do r (\<lambda>c. (None, if drained > 0 then Publish_snapshot c else c)))"

fun drain_routes :: "(nat \<Rightarrow> time_point) \<Rightarrow> nat list \<Rightarrow> bool \<Rightarrow> coordinator \<Rightarrow> bool \<times> coordinator effect" where
  "drain_routes clock [] any c = (any, None, c)"
| "drain_routes clock (route # routes) any c =
     (case drain_route clock route c of
        (drained, Some e, c) \<Rightarrow> (any, Some e, c)
      | (drained, None, c) \<Rightarrow> drain_routes clock routes (any \<or> drained > 0) c)"

definition DrainAllOutcomeChannels :: "(nat \<Rightarrow> time_point) \<Rightarrow> coordinator \<Rightarrow> coordinator effect" where
  "DrainAllOutcomeChannels clock c =
     (let (any, r) = drain_routes clock [0..<length (co_outcome_channels c)] False c
      in then_do r (\<lambda>c. (None, if any then Publish_snapshot c else c)))"

text \<open>The timer callbacks.\<close>

definition arm_timer_fired :: "(nat \<Rightarrow> time_point) \<Rightarrow> nat \<Rightarrow> nat \<Rightarrow> coordinator \<Rightarrow> coordinator effect" where
  "arm_timer_fired clock route endpoint c =
     (case co_loop_data c of
        None \<Rightarrow> (None, c)
      | Some ld \<Rightarrow>
          let c = set_loop (set_arm route endpoint 0 ld) c;
              fired_at = readings clock c 0;
              c = reads_used 1 c
          in if IsOpen (co_state c) route endpoint then
               (case OpenUntil (co_state c) route endpoint of
                  Some until \<Rightarrow>
                    if fired_at < until then ScheduleArm clock route endpoint c
                    else (None, Publish_snapshot (c\<lparr>co_state := ArmHalfOpen (co_state c) route endpoint fired_at\<rparr>))
                | None \<Rightarrow> ScheduleArm clock route endpoint c)
             else (None, Publish_snapshot c))"

definition ScheduleRefillTick :: "(nat \<Rightarrow> time_point) \<Rightarrow> coordinator \<Rightarrow> coordinator effect" where
  "ScheduleRefillTick clock c =
     (case co_loop_data c of
        None \<Rightarrow> (None, c)
      | Some ld \<Rightarrow>
          let t = readings clock c; c = reads_used 2 c
          in case ScheduleAfter True (t 0) (t 1) kRefillTick (Some RefillTick) (ld_timers ld) of
               (Inl e, q) \<Rightarrow> (Some e, set_loop (ld\<lparr>ld_timers := q\<rparr>) c)
             | (Inr _, q) \<Rightarrow> (None, set_loop (ld\<lparr>ld_timers := q\<rparr>) c))"

definition refill_tick_fired :: "(nat \<Rightarrow> time_point) \<Rightarrow> coordinator \<Rightarrow> coordinator effect" where
  "refill_tick_fired clock c =
     (let now = readings clock c 0; c = reads_used 1 c
      in ScheduleRefillTick clock (c\<lparr>co_admissions := map (\<lambda>g. GlobalAdmission_Refill g now) (co_admissions c)\<rparr>))"

text \<open>What a health checker did: its queue, its new state, and its reports.\<close>

definition absorb_check ::
    "nat \<Rightarrow> nat \<Rightarrow> nat \<Rightarrow> loop_data \<Rightarrow> coord_timer check_state effect \<Rightarrow> coordinator \<Rightarrow> coordinator effect" where
  "absorb_check index route endpoint ld r c =
     (case r of (e, h, q, reports) \<Rightarrow>
        (e, fold (RecordHealthTask route endpoint) reports
              (set_loop (ld\<lparr>ld_timers := q, ld_checkers := (ld_checkers ld)[index := (route, endpoint, h)]\<rparr>) c)))"

definition checker_timer_fired ::
    "(nat \<Rightarrow> time_point) \<Rightarrow> start_outcome \<Rightarrow> nat \<Rightarrow> check_timer \<Rightarrow> coordinator \<Rightarrow> coordinator effect" where
  "checker_timer_fired clock outcome index timer c =
     (case co_loop_data c of
        None \<Rightarrow> (None, c)
      | Some ld \<Rightarrow>
          if index \<ge> length (ld_checkers ld) then (None, c)
          else
            let (route, endpoint, h) = ld_checkers ld ! index; t = readings clock c; c = reads_used 8 c
            in absorb_check index route endpoint ld
                 (check_timer_fired (CheckerTimer index) t outcome timer (h, ld_timers ld, [])) c)"

fun coord_timer_fired :: "(nat \<Rightarrow> time_point) \<Rightarrow> start_outcome \<Rightarrow> coord_timer \<Rightarrow> coordinator \<Rightarrow> coordinator effect" where
  "coord_timer_fired clock outcome (ArmTimer route endpoint) c = arm_timer_fired clock route endpoint c"
| "coord_timer_fired clock outcome RefillTick c = refill_tick_fired clock c"
| "coord_timer_fired clock outcome (CheckerTimer index timer) c = checker_timer_fired clock outcome index timer c"

text \<open>The callbacks in the form in which the dispatch loop of the queue runs them.\<close>

definition coord_callback ::
    "(nat \<Rightarrow> time_point) \<Rightarrow> start_outcome \<Rightarrow> coord_timer
     \<Rightarrow> coordinator \<times> coord_timer timer_queue \<Rightarrow> (coordinator \<times> coord_timer timer_queue) effect" where
  "coord_callback clock outcome timer = (\<lambda>(c, q).
     case co_loop_data c of
       None \<Rightarrow> (None, c, q)
     | Some ld \<Rightarrow>
         (case coord_timer_fired clock outcome timer (set_loop (ld\<lparr>ld_timers := q\<rparr>) c) of
            (e, c) \<Rightarrow> (e, c, case co_loop_data c of None \<Rightarrow> q | Some ld \<Rightarrow> ld_timers ld)))"

text \<open>The timer descriptor of the coordinator's queue becomes readable.\<close>

definition timers_readable ::
    "(nat \<Rightarrow> time_point) \<Rightarrow> start_outcome \<Rightarrow> time_point \<Rightarrow> coordinator \<Rightarrow> (timer_key list \<times> coordinator effect) option" where
  "timers_readable clock outcome rearm_now c =
     (case co_loop_data c of
        None \<Rightarrow> Some ([], None, c)
      | Some ld \<Rightarrow>
          let now = readings clock c 0; c = reads_used 1 c
          in Option.bind (HandleReadable (coord_callback clock outcome) ReadDrained True now rearm_now (c, ld_timers ld))
               (\<lambda>(fired, e, c, q). Some (fired, e,
                  case co_loop_data c of None \<Rightarrow> c | Some ld \<Rightarrow> set_loop (ld\<lparr>ld_timers := q\<rparr>) c)))"

section \<open>Construction and life cycle\<close>

text \<open>\<open>wake_fd\<close> gives what \<open>eventfd\<close> answers for the channel of each route.\<close>

definition new_channel :: "(nat \<Rightarrow> int) \<Rightarrow> nat \<times> route \<Rightarrow> cpp_error + outcome_state option" where
  "new_channel wake_fd = (\<lambda>(index, r).
     case rt_circuit_breaker r of
       None \<Rightarrow> Inr None
     | Some _ \<Rightarrow> res_bind (CapacityForRoute (rt_max_inflight r) (rt_retry_budget r)) (\<lambda>capacity.
         res_bind (OutcomeChannel_new (wake_fd index) capacity) (\<lambda>channel. Inr (Some channel))))"

definition Coordinator_new :: "(nat \<Rightarrow> int) \<Rightarrow> config option \<Rightarrow> time_point \<Rightarrow> cpp_error + coordinator" where
  "Coordinator_new wake_fd config now =
     (case config of
        None \<Rightarrow> Inl InvalidArgument
      | Some cfg \<Rightarrow>
          res_bind (CoordinatorState_new cfg now) (\<lambda>state.
            res_bind (res_map (new_channel wake_fd) (enumerate 0 (cfg_routes cfg))) (\<lambda>channels.
              Inr (Publish_snapshot
                \<lparr>co_config = cfg, co_state = state, co_admissions = [], co_outcome_channels = channels,
                 co_snapshot = None, co_loop_data = None, co_lifecycle = LcActive, co_prepared_only = False,
                 co_runtime_started = False, co_reads = 0\<rparr>))))"

definition SetAdmissions :: "global_admission list \<Rightarrow> coordinator \<Rightarrow> coordinator" where
  "SetAdmissions admissions c = c\<lparr>co_admissions := admissions\<rparr>"

text \<open>The endpoints that have a health checker, in the order of the two loops.\<close>

definition check_targets :: "config \<Rightarrow> (nat \<times> nat \<times> health_check_settings) list" where
  "check_targets cfg =
     concat (map (\<lambda>(route, r).
         case rt_health_check r of
           None \<Rightarrow> []
         | Some settings \<Rightarrow> map (\<lambda>endpoint. (route, endpoint, settings)) [0..<length (rt_endpoints r)])
       (enumerate 0 (cfg_routes cfg)))"

definition start_checker ::
    "(nat \<Rightarrow> time_point) \<Rightarrow> (nat \<Rightarrow> start_outcome) \<Rightarrow> nat \<times> nat \<times> health_check_settings \<Rightarrow> coordinator \<Rightarrow> coordinator effect" where
  "start_checker clock outcomes = (\<lambda>(route, endpoint, settings) c.
     case co_loop_data c of
       None \<Rightarrow> (Some LogicError, c)
     | Some ld \<Rightarrow>
         (case HealthChecker_new \<lparr>hcc_interval = int (interval_ms settings), hcc_timeout = int (timeout_ms settings)\<rparr> of
            Inl e \<Rightarrow> (Some e, c)
          | Inr h \<Rightarrow>
              let index = length (ld_checkers ld);
                  ld = ld\<lparr>ld_checkers := ld_checkers ld @ [(route, endpoint, h)]\<rparr>;
                  t = readings clock c; c = reads_used 8 c
              in absorb_check index route endpoint ld
                   (HealthChecker_Start (CheckerTimer index) t (outcomes index) (h, ld_timers ld, [])) c))"

definition OnActivateLoopInit ::
    "(nat \<Rightarrow> time_point) \<Rightarrow> (nat \<Rightarrow> start_outcome) \<Rightarrow> coordinator \<Rightarrow> coordinator effect" where
  "OnActivateLoopInit clock outcomes c =
     (case co_loop_data c of
        None \<Rightarrow> (Some LogicError, c)
      | Some _ \<Rightarrow>
          then_do (do_all (start_checker clock outcomes) (check_targets (co_config c)) c)
            (\<lambda>c. if co_admissions c \<noteq> [] then ScheduleRefillTick clock c else (None, c)))"

definition new_loop_data :: "coordinator \<Rightarrow> loop_data" where
  "new_loop_data c =
     \<lparr>ld_timers = TimerQueue_new, ld_checkers = [],
      ld_arm_timers = map (\<lambda>r. replicate (length (rt_endpoints r)) 0) (cfg_routes (co_config c)),
      ld_outcome_wake_channels = filter (\<lambda>route. co_outcome_channels c ! route \<noteq> None) [0..<length (co_outcome_channels c)]\<rparr>"

text \<open>An exception leaves the coordinator without loop data.\<close>

definition OnLoopInit :: "(nat \<Rightarrow> time_point) \<Rightarrow> (nat \<Rightarrow> start_outcome) \<Rightarrow> coordinator \<Rightarrow> coordinator effect" where
  "OnLoopInit clock outcomes c =
     (case then_do
          (if \<not> co_prepared_only c
           then do_all (start_checker clock outcomes) (check_targets (co_config c)) (set_loop (new_loop_data c) c)
           else (None, set_loop (new_loop_data c) c))
          (\<lambda>c. if \<not> co_prepared_only c \<and> co_admissions c \<noteq> [] then ScheduleRefillTick clock c else (None, c)) of
        (None, c) \<Rightarrow> (None, c)
      | (Some e, c) \<Rightarrow> (Some e, c\<lparr>co_loop_data := None\<rparr>))"

definition StartPrepared ::
    "bool \<Rightarrow> (nat \<Rightarrow> time_point) \<Rightarrow> (nat \<Rightarrow> start_outcome) \<Rightarrow> coordinator \<Rightarrow> coordinator effect" where
  "StartPrepared accepted clock outcomes c =
     (if co_runtime_started c then (Some LogicError, c)
      else if co_lifecycle c \<noteq> LcActive then (Some LogicError, c)
      else
        let c = c\<lparr>co_lifecycle := LcPrepared, co_runtime_started := True, co_prepared_only := True\<rparr>
        in if \<not> accepted then (Some LogicError, c) else OnLoopInit clock outcomes c)"

definition Activate ::
    "bool \<Rightarrow> (nat \<Rightarrow> time_point) \<Rightarrow> (nat \<Rightarrow> start_outcome) \<Rightarrow> coordinator \<Rightarrow> bool \<times> coordinator" where
  "Activate accepted clock outcomes c =
     (if co_lifecycle c \<noteq> LcPrepared then (False, c)
      else if \<not> accepted then (False, c)
      else case OnActivateLoopInit clock outcomes (c\<lparr>co_prepared_only := False\<rparr>) of
             (Some _, c) \<Rightarrow> (False, c)
           | (None, c) \<Rightarrow> (True, c\<lparr>co_lifecycle := LcActive\<rparr>))"

definition Coordinator_Start ::
    "bool \<Rightarrow> bool \<Rightarrow> (nat \<Rightarrow> time_point) \<Rightarrow> (nat \<Rightarrow> start_outcome) \<Rightarrow> coordinator \<Rightarrow> coordinator effect" where
  "Coordinator_Start accepted_init accepted_activate clock outcomes c =
     then_do (StartPrepared accepted_init clock outcomes c) (\<lambda>c.
       let (ok, c) = Activate accepted_activate clock outcomes c
       in if \<not> ok then (Some LogicError, c) else (None, c))"

text \<open>The import and export wait for their task; \<open>in_time\<close> says whether it ran before the timeout.\<close>

definition ImportProtectionSnapshotAndWait ::
    "bool \<Rightarrow> bool \<Rightarrow> (nat \<Rightarrow> time_point) \<Rightarrow> endpoint_protection list \<Rightarrow> coordinator \<Rightarrow> bool \<times> coordinator" where
  "ImportProtectionSnapshotAndWait accepted in_time clock snapshot c =
     (if co_lifecycle c \<noteq> LcPrepared then (False, c)
      else if \<not> accepted then (False, c)
      else if \<not> in_time then (False, c)
      else (True, Publish_snapshot ((reads_used 1 c)\<lparr>co_state :=
              ImportProtectionSnapshot (co_state c) snapshot (readings clock c 0)\<rparr>)))"

definition ExportProtectionSnapshotAndWait ::
    "bool \<Rightarrow> bool \<Rightarrow> (nat \<Rightarrow> time_point) \<Rightarrow> coordinator \<Rightarrow> endpoint_protection list option \<times> coordinator" where
  "ExportProtectionSnapshotAndWait accepted in_time clock c =
     (if co_lifecycle c \<noteq> LcPrepared \<and> co_lifecycle c \<noteq> LcActive then (None, c)
      else if \<not> accepted then (None, c)
      else if \<not> in_time then (None, c)
      else (Some (ExportProtectionSnapshot (co_state c) (readings clock c 0)), reads_used 1 c))"

text \<open>\<open>None\<close> is \<open>std::terminate\<close>.\<close>

definition Coordinator_Stop :: "bool \<Rightarrow> coordinator \<Rightarrow> coordinator option" where
  "Coordinator_Stop accepted c =
     (let c = c\<lparr>co_lifecycle := LcStopping\<rparr>
      in if co_loop_data c \<noteq> None \<and> \<not> accepted then None
         else Some (c\<lparr>co_loop_data := None, co_lifecycle := LcStopped\<rparr>))"

section \<open>Calls from workers and from the shutdown\<close>

definition CurrentSnapshot :: "coordinator \<Rightarrow> health_circuit_snapshot option" where
  "CurrentSnapshot c = co_snapshot c"

definition PostResult :: "bool \<Rightarrow> (nat \<Rightarrow> time_point) \<Rightarrow> attempt_result \<Rightarrow> coordinator \<Rightarrow> bool \<times> coordinator effect" where
  "PostResult accepted clock result c =
     (if co_lifecycle c \<noteq> LcActive then (False, None, c)
      else if \<not> accepted then (False, None, c)
      else (True, RecordResultTask clock result c))"

definition ReserveOutcome :: "nat \<Rightarrow> coordinator \<Rightarrow> reservation option \<times> coordinator" where
  "ReserveOutcome route c =
     (if co_lifecycle c \<noteq> LcActive then (None, c)
      else if route \<ge> length (co_outcome_channels c) then (None, c)
      else case co_outcome_channels c ! route of
        None \<Rightarrow> (None, c)
      | Some channel \<Rightarrow>
          let (r, channel) = TryReserve channel
          in (r, c\<lparr>co_outcome_channels := (co_outcome_channels c)[route := Some channel]\<rparr>))"

definition Coordinator_ProbeAvailable :: "nat \<Rightarrow> nat \<Rightarrow> coordinator \<Rightarrow> bool" where
  "Coordinator_ProbeAvailable route endpoint c =
     (if co_lifecycle c \<noteq> LcActive then False else ProbeAvailable (co_state c) route endpoint)"

definition Coordinator_ClaimProbe ::
    "nat \<Rightarrow> nat \<Rightarrow> health_circuit_snapshot \<Rightarrow> coordinator \<Rightarrow> attempt_permit option \<times> coordinator" where
  "Coordinator_ClaimProbe route endpoint snapshot c =
     (if co_lifecycle c \<noteq> LcActive then (None, c)
      else let (permit, state) = ClaimProbe (co_state c) route endpoint snapshot in (permit, c\<lparr>co_state := state\<rparr>))"

text \<open>Every checker stops and its timers are cancelled; the reports of a stop are none.\<close>

fun stop_checkers :: "(nat \<Rightarrow> time_point) \<Rightarrow> (nat \<times> nat \<times> health_checker) list \<Rightarrow> coord_timer timer_queue \<Rightarrow> coord_timer timer_queue" where
  "stop_checkers t [] q = q"
| "stop_checkers t ((_, _, h) # rest) q = stop_checkers t rest (fst (snd (HealthChecker_Stop t (h, q, []))))"

definition StopCheckers :: "bool \<Rightarrow> (nat \<Rightarrow> time_point) \<Rightarrow> coordinator \<Rightarrow> coordinator" where
  "StopCheckers accepted clock c =
     (if co_lifecycle c \<noteq> LcActive then c
      else if \<not> accepted then c
      else case co_loop_data c of
        None \<Rightarrow> c
      | Some ld \<Rightarrow>
          set_loop (ld\<lparr>ld_timers := stop_checkers (readings clock c) (ld_checkers ld) (ld_timers ld), ld_checkers := []\<rparr>)
            (reads_used 1 c))"

definition BeginOutcomeStopping :: "coordinator \<Rightarrow> coordinator" where
  "BeginOutcomeStopping c =
     c\<lparr>co_outcome_channels := map (map_option BeginStopping) (co_outcome_channels c)\<rparr>"

definition DrainOutcomesAndWait :: "bool \<Rightarrow> (nat \<Rightarrow> time_point) \<Rightarrow> coordinator \<Rightarrow> coordinator effect" where
  "DrainOutcomesAndWait accepted clock c =
     (if \<not> accepted then (Some LogicError, c) else DrainAllOutcomeChannels clock c)"

definition OutcomeRejectedTotal :: "coordinator \<Rightarrow> u64" where
  "OutcomeRejectedTotal c =
     fold (\<lambda>channel total. case channel of None \<Rightarrow> total | Some channel \<Rightarrow> total + rejected channel) (co_outcome_channels c) 0"

definition SubmitResultAndWait :: "bool \<Rightarrow> (nat \<Rightarrow> time_point) \<Rightarrow> attempt_result \<Rightarrow> coordinator \<Rightarrow> coordinator effect" where
  "SubmitResultAndWait accepted clock result c =
     (if \<not> accepted then (Some LogicError, c) else RecordResultTask clock result c)"

definition RecordHealthAndWait :: "bool \<Rightarrow> nat \<Rightarrow> nat \<Rightarrow> bool \<Rightarrow> coordinator \<Rightarrow> coordinator effect" where
  "RecordHealthAndWait accepted route endpoint healthy c =
     (if \<not> accepted then (Some LogicError, c) else (None, RecordHealthTask route endpoint healthy c))"

end
