(* ===== verification/CoordLoop.thy ===== *)
theory CoordLoop
  imports Coordinator CoordProbe
begin

text \<open>
  The coordinator loop: dispatching its timers always ends, an open breaker whose timer is
  pending becomes half-open when the timer fires, and an open breaker without a timer stays
  open.
\<close>

section \<open>The breaker of one endpoint\<close>

lemma BreakerState_set_other:
  "(r', e') \<noteq> (r, e) \<Longrightarrow> BreakerState (set_endpoint s r' e' x) r e = BreakerState s r e"
  by (auto simp: BreakerState_def endpoint_at_set)

lemma BreakerState_frame [simp]:
  "BreakerState (s\<lparr>cs_heap := h\<rparr>) r e = BreakerState s r e"
  "BreakerState (s\<lparr>cs_version := v\<rparr>) r e = BreakerState s r e"
  by (simp_all add: BreakerState_def)

lemma BreakerState_RecordHealth [simp]: "BreakerState (RecordHealth s r' e' ok) r e = BreakerState s r e"
  by (simp add: RecordHealth_def BreakerState_def endpoint_at_set)

lemma BreakerState_RecordResult_other:
  "(ar_route_index res, ar_endpoint_index res) \<noteq> (r, e) \<Longrightarrow> BreakerState (RecordResult s res now) r e = BreakerState s r e"
  by (auto simp: RecordResult_def Let_def BreakerState_set_other split: option.splits)

lemma BreakerState_ArmHalfOpen_other:
  "(r', e') \<noteq> (r, e) \<Longrightarrow> BreakerState (ArmHalfOpen s r' e' now) r e = BreakerState s r e"
  by (auto simp: ArmHalfOpen_def Let_def BreakerState_set_other split: option.splits prod.splits)

lemma BreakerState_BuildSnapshot [simp]: "BreakerState (snd (BuildSnapshot s)) r e = BreakerState s r e"
  by (simp add: BuildSnapshot_def Let_def)

section \<open>What the operations of the loop keep\<close>

definition loop_ok :: "loop_data \<Rightarrow> bool" where
  "loop_ok ld \<longleftrightarrow> timers_wf (ld_timers ld) \<and> (\<forall>x \<in> set (ld_checkers ld). checker_ok (snd (snd x)))"

text \<open>Callbacks other than the arming of the watched endpoint.\<close>

definition other_timers :: "(nat \<times> nat) option \<Rightarrow> coord_timer set" where
  "other_timers watched = {a. \<forall>r e. watched = Some (r, e) \<longrightarrow> a \<noteq> ArmTimer r e}"

text \<open>
  With a watched endpoint, its breaker stays open if it was and no timer to arm it appears; in
  any case new timers are later than \<open>now\<close> and the loop data stay in order.
\<close>

definition keeps :: "(nat \<times> nat) option \<Rightarrow> time_point \<Rightarrow> coordinator \<Rightarrow> coordinator \<Rightarrow> bool" where
  "keeps watched now c c' \<longleftrightarrow>
     (\<exists>ld ld'. co_loop_data c = Some ld \<and> co_loop_data c' = Some ld' \<and> loop_ok ld'
        \<and> later_queue now (other_timers watched) (ld_timers ld) (ld_timers ld'))
     \<and> co_reads c \<le> co_reads c'
     \<and> (\<forall>r e. watched = Some (r, e) \<longrightarrow> IsOpen (co_state c) r e \<longrightarrow> IsOpen (co_state c') r e)"

definition fresh_clock :: "(nat \<Rightarrow> time_point) \<Rightarrow> time_point \<Rightarrow> coordinator \<Rightarrow> bool" where
  "fresh_clock clock now c \<longleftrightarrow> (\<forall>i \<ge> co_reads c. now \<le> clock i)"

definition has_loop :: "coordinator \<Rightarrow> bool" where
  "has_loop c \<longleftrightarrow> (\<exists>ld. co_loop_data c = Some ld \<and> loop_ok ld)"

lemma keepsI:
  assumes "co_loop_data c = Some ld" "co_loop_data c' = Some ld'" "loop_ok ld'"
    "later_queue now (other_timers watched) (ld_timers ld) (ld_timers ld')" "co_reads c \<le> co_reads c'"
    "\<And>r e. watched = Some (r, e) \<Longrightarrow> IsOpen (co_state c) r e \<Longrightarrow> IsOpen (co_state c') r e"
  shows "keeps watched now c c'"
  using assms unfolding keeps_def by blast

lemma keeps_trans: "keeps watched now c c' \<Longrightarrow> keeps watched now c' c'' \<Longrightarrow> keeps watched now c c''"
  unfolding keeps_def by (fastforce intro: later_queue_trans)

lemma keeps_has_loop: "keeps watched now c c' \<Longrightarrow> has_loop c'"
  unfolding keeps_def has_loop_def by blast

lemma keeps_fresh: "keeps watched now c c' \<Longrightarrow> fresh_clock clock now c \<Longrightarrow> fresh_clock clock now c'"
  unfolding keeps_def fresh_clock_def by auto

lemma keeps_same_loop:
  assumes "has_loop c" "co_loop_data c' = co_loop_data c" "co_reads c \<le> co_reads c'"
    "\<And>r e. watched = Some (r, e) \<Longrightarrow> IsOpen (co_state c) r e \<Longrightarrow> IsOpen (co_state c') r e"
  shows "keeps watched now c c'"
proof -
  obtain ld where ld: "co_loop_data c = Some ld" "loop_ok ld" using assms(1) by (auto simp: has_loop_def)
  show ?thesis
    by (rule keepsI [OF ld(1) _ ld(2)]) (use assms ld in \<open>auto simp: loop_ok_def later_queue_refl\<close>)
qed

lemma Publish_keeps: "has_loop c \<Longrightarrow> keeps watched now c (Publish_snapshot c)"
  by (rule keeps_same_loop) (auto simp: Publish_snapshot_def IsOpen_def split_beta Let_def)

lemma RecordHealthTask_keeps: "has_loop c \<Longrightarrow> keeps watched now c (RecordHealthTask r e ok c)"
  by (rule keeps_same_loop) (auto simp: RecordHealthTask_def Publish_snapshot_def IsOpen_def split_beta Let_def)

lemma reports_keep: "has_loop c \<Longrightarrow> keeps watched now c (fold (RecordHealthTask r e) reports c)"
proof (induction reports arbitrary: c)
  case Nil
  then show ?case by (simp add: keeps_same_loop)
next
  case (Cons ok reports)
  have 1: "keeps watched now c (RecordHealthTask r e ok c)" by (rule RecordHealthTask_keeps [OF Cons.prems])
  show ?case using keeps_trans [OF 1 Cons.IH [OF keeps_has_loop [OF 1]]] by simp
qed

lemma readings_fresh: "fresh_clock clock now c \<Longrightarrow> now \<le> readings clock c i"
  by (simp add: fresh_clock_def readings_def)

lemma set_arm_timers [simp]: "ld_timers (set_arm r e i ld) = ld_timers ld" "ld_checkers (set_arm r e i ld) = ld_checkers ld"
  by (simp_all add: set_arm_def)

lemma set_loop_fields [simp]:
  "co_loop_data (set_loop ld c) = Some ld" "co_state (set_loop ld c) = co_state c" "co_reads (set_loop ld c) = co_reads c"
  "co_loop_data (reads_used n c) = co_loop_data c" "co_state (reads_used n c) = co_state c"
  "co_reads (reads_used n c) = co_reads c + n"
  by (simp_all add: set_loop_def reads_used_def)

lemma set_loop_keeps:
  assumes "co_loop_data c = Some ld" "loop_ok ld'" "later_queue now (other_timers watched) (ld_timers ld) (ld_timers ld')"
    "c' = set_loop ld' (reads_used n c)"
  shows "keeps watched now c c'"
  by (rule keepsI [OF assms(1) _ assms(2,3)]) (simp_all add: assms(4))

lemma ScheduleArm_keeps:
  assumes "has_loop c" "fresh_clock clock now c" "watched \<noteq> Some (r, e)"
  shows "keeps watched now c (snd (ScheduleArm clock r e c))"
proof -
  obtain ld where ld: "co_loop_data c = Some ld" "loop_ok ld" using assms(1) by (auto simp: has_loop_def)
  then have wf: "timers_wf (ld_timers ld)" by (simp add: loop_ok_def)
  define t where "t = readings clock c"
  have t: "now \<le> t i" for i using readings_fresh [OF assms(2)] by (simp add: t_def)
  define id where "id = ld_arm_timers ld ! r ! e"
  define q where "q = (if id \<noteq> 0 then snd (Timer_Cancel True (t 0) id (ld_timers ld)) else ld_timers ld)"
  define ld1 where "ld1 = set_arm r e 0 (ld\<lparr>ld_timers := q\<rparr>)"
  have q: "later_queue now (other_timers watched) (ld_timers ld) q"
    using Cancel_later [OF wf] later_queue_refl [OF wf] by (simp add: q_def)
  have ld1: "ld_timers ld1 = q" "loop_ok ld1"
    using later_queue_wf [OF q] ld(2) by (simp_all add: ld1_def loop_ok_def)
  show ?thesis
  proof (cases "r \<ge> length (ld_arm_timers ld) \<or> e \<ge> length (ld_arm_timers ld ! r)")
    case True
    then show ?thesis using assms(1) ld(1) by (auto simp: ScheduleArm_def keeps_same_loop)
  next
    case False
    note eq = ScheduleArm_def [of clock r e c, unfolded ld(1) option.case Let_def, folded t_def, folded id_def,
        folded q_def, folded ld1_def]
    have k1: "keeps watched now c (set_loop ld1 (reads_used 4 c))"
      by (rule set_loop_keeps [OF ld(1) ld1(2) _ refl]) (use q ld1 in simp)
    show ?thesis
    proof (cases "OpenUntil (co_state c) r e")
      case None
      then show ?thesis using False k1 by (simp add: eq)
    next
      case (Some until)
      show ?thesis
      proof (cases "until \<le> t 1")
        case True
        then show ?thesis using False k1 Some by (simp add: eq)
      next
        case late: False
        obtain res q' where s: "ScheduleAfter True (t 2) (t 3) (until - t 1) (Some (ArmTimer r e)) q = (res, q')"
          by (metis prod.exhaust)
        have "later_queue now (other_timers watched) q q'"
          by (rule ScheduleAfter_later [OF later_queue_wf [OF q] t _ _ s])
            (use late assms(3) in \<open>auto simp: other_timers_def\<close>)
        from later_queue_trans [OF q this] have later: "later_queue now (other_timers watched) (ld_timers ld) q'" .
        then have ok: "loop_ok (ld1\<lparr>ld_timers := q'\<rparr>)" "loop_ok (set_arm r e i (ld1\<lparr>ld_timers := q'\<rparr>))" for i
          using ld1(2) later_queue_wf [OF later] by (simp_all add: loop_ok_def)
        have k2: "keeps watched now c (set_loop (ld1\<lparr>ld_timers := q'\<rparr>) (reads_used 4 c))"
          "keeps watched now c (set_loop (set_arm r e i (ld1\<lparr>ld_timers := q'\<rparr>)) (reads_used 4 c))" for i
          by (rule set_loop_keeps [OF ld(1) ok(1) _ refl] set_loop_keeps [OF ld(1) ok(2) _ refl]; use later in simp)+
        show ?thesis using False Some late s k2 by (cases res) (simp_all add: eq ld1(1))
      qed
    qed
  qed
qed

lemma RecordResultDirect_keeps:
  assumes "has_loop c" "fresh_clock clock now c" "watched \<noteq> Some (ar_route_index res, ar_endpoint_index res)"
  shows "keeps watched now c (snd (RecordResultDirect clock res c))"
proof -
  define c1 where "c1 = (reads_used 1 c)\<lparr>co_state := RecordResult (co_state c) res (readings clock c 0)\<rparr>"
  have 1: "keeps watched now c c1"
    by (rule keeps_same_loop [OF assms(1)])
      (use assms(3) in \<open>auto simp: c1_def IsOpen_def reads_used_def BreakerState_RecordResult_other\<close>)
  note eq = RecordResultDirect_def [of clock res c, unfolded Let_def, folded c1_def]
  show ?thesis
  proof (cases "IsOpen (co_state c1) (ar_route_index res) (ar_endpoint_index res)")
    case True
    have "keeps watched now c1 (snd (ScheduleArm clock (ar_route_index res) (ar_endpoint_index res) c1))"
      by (rule ScheduleArm_keeps [OF keeps_has_loop [OF 1] keeps_fresh [OF 1 assms(2)] assms(3)])
    from keeps_trans [OF 1 this] True show ?thesis unfolding eq by simp
  next
    case False
    with 1 show ?thesis unfolding eq by simp
  qed
qed

lemma arm_timer_fired_keeps:
  assumes "has_loop c" "fresh_clock clock now c" "watched \<noteq> Some (r, e)"
  shows "keeps watched now c (snd (arm_timer_fired clock r e c))"
proof -
  obtain ld where ld: "co_loop_data c = Some ld" "loop_ok ld" using assms(1) by (auto simp: has_loop_def)
  define c0 where "c0 = set_loop (set_arm r e 0 ld) c"
  define c1 where "c1 = reads_used 1 c0"
  have wf: "timers_wf (ld_timers ld)" using ld(2) by (simp add: loop_ok_def)
  have 1: "keeps watched now c c1"
    by (rule keepsI [OF ld(1), of _ "set_arm r e 0 ld"])
      (use ld(2) wf in \<open>simp_all add: c0_def c1_def loop_ok_def later_queue_refl\<close>)
  note loop1 = keeps_has_loop [OF 1] and fresh1 = keeps_fresh [OF 1 assms(2)]
  have arm: "keeps watched now c (snd (ScheduleArm clock r e c1))"
    by (rule keeps_trans [OF 1 ScheduleArm_keeps [OF loop1 fresh1 assms(3)]])
  have pub: "keeps watched now c (Publish_snapshot c1)" by (rule keeps_trans [OF 1 Publish_keeps [OF loop1]])
  define c2 where "c2 = c1\<lparr>co_state := ArmHalfOpen (co_state c1) r e (readings clock c0 0)\<rparr>"
  have 2: "keeps watched now c1 c2"
    by (rule keeps_same_loop [OF loop1]) (use assms(3) in \<open>auto simp: c2_def IsOpen_def BreakerState_ArmHalfOpen_other\<close>)
  have half: "keeps watched now c (Publish_snapshot c2)"
    by (rule keeps_trans [OF keeps_trans [OF 1 2] Publish_keeps [OF keeps_has_loop [OF 2]]])
  note eq = arm_timer_fired_def [of clock r e c, unfolded ld(1) option.case Let_def, folded c0_def, folded c1_def, folded c2_def]
  show ?thesis unfolding eq using arm pub half
    by (cases "OpenUntil (co_state c1) r e") auto
qed

lemma ScheduleRefillTick_keeps:
  assumes "has_loop c" "fresh_clock clock now c"
  shows "keeps watched now c (snd (ScheduleRefillTick clock c))"
proof -
  obtain ld where ld: "co_loop_data c = Some ld" "loop_ok ld" using assms(1) by (auto simp: has_loop_def)
  then have wf: "timers_wf (ld_timers ld)" by (simp add: loop_ok_def)
  define t where "t = readings clock c"
  have t: "now \<le> t 0" using readings_fresh [OF assms(2)] by (simp add: t_def)
  obtain res q where s: "ScheduleAfter True (t 0) (t 1) kRefillTick (Some RefillTick) (ld_timers ld) = (res, q)"
    by (metis prod.exhaust)
  have later: "later_queue now (other_timers watched) (ld_timers ld) q"
    by (rule ScheduleAfter_later [OF wf t _ _ s]) (simp_all add: kRefillTick_def other_timers_def)
  have "keeps watched now c (set_loop (ld\<lparr>ld_timers := q\<rparr>) (reads_used 2 c))"
    by (rule set_loop_keeps [OF ld(1) _ _ refl]) (use later later_queue_wf [OF later] ld(2) in \<open>simp_all add: loop_ok_def\<close>)
  then show ?thesis using ld(1) s by (cases res) (simp_all add: ScheduleRefillTick_def Let_def t_def [symmetric])
qed

lemma refill_tick_fired_keeps:
  assumes "has_loop c" "fresh_clock clock now c"
  shows "keeps watched now c (snd (refill_tick_fired clock c))"
proof -
  define c1 where "c1 = (reads_used 1 c)\<lparr>co_admissions :=
      map (\<lambda>g. GlobalAdmission_Refill g (readings clock c 0)) (co_admissions (reads_used 1 c))\<rparr>"
  have 1: "keeps watched now c c1" by (rule keeps_same_loop [OF assms(1)]) (simp_all add: c1_def reads_used_def)
  show ?thesis
    using keeps_trans [OF 1 ScheduleRefillTick_keeps [OF keeps_has_loop [OF 1] keeps_fresh [OF 1 assms(2)]]]
    by (simp add: refill_tick_fired_def Let_def c1_def)
qed

lemma other_timers_checker: "range (CheckerTimer i) \<subseteq> other_timers watched"
  by (auto simp: other_timers_def)

lemma absorb_check_keeps:
  assumes "co_loop_data c = Some ld0" "ld_timers ld0 = ld_timers ld" "\<forall>x \<in> set (ld_checkers ld). checker_ok (snd (snd x))"
    and "check_effect now (CheckerTimer i) (h, ld_timers ld, rs) (snd r)" "checker_ok h"
  shows "keeps watched now c (snd (absorb_check i route e ld r (reads_used n c)))"
proof -
  obtain err h' q' rs' where r: "r = (err, h', q', rs')" by (metis prod.exhaust)
  have later: "later_queue now (other_timers watched) (ld_timers ld) q'"
    and cfg: "hk_config h' = hk_config h"
    using assms(4) later_queue_mono [OF _ other_timers_checker] by (auto simp: check_effect_def r)
  define ld' where "ld' = ld\<lparr>ld_timers := q', ld_checkers := (ld_checkers ld)[i := (route, e, h')]\<rparr>"
  have "checker_ok h'" using assms(5) cfg by (simp add: checker_ok_def)
  then have "\<forall>x \<in> set ((ld_checkers ld)[i := (route, e, h')]). checker_ok (snd (snd x))"
    using assms(3) set_update_subset_insert by fastforce
  then have ok: "loop_ok ld'" using later_queue_wf [OF later] by (simp add: ld'_def loop_ok_def)
  have 1: "keeps watched now c (set_loop ld' (reads_used n c))"
    by (rule set_loop_keeps [OF assms(1) ok _ refl]) (use later assms(2) in \<open>simp add: ld'_def\<close>)
  show ?thesis
    using keeps_trans [OF 1 reports_keep [OF keeps_has_loop [OF 1]]]
    by (simp add: absorb_check_def r ld'_def)
qed

lemma checker_timer_fired_keeps:
  assumes "has_loop c" "fresh_clock clock now c"
  shows "keeps watched now c (snd (checker_timer_fired clock outcome i timer c))"
proof -
  obtain ld where ld: "co_loop_data c = Some ld" "loop_ok ld" using assms(1) by (auto simp: has_loop_def)
  show ?thesis
  proof (cases "i \<ge> length (ld_checkers ld)")
    case True
    then show ?thesis using assms(1) ld(1) by (simp add: checker_timer_fired_def keeps_same_loop)
  next
    case False
    obtain route e h where x: "ld_checkers ld ! i = (route, e, h)" by (metis prod.exhaust)
    then have ok: "checker_ok h" using ld(2) False nth_mem [of i "ld_checkers ld"] by (fastforce simp: loop_ok_def)
    have "check_effect now (CheckerTimer i) (h, ld_timers ld, [])
        (snd (check_timer_fired (CheckerTimer i) (readings clock c) outcome timer (h, ld_timers ld, [])))"
      by (rule check_timer_fired_effect) (use ld(2) ok readings_fresh [OF assms(2)] in \<open>simp_all add: loop_ok_def\<close>)
    from absorb_check_keeps [OF ld(1) refl _ this ok] ld(2) show ?thesis
      using False ld(1) x by (simp add: checker_timer_fired_def Let_def loop_ok_def)
  qed
qed

lemma coord_timer_fired_keeps:
  assumes "has_loop c" "fresh_clock clock now c" "timer \<in> other_timers watched"
  shows "keeps watched now c (snd (coord_timer_fired clock outcome timer c))"
  using assms arm_timer_fired_keeps [OF assms(1,2)] refill_tick_fired_keeps [OF assms(1,2)]
    checker_timer_fired_keeps [OF assms(1,2)]
  by (cases timer) (auto simp: other_timers_def)

section \<open>Dispatching the timers\<close>

text \<open>
  What holds during the dispatch: the queue is well-formed, the clock does not run backwards, and
  a watched endpoint has an open breaker and no timer.
\<close>

definition dispatch_inv ::
    "(nat \<Rightarrow> time_point) \<Rightarrow> time_point \<Rightarrow> (nat \<times> nat) option \<Rightarrow> coordinator \<times> coord_timer timer_queue \<Rightarrow> bool" where
  "dispatch_inv clock now watched = (\<lambda>(c, q).
     timers_wf q \<and> fresh_clock clock now c
     \<and> (\<exists>ld. co_loop_data c = Some ld \<and> (\<forall>x \<in> set (ld_checkers ld). checker_ok (snd (snd x))))
     \<and> (\<forall>r e. watched = Some (r, e) \<longrightarrow> IsOpen (co_state c) r e)
     \<and> snd ` set (tq_timers q) \<subseteq> other_timers watched)"

lemma dispatch_inv_run:
  assumes inv: "dispatch_inv clock now watched (c, q)" and q: "tq_timers q = (k, a) # rest"
  shows "dispatch_inv clock now watched (snd (coord_callback clock outcome a (c, timer_pop q)))"
    and "k' \<in> set (timer_keys (snd (snd (coord_callback clock outcome a (c, timer_pop q))))) \<Longrightarrow>
      k' \<in> set (timer_keys (timer_pop q)) \<or> now < fst k'"
proof -
  obtain ld where ld: "co_loop_data c = Some ld" "\<forall>x \<in> set (ld_checkers ld). checker_ok (snd (snd x))"
    and wf: "timers_wf q" and fresh: "fresh_clock clock now c"
    and other: "snd ` set (tq_timers q) \<subseteq> other_timers watched"
    and opened: "\<And>r e. watched = Some (r, e) \<Longrightarrow> IsOpen (co_state c) r e"
    using inv by (auto simp: dispatch_inv_def)
  define c1 where "c1 = set_loop (ld\<lparr>ld_timers := timer_pop q\<rparr>) c"
  have popped: "timers_wf (timer_pop q)" "tq_timers (timer_pop q) = rest"
    using pop_wf(1) [OF wf q] by (simp_all add: timer_pop_def q)
  have c1: "has_loop c1" "fresh_clock clock now c1" "a \<in> other_timers watched"
    using ld(2) popped fresh other q by (auto simp: has_loop_def c1_def loop_ok_def fresh_clock_def)
  obtain e c' where f: "coord_timer_fired clock outcome a c1 = (e, c')" by (metis prod.exhaust)
  have keep: "keeps watched now c1 c'" using coord_timer_fired_keeps [OF c1, of outcome] by (simp add: f)
  then obtain ld' where ld': "co_loop_data c' = Some ld'" "loop_ok ld'"
    "later_queue now (other_timers watched) (timer_pop q) (ld_timers ld')"
    by (auto simp: keeps_def c1_def)
  have r: "coord_callback clock outcome a (c, timer_pop q) = (e, c', ld_timers ld')"
    using f ld' by (simp add: coord_callback_def ld(1) c1_def)
  have entries: "kv \<in> set rest \<or> now < fst (fst kv) \<and> snd kv \<in> other_timers watched"
    if "kv \<in> set (tq_timers (ld_timers ld'))" for kv
    using ld'(3) that popped(2) by (auto simp: later_queue_def)
  have "set rest \<subseteq> set (tq_timers q)" using q by auto
  then have "snd ` set (tq_timers (ld_timers ld')) \<subseteq> other_timers watched" using entries other by blast
  moreover have "\<And>r e. watched = Some (r, e) \<Longrightarrow> IsOpen (co_state c') r e"
    using keep opened by (auto simp: keeps_def c1_def)
  ultimately show "dispatch_inv clock now watched (snd (coord_callback clock outcome a (c, timer_pop q)))"
    using ld' keeps_fresh [OF keep c1(2)] by (simp add: r dispatch_inv_def loop_ok_def)
  show "k' \<in> set (timer_keys (timer_pop q)) \<or> now < fst k'"
    if "k' \<in> set (timer_keys (snd (snd (coord_callback clock outcome a (c, timer_pop q)))))"
    using that entries popped(2) by (auto simp: r)
qed

interpretation dispatch: timer_callbacks "coord_callback clock outcome" now "dispatch_inv clock now watched"
  for clock outcome now watched
proof unfold_locales
  show "timers_wf (snd sq)" if "dispatch_inv clock now watched sq" for sq
    using that by (auto simp: dispatch_inv_def)
qed (rule dispatch_inv_run; assumption)+

lemma mono_fresh: "mono clock \<Longrightarrow> fresh_clock clock (clock (co_reads c)) c"
  by (simp add: fresh_clock_def mono_def)

lemma dispatch_start:
  assumes "has_loop c" "co_loop_data c = Some ld" "mono clock" "now = clock (co_reads c)"
    "\<And>r e. watched = Some (r, e) \<Longrightarrow> IsOpen (co_state c) r e" "snd ` set (tq_timers (ld_timers ld)) \<subseteq> other_timers watched"
  shows "dispatch_inv clock now watched (reads_used n c, ld_timers ld)"
  using assms mono_fresh [OF assms(3), of c] by (auto simp: dispatch_inv_def has_loop_def loop_ok_def fresh_clock_def)

lemma timers_readable_returns:
  assumes "has_loop c" "co_loop_data c = Some ld" "mono clock" "now = clock (co_reads c)"
    "\<And>r e. watched = Some (r, e) \<Longrightarrow> IsOpen (co_state c) r e" "snd ` set (tq_timers (ld_timers ld)) \<subseteq> other_timers watched"
  obtains fired e c' ld' where "timers_readable clock outcome rearm_now c = Some (fired, e, c')"
    "co_loop_data c' = Some ld'" "has_loop c'" "subseq fired (due now (ld_timers ld))"
    "e = None \<longrightarrow> due now (ld_timers ld') = []" "snd ` set (tq_timers (ld_timers ld')) \<subseteq> other_timers watched"
    "\<And>r e. watched = Some (r, e) \<Longrightarrow> IsOpen (co_state c') r e"
proof -
  obtain fired e c1 q where f: "fire_due (coord_callback clock outcome) now (reads_used 1 c, ld_timers ld) = Some (fired, e, c1, q)"
    and inv: "dispatch_inv clock now watched (c1, q)" and none: "e = None \<longrightarrow> due now q = []"
    and sub: "subseq fired (due now (ld_timers ld))"
    using dispatch.fire_due_returns [OF dispatch_start [OF assms, of 1], of outcome] by auto
  obtain ld1 where ld1: "co_loop_data c1 = Some ld1" "\<forall>x \<in> set (ld_checkers ld1). checker_ok (snd (snd x))"
    using inv by (auto simp: dispatch_inv_def)
  obtain e' q' where r: "then_do (e, c1, q) (\<lambda>(s, q). case Rearm True rearm_now q of
      (Inl e, q) \<Rightarrow> (Some e, s, q) | (Inr _, q) \<Rightarrow> (None, s, q)) = (e', c1, q')"
    and q': "tq_timers q' = tq_timers q" "timers_wf q' = timers_wf q" "e' = e"
    by (cases e) (auto simp: Rearm_def timers_wf_def)
  define c2 where "c2 = set_loop (ld1\<lparr>ld_timers := q'\<rparr>) c1"
  have eq: "timers_readable clock outcome rearm_now c = Some (fired, e, c2)"
    using f r ld1(1) assms(4) q'(3) by (simp add: timers_readable_def assms(2) HandleReadable_def Let_def readings_def c2_def)
  have loop: "co_loop_data c2 = Some (ld1\<lparr>ld_timers := q'\<rparr>)" "has_loop c2"
    using inv q'(2) ld1 by (auto simp: c2_def has_loop_def loop_ok_def dispatch_inv_def)
  show thesis
    by (rule that [OF eq loop sub]) (use none inv q'(1) in \<open>auto simp: due_def dispatch_inv_def c2_def\<close>)
qed

section \<open>Draining and activation\<close>

lemma RecordResultDirect_channels [simp]:
  "co_outcome_channels (snd (RecordResultDirect clock res c)) = co_outcome_channels c"
  by (auto simp: RecordResultDirect_def ScheduleArm_def Let_def set_loop_def reads_used_def split: option.splits sum.splits prod.splits)

text \<open>No outcome waiting in the channel is about the endpoint.\<close>

definition channel_spares :: "(nat \<times> nat) option \<Rightarrow> outcome_state \<Rightarrow> bool" where
  "channel_spares watched ch \<longleftrightarrow>
     (\<forall>slot \<in> set (oc_slots ch). sl_ready slot \<longrightarrow> watched \<noteq> Some (ar_route_index (sl_value slot), ar_endpoint_index (sl_value slot)))"

lemma drain_take_spares:
  assumes "drain_take ch = Some (res, ch')" "channel_spares watched ch"
  shows "watched \<noteq> Some (ar_route_index res, ar_endpoint_index res)" "channel_spares watched (restore_credit ch')"
proof -
  let ?i = "slot_index ch (oc_tail ch)"
  have i: "?i < length (oc_slots ch)" "sl_ready (oc_slots ch ! ?i)" "res = sl_value (oc_slots ch ! ?i)"
    "oc_slots ch' = (oc_slots ch)[?i := \<lparr>sl_value = empty_result, sl_ready = False\<rparr>]"
    using assms(1) by (auto simp: drain_take_def Let_def split: if_splits)
  show "watched \<noteq> Some (ar_route_index res, ar_endpoint_index res)"
    using assms(2) i(1-3) nth_mem [OF i(1)] unfolding channel_spares_def by blast
  show "channel_spares watched (restore_credit ch')"
    using assms(2) set_update_subset_insert [of "oc_slots ch" ?i] unfolding channel_spares_def restore_credit_def
    by (fastforce simp: i(4))
qed

lemma drain_into_keeps:
  assumes "has_loop c" "fresh_clock clock now c" "channel_spares watched ch"
  shows "keeps watched now c (snd (snd (snd (drain_into clock ch c))))
    \<and> co_outcome_channels (snd (snd (snd (drain_into clock ch c)))) = co_outcome_channels c"
  using assms
proof (induction clock ch c rule: drain_into.induct)
  case (1 clock ch c)
  show ?case
  proof (cases "drain_take ch")
    case None
    then show ?thesis using "1.prems"(1) by (simp add: drain_into.simps [of clock ch] keeps_same_loop)
  next
    case (Some x)
    obtain res ch' where x: "x = (res, ch')" by (cases x)
    note take = Some [unfolded x]
    note spares = drain_take_spares [OF take "1.prems"(3)]
    obtain e c1 where r: "RecordResultDirect clock res c = (e, c1)" by (cases "RecordResultDirect clock res c")
    have k: "keeps watched now c c1" using RecordResultDirect_keeps [OF "1.prems"(1,2) spares(1)] by (simp add: r)
    have chans: "co_outcome_channels c1 = co_outcome_channels c"
      using RecordResultDirect_channels [of clock res c] by (simp add: r)
    show ?thesis
    proof (cases e)
      case (Some err)
      then show ?thesis using take r k chans by (simp add: drain_into.simps [of clock ch])
    next
      case None
      note ih = "1.IH" [OF take refl r [symmetric] None keeps_has_loop [OF k] keeps_fresh [OF k "1.prems"(2)] spares(2)]
      then show ?thesis using take r None k chans keeps_trans
        by (auto simp: drain_into.simps [of clock ch] split: prod.splits)
    qed
  qed
qed

lemma drain_route_keeps:
  assumes "has_loop c" "fresh_clock clock now c" "\<forall>ch. co_outcome_channels c ! route = Some ch \<longrightarrow> channel_spares watched ch"
  shows "keeps watched now c (snd (snd (drain_route clock route c)))"
    and "\<exists>channel. co_outcome_channels (snd (snd (drain_route clock route c))) = (co_outcome_channels c)[route := channel]"
proof -
  have "keeps watched now c (snd (snd (drain_route clock route c)))
    \<and> (\<exists>channel. co_outcome_channels (snd (snd (drain_route clock route c))) = (co_outcome_channels c)[route := channel])"
  proof (cases "co_outcome_channels c ! route")
    case None
    then have "drain_route clock route c = (0, None, c)" by (simp add: drain_route_def)
    then show ?thesis using assms(1) by (auto simp: keeps_same_loop list_update_id intro: exI [of _ "co_outcome_channels c ! route"])
  next
    case (Some ch)
    note d = drain_into_keeps [OF assms(1,2), of watched ch] 
    obtain n ch' e c1 where r: "drain_into clock ch c = (n, ch', e, c1)" by (metis prod.exhaust)
    define c2 where "c2 = c1\<lparr>co_outcome_channels := (co_outcome_channels c1)[route := Some ch']\<rparr>"
    have 1: "keeps watched now c c1" "co_outcome_channels c1 = co_outcome_channels c" using d assms(3) Some by (simp_all add: r)
    have "keeps watched now c1 c2" by (rule keeps_same_loop) (use keeps_has_loop [OF 1(1)] in \<open>auto simp: c2_def\<close>)
    with 1(1) have "keeps watched now c c2" by (rule keeps_trans)
    then show ?thesis using 1(2) by (auto simp: drain_route_def Some r c2_def)
  qed
  then show "keeps watched now c (snd (snd (drain_route clock route c)))"
    and "\<exists>channel. co_outcome_channels (snd (snd (drain_route clock route c))) = (co_outcome_channels c)[route := channel]"
    by blast+
qed

text \<open>Publishing or not after a step that keeps.\<close>

lemma publish_if_keeps:
  assumes "keeps watched now c (snd r)"
  shows "keeps watched now c (snd (then_do r (\<lambda>c. (None, if b then Publish_snapshot c else c))))"
proof (rule then_do_inv [where P = "keeps watched now c"])
  fix s assume "r = (None, s)"
  with assms have s: "keeps watched now c s" by simp
  then show "keeps watched now c (snd (None :: cpp_error option, if b then Publish_snapshot s else s))"
    using keeps_trans [OF s Publish_keeps [OF keeps_has_loop [OF s]]] by simp
qed (rule assms)

lemma DrainOne_keeps:
  assumes "has_loop c" "fresh_clock clock now c" "\<forall>ch. co_outcome_channels c ! route = Some ch \<longrightarrow> channel_spares watched ch"
  shows "keeps watched now c (snd (DrainOneOutcomeChannel clock route c))"
  using publish_if_keeps [OF drain_route_keeps(1) [OF assms]] by (simp add: DrainOneOutcomeChannel_def split_beta)

lemma drain_routes_keeps:
  assumes "has_loop c" "fresh_clock clock now c" "distinct routes"
    "\<forall>i \<in> set routes. \<forall>ch. co_outcome_channels c ! i = Some ch \<longrightarrow> channel_spares watched ch"
  shows "keeps watched now c (snd (snd (drain_routes clock routes any c)))"
  using assms
proof (induction routes arbitrary: any c)
  case Nil
  then show ?case by (simp add: keeps_same_loop)
next
  case (Cons route routes)
  obtain n e c1 where r: "drain_route clock route c = (n, e, c1)" by (metis prod.exhaust)
  have "\<forall>ch. co_outcome_channels c ! route = Some ch \<longrightarrow> channel_spares watched ch" using Cons.prems(4) by simp
  note d = drain_route_keeps [OF Cons.prems(1,2) this, unfolded r snd_conv]
  have rest: "\<forall>i \<in> set routes. \<forall>ch. co_outcome_channels c1 ! i = Some ch \<longrightarrow> channel_spares watched ch"
  proof (intro ballI)
    fix i assume i: "i \<in> set routes"
    then have "co_outcome_channels c1 ! i = co_outcome_channels c ! i"
      using d(2) Cons.prems(3) by (metis distinct.simps(2) nth_list_update_neq)
    then show "\<forall>ch. co_outcome_channels c1 ! i = Some ch \<longrightarrow> channel_spares watched ch" using i Cons.prems(4) by simp
  qed
  show ?case
  proof (cases e)
    case None
    have "keeps watched now c1 (snd (snd (drain_routes clock routes (any \<or> n > 0) c1)))"
      by (rule Cons.IH [OF keeps_has_loop [OF d(1)] keeps_fresh [OF d(1) Cons.prems(2)] _ rest]) (use Cons.prems(3) in simp)
    then show ?thesis using keeps_trans [OF d(1)] by (simp add: r None)
  next
    case (Some err)
    then show ?thesis using d(1) by (simp add: r)
  qed
qed

lemma DrainAll_keeps:
  assumes "has_loop c" "fresh_clock clock now c" "\<forall>ch. Some ch \<in> set (co_outcome_channels c) \<longrightarrow> channel_spares watched ch"
  shows "keeps watched now c (snd (DrainAllOutcomeChannels clock c))"
proof -
  have "keeps watched now c (snd (snd (drain_routes clock [0..<length (co_outcome_channels c)] False c)))"
    by (rule drain_routes_keeps [OF assms(1,2)]) (use assms(3) nth_mem in \<open>force+\<close>)
  from publish_if_keeps [OF this] show ?thesis by (simp add: DrainAllOutcomeChannels_def split_beta)
qed

lemma start_checker_keeps:
  assumes "has_loop c" "fresh_clock clock now c"
  shows "keeps watched now c (snd (start_checker clock outcomes target c))"
proof -
  obtain route e settings where target: "target = (route, e, settings)" by (metis prod.exhaust)
  obtain ld where ld: "co_loop_data c = Some ld" "loop_ok ld" using assms(1) by (auto simp: has_loop_def)
  let ?config = "\<lparr>hcc_interval = int (interval_ms settings), hcc_timeout = int (timeout_ms settings)\<rparr>"
  show ?thesis
  proof (cases "HealthChecker_new ?config")
    case (Inl err)
    then show ?thesis using assms(1) ld(1) by (simp add: start_checker_def target keeps_same_loop)
  next
    case (Inr h)
    have ok: "checker_ok h" using Inr by (auto simp: HealthChecker_new_def checker_ok_def split: if_splits)
    define i where "i = length (ld_checkers ld)"
    define ld1 where "ld1 = ld\<lparr>ld_checkers := ld_checkers ld @ [(route, e, h)]\<rparr>"
    have "check_effect now (CheckerTimer i) (h, ld_timers ld1, [])
        (snd (HealthChecker_Start (CheckerTimer i) (readings clock c) (outcomes i) (h, ld_timers ld1, [])))"
      by (rule HealthChecker_Start_effect) (use ld(2) ok readings_fresh [OF assms(2)] in \<open>simp_all add: loop_ok_def ld1_def\<close>)
    from absorb_check_keeps [OF ld(1) _ _ this ok, of watched route e 8] ld(2) ok
    show ?thesis by (simp add: start_checker_def target ld(1) Inr Let_def i_def [symmetric] ld1_def loop_ok_def)
  qed
qed

lemma OnActivate_keeps:
  assumes "has_loop c" "fresh_clock clock now c"
  shows "keeps watched now c (snd (OnActivateLoopInit clock outcomes c))"
proof -
  let ?m = "do_all (start_checker clock outcomes) (check_targets (co_config c)) c"
  have 1: "keeps watched now c (snd ?m)"
  proof (rule do_all_inv [where P = "keeps watched now c"])
    fix x s assume s: "keeps watched now c s"
    show "keeps watched now c (snd (start_checker clock outcomes x s))"
      by (rule keeps_trans [OF s start_checker_keeps [OF keeps_has_loop [OF s] keeps_fresh [OF s assms(2)]]])
  qed (use assms(1) in \<open>simp add: keeps_same_loop\<close>)
  have "keeps watched now c (snd (then_do ?m (\<lambda>c. if co_admissions c \<noteq> [] then ScheduleRefillTick clock c else (None, c))))"
  proof (rule then_do_inv [where P = "keeps watched now c", OF 1])
    fix s assume "?m = (None, s)"
    with 1 have s: "keeps watched now c s" by simp
    show "keeps watched now c (snd (if co_admissions s \<noteq> [] then ScheduleRefillTick clock s else (None, s)))"
      using s keeps_trans [OF s ScheduleRefillTick_keeps [OF keeps_has_loop [OF s] keeps_fresh [OF s assms(2)]]] by simp
  qed
  then show ?thesis using assms(1) by (auto simp: OnActivateLoopInit_def has_loop_def)
qed

lemma Activate_keeps:
  assumes "has_loop c" "fresh_clock clock now c"
  shows "keeps watched now c (snd (Activate accepted clock outcomes c))"
proof -
  define c0 where "c0 = c\<lparr>co_prepared_only := False\<rparr>"
  have 1: "keeps watched now c c0" by (rule keeps_same_loop [OF assms(1)]) (simp_all add: c0_def)
  have 2: "keeps watched now c (snd (OnActivateLoopInit clock outcomes c0))"
    by (rule keeps_trans [OF 1 OnActivate_keeps [OF keeps_has_loop [OF 1] keeps_fresh [OF 1 assms(2)]]])
  obtain e c1 where r: "OnActivateLoopInit clock outcomes c0 = (e, c1)" by (metis prod.exhaust)
  have 3: "keeps watched now c1 (c1\<lparr>co_lifecycle := LcActive\<rparr>)"
    by (rule keeps_same_loop) (use 2 keeps_has_loop in \<open>auto simp: r\<close>)
  show ?thesis
    using assms(1) 2 keeps_trans [OF _ 3, of c]
    by (cases e) (auto simp: Activate_def c0_def [symmetric] r keeps_same_loop)
qed

end
