(* ===== verification/CoordRecovery.thy ===== *)
theory CoordRecovery
  imports CoordLoop
begin

text \<open>
  How an open breaker recovers: the events of the coordinator loop as sequences, the timer that
  moves a breaker from open to half-open, and the two situations in which that timer is missing
  and the breaker stays open through every event of the loop.
\<close>

section \<open>Events of the loop\<close>

text \<open>
  \<open>EvDrain\<close> and \<open>EvDrainAll\<close> carry the channels as the workers left them; \<open>EvTimers\<close> is the
  timer descriptor becoming readable.  Only channels that exist wake the loop.
\<close>

datatype loop_event =
  EvTimers start_outcome time_point
| EvResult attempt_result
| EvHealth nat nat bool
| EvDrain nat outcome_state
| EvDrainAll "outcome_state option list"
| EvClaim nat nat health_circuit_snapshot
| EvActivate bool "nat \<Rightarrow> start_outcome"

fun handle_event :: "(nat \<Rightarrow> time_point) \<Rightarrow> loop_event \<Rightarrow> coordinator \<Rightarrow> coordinator option" where
  "handle_event clock (EvTimers outcome rearm_now) c = map_option (\<lambda>(_, _, c). c) (timers_readable clock outcome rearm_now c)"
| "handle_event clock (EvResult result) c = Some (snd (RecordResultTask clock result c))"
| "handle_event clock (EvHealth route endpoint healthy) c = Some (RecordHealthTask route endpoint healthy c)"
| "handle_event clock (EvDrain route channel) c =
     Some (if route < length (co_outcome_channels c)
           then snd (DrainOneOutcomeChannel clock route (c\<lparr>co_outcome_channels := (co_outcome_channels c)[route := Some channel]\<rparr>))
           else c)"
| "handle_event clock (EvDrainAll channels) c = Some (snd (DrainAllOutcomeChannels clock (c\<lparr>co_outcome_channels := channels\<rparr>)))"
| "handle_event clock (EvClaim route endpoint snapshot) c = Some (snd (Coordinator_ClaimProbe route endpoint snapshot c))"
| "handle_event clock (EvActivate accepted outcomes) c = Some (snd (Activate accepted clock outcomes c))"

fun handle_events :: "(nat \<Rightarrow> time_point) \<Rightarrow> loop_event list \<Rightarrow> coordinator \<Rightarrow> coordinator option" where
  "handle_events clock [] c = Some c"
| "handle_events clock (ev # evs) c = Option.bind (handle_event clock ev c) (handle_events clock evs)"

text \<open>No result about the endpoint is recorded.\<close>

fun event_spares :: "nat \<times> nat \<Rightarrow> loop_event \<Rightarrow> bool" where
  "event_spares re (EvResult result) \<longleftrightarrow> (ar_route_index result, ar_endpoint_index result) \<noteq> re"
| "event_spares re (EvDrain route channel) \<longleftrightarrow> channel_spares (Some re) channel"
| "event_spares re (EvDrainAll channels) \<longleftrightarrow> (\<forall>ch. Some ch \<in> set channels \<longrightarrow> channel_spares (Some re) ch)"
| "event_spares re _ \<longleftrightarrow> True"

text \<open>The endpoint's breaker is open and no pending timer will arm it.\<close>

definition stuck_open :: "nat \<times> nat \<Rightarrow> coordinator \<Rightarrow> bool" where
  "stuck_open re c \<longleftrightarrow> has_loop c \<and> IsOpen (co_state c) (fst re) (snd re)
     \<and> (\<forall>ld. co_loop_data c = Some ld \<longrightarrow> snd ` set (tq_timers (ld_timers ld)) \<subseteq> other_timers (Some re))"

lemma keeps_stuck: "keeps (Some re) now c c' \<Longrightarrow> stuck_open re c \<Longrightarrow> stuck_open re c'"
  by (cases re) (fastforce simp: keeps_def stuck_open_def has_loop_def later_queue_def)

lemma drained_keeps:
  assumes "has_loop c" "keeps watched now (c\<lparr>co_outcome_channels := channels\<rparr>) c'"
  shows "keeps watched now c c'"
  by (rule keeps_trans [OF keeps_same_loop [OF assms(1)] assms(2)]) simp_all

lemma handle_event_keeps:
  assumes loop: "has_loop c" and mono: "mono clock" and "event_spares re ev" "handle_event clock ev c = Some c'"
    and "\<And>outcome rearm_now. ev \<noteq> EvTimers outcome rearm_now"
  shows "keeps (Some re) (clock (co_reads c)) c c'"
  using assms(3-5)
proof (cases ev)
  case (EvResult res)
  have k: "keeps (Some re) (clock (co_reads c)) c (snd (RecordResultDirect clock res c))"
    by (rule RecordResultDirect_keeps [OF loop mono_fresh [OF mono]]) (use assms(3) EvResult in auto)
  from publish_if_keeps [OF k, of True] show ?thesis using assms(4) by (auto simp: EvResult RecordResultTask_def)
next
  case (EvHealth r e ok)
  then show ?thesis using assms(4) RecordHealthTask_keeps [OF loop] by auto
next
  case (EvDrain route ch)
  let ?c = "c\<lparr>co_outcome_channels := (co_outcome_channels c)[route := Some ch]\<rparr>"
  show ?thesis
  proof (cases "route < length (co_outcome_channels c)")
    case True
    have "keeps (Some re) (clock (co_reads c)) ?c (snd (DrainOneOutcomeChannel clock route ?c))"
      by (rule DrainOne_keeps) (use loop mono_fresh [OF mono, of c] assms(3) EvDrain True in \<open>auto simp: has_loop_def fresh_clock_def\<close>)
    from drained_keeps [OF loop this] show ?thesis using assms(4) EvDrain True by auto
  next
    case False
    then show ?thesis using assms(4) EvDrain loop by (auto simp: keeps_same_loop)
  qed
next
  case (EvDrainAll channels)
  let ?c = "c\<lparr>co_outcome_channels := channels\<rparr>"
  have "keeps (Some re) (clock (co_reads c)) ?c (snd (DrainAllOutcomeChannels clock ?c))"
    by (rule DrainAll_keeps) (use loop mono_fresh [OF mono, of c] assms(3) EvDrainAll in \<open>auto simp: has_loop_def fresh_clock_def\<close>)
  from drained_keeps [OF loop this] show ?thesis using assms(4) EvDrainAll by auto
next
  case (EvClaim r e snap)
  show ?thesis
    by (rule keeps_same_loop [OF loop])
      (use assms(4) in \<open>auto simp: EvClaim Coordinator_ClaimProbe_def ClaimProbe_def Let_def IsOpen_def
        split: if_splits option.splits\<close>)
next
  case (EvActivate accepted outcomes)
  then show ?thesis using assms(4) Activate_keeps [OF loop mono_fresh [OF mono]] by auto
qed auto

lemma handle_event_stuck:
  assumes "stuck_open re c" "mono clock" "event_spares re ev"
  shows "\<exists>c'. handle_event clock ev c = Some c' \<and> stuck_open re c'"
proof (cases "\<exists>outcome rearm_now. ev = EvTimers outcome rearm_now")
  case True
  then obtain outcome rearm_now where ev: "ev = EvTimers outcome rearm_now" by blast
  obtain r e where re: "re = (r, e)" by (cases re)
  from assms(1) obtain ld where loop: "has_loop c" and ld: "co_loop_data c = Some ld"
    and opened: "IsOpen (co_state c) r e" and other: "snd ` set (tq_timers (ld_timers ld)) \<subseteq> other_timers (Some re)"
    by (auto simp: stuck_open_def has_loop_def re)
  show ?thesis
    by (rule timers_readable_returns [OF loop ld assms(2) refl, of "Some re" outcome rearm_now])
      (use opened other in \<open>auto simp: ev stuck_open_def re\<close>)
next
  case False
  have "stuck_open re c'" if "handle_event clock ev c = Some c'" for c'
    by (rule keeps_stuck [OF handle_event_keeps [OF _ assms(2,3) that] assms(1)]) (use assms(1) False in \<open>auto simp: stuck_open_def\<close>)
  moreover have "\<exists>c'. handle_event clock ev c = Some c'" using False by (cases ev) auto
  ultimately show ?thesis by blast
qed

lemma handle_events_stuck:
  "stuck_open re c \<Longrightarrow> mono clock \<Longrightarrow> \<forall>ev \<in> set evs. event_spares re ev
   \<Longrightarrow> \<exists>c'. handle_events clock evs c = Some c' \<and> stuck_open re c'"
proof (induction evs arbitrary: c)
  case (Cons ev evs)
  from handle_event_stuck [OF Cons.prems(1,2), of ev] Cons.prems(3) obtain c1 where
    "handle_event clock ev c = Some c1" "stuck_open re c1" by auto
  then show ?case using Cons.IH [of c1] Cons.prems by simp
qed simp

section \<open>Timers are dispatched to the end\<close>

text \<open>
  C30. When the timer descriptor of the coordinator becomes readable, the dispatch loop ends,
  although its callbacks schedule and cancel timers of the same queue: it runs only timers that
  were due when it started, in the order of their deadlines, and unless a callback threw none
  is due when it returns.
\<close>

theorem timers_readable_ends:
  assumes "has_loop c" "co_loop_data c = Some ld" "mono clock" "now = clock (co_reads c)"
  shows "\<exists>fired err c' ld'. timers_readable clock outcome rearm_now c = Some (fired, err, c')
     \<and> has_loop c' \<and> co_loop_data c' = Some ld' \<and> subseq fired (due now (ld_timers ld))
     \<and> (err = None \<longrightarrow> due now (ld_timers ld') = [])"
  by (rule timers_readable_returns [OF assms, of None outcome rearm_now]) (auto simp: other_timers_def)

section \<open>Recovery\<close>

lemma IssueProbes_state [simp]: "cb_state (IssueProbes n b) = cb_state b"
  by (induction n arbitrary: b) (simp_all add: Let_def)

lemma BeginFreshHalfOpenCycle_state [simp]: "cb_state (snd (BeginFreshHalfOpenCycle b)) = kHalfOpen"
  by (simp add: BeginFreshHalfOpenCycle_def AdvanceGeneration_def Let_def)

lemma BreakerState_ArmHalfOpen:
  assumes "IsOpen s r e" "OpenUntil s r e = Some until" "until \<le> now"
  shows "BreakerState (ArmHalfOpen s r e now) r e = kHalfOpen"
proof -
  from assms(1) obtain b where b: "has_endpoint s r e" "es_breaker (endpoint_at s r e) = Some b" "cb_state b = kOpen"
    by (auto simp: IsOpen_def BreakerState_def split: if_splits option.splits)
  obtain cycle b' where c: "BeginFreshHalfOpenCycle b = (cycle, b')" by (cases "BeginFreshHalfOpenCycle b")
  have "cb_state b' = kHalfOpen" using c BeginFreshHalfOpenCycle_state [of b] by simp
  then show ?thesis using b assms(2,3) by (auto simp: ArmHalfOpen_def OpenUntil_def Let_def c BreakerState_def endpoint_at_set)
qed

lemma snapshot_decision:
  assumes "has_endpoint s r e"
  shows "ed_breaker_state (hs_endpoints (fst (BuildSnapshot s)) ! r ! e) = BreakerState s r e"
  using assms by (auto simp: BuildSnapshot_def has_endpoint_def decision_of_def BreakerState_def endpoint_at_def Let_def split: option.splits)

lemma arm_timer_fired_half_open:
  assumes "co_loop_data c \<noteq> None" "IsOpen (co_state c) r e" "OpenUntil (co_state c) r e = Some until" "until \<le> clock (co_reads c)"
  shows "\<exists>c'. arm_timer_fired clock r e c = (None, c') \<and> BreakerState (co_state c') r e = kHalfOpen
    \<and> (\<exists>snapshot. CurrentSnapshot c' = Some snapshot \<and> ed_breaker_state (hs_endpoints snapshot ! r ! e) = kHalfOpen)"
proof -
  let ?s = "ArmHalfOpen (co_state c) r e (clock (co_reads c))"
  have half: "BreakerState ?s r e = kHalfOpen" by (rule BreakerState_ArmHalfOpen [OF assms(2-4)])
  then have "has_endpoint ?s r e" by (auto simp: BreakerState_def split: if_splits)
  from snapshot_decision [OF this] half show ?thesis
    using assms by (auto simp: arm_timer_fired_def Let_def Publish_snapshot_def CurrentSnapshot_def readings_def split_beta)
qed

lemma ScheduleArm_arms:
  assumes loop: "has_loop c" and ld: "co_loop_data c = Some ld" and mono: "mono clock"
    and range: "r < length (ld_arm_timers ld)" "e < length (ld_arm_timers ld ! r)"
    and s: "ScheduleArm clock r e c = (None, c')"
    and until: "OpenUntil (co_state c) r e = Some until" "clock (co_reads c + 1) < until"
  shows "\<exists>ld' key. co_loop_data c' = Some ld' \<and> (key, ArmTimer r e) \<in> set (tq_timers (ld_timers ld'))
    \<and> until \<le> fst key \<and> ld_arm_timers ld' ! r ! e = snd key"
proof -
  have wf: "timers_wf (ld_timers ld)" using loop ld by (simp add: has_loop_def loop_ok_def)
  define t where "t = readings clock c"
  define id where "id = ld_arm_timers ld ! r ! e"
  define q where "q = (if id \<noteq> 0 then snd (Timer_Cancel True (t 0) id (ld_timers ld)) else ld_timers ld)"
  have q: "timers_wf q" using Cancel_later [OF wf, THEN later_queue_wf] wf by (simp add: q_def)
  obtain x q' where sa: "ScheduleAfter True (t 2) (t 3) (until - t 1) (Some (ArmTimer r e)) q = (x, q')" by (metis prod.exhaust)
  have t: "t 1 < until" "t 1 \<le> t 2" using until(2) mono by (simp_all add: t_def readings_def mono_def)
  from s range until(1) t(1) sa obtain i where x: "x = Inr i"
    and c': "c' = set_loop (set_arm r e i ((set_arm r e 0 (ld\<lparr>ld_timers := q\<rparr>))\<lparr>ld_timers := q'\<rparr>)) (reads_used 4 c)"
    by (auto simp: ScheduleArm_def ld Let_def t_def [symmetric] id_def [symmetric] q_def [symmetric] set_arm_def split: sum.splits)
  have at: "ScheduleAt True (t 3) (t 2 + (until - t 1)) (Some (ArmTimer r e)) q = (Inr i, q')"
    using sa x t by (simp add: ScheduleAfter_def split: if_splits)
  have "((t 2 + (until - t 1), i), ArmTimer r e) \<in> set (tq_timers q')"
    using at
  proof (cases rule: ScheduleAt_Inr)
    case (1 action)
    have "(t 2 + (until - t 1), i) \<notin> fst ` set (tq_timers q)" using wf_bounds [OF q] 1(2,3) by fastforce
    then show ?thesis using 1 by (simp add: map_emplace_new)
  qed
  then show ?thesis using range t(2)
    by (intro exI [of _ "set_arm r e i ((set_arm r e 0 (ld\<lparr>ld_timers := q\<rparr>))\<lparr>ld_timers := q'\<rparr>)"]
        exI [of _ "(t 2 + (until - t 1), i)"]) (simp add: c' set_arm_def)
qed

text \<open>
  C31. A breaker that a result leaves open recovers by a timer: recording the result schedules
  a timer for the endpoint, not before the end of the open window, provided the window has not
  ended when the timer is computed; and in every later state of the coordinator in which the
  breaker is still open with that window and the window has ended, the callback of the timer
  makes the breaker half-open and the published snapshot says so.
\<close>

theorem Coordinator_recovery:
  assumes "has_loop c" "co_loop_data c = Some ld" "mono clock"
    and "ar_route_index result = r" "ar_endpoint_index result = e"
    and "r < length (ld_arm_timers ld)" "e < length (ld_arm_timers ld ! r)"
    and "RecordResultDirect clock result c = (None, c1)"
    and "IsOpen (co_state c1) r e" "OpenUntil (co_state c1) r e = Some until" "clock (co_reads c + 2) < until"
    and "co_loop_data c2 \<noteq> None" "IsOpen (co_state c2) r e" "OpenUntil (co_state c2) r e = Some until"
      "until \<le> clock (co_reads c2)"
  shows "(\<exists>ld1 key. co_loop_data c1 = Some ld1 \<and> (key, ArmTimer r e) \<in> set (tq_timers (ld_timers ld1))
            \<and> until \<le> fst key \<and> ld_arm_timers ld1 ! r ! e = snd key)
       \<and> (\<exists>c3 snapshot. coord_timer_fired clock outcome (ArmTimer r e) c2 = (None, c3)
            \<and> BreakerState (co_state c3) r e = kHalfOpen \<and> CurrentSnapshot c3 = Some snapshot
            \<and> ed_breaker_state (hs_endpoints snapshot ! r ! e) = kHalfOpen)"
proof
  define c0 where "c0 = (reads_used 1 c)\<lparr>co_state := RecordResult (co_state c) result (readings clock c 0)\<rparr>"
  note eq = RecordResultDirect_def [of clock result c, unfolded Let_def, folded c0_def]
  have state: "co_state c1 = co_state c0"
    using assms(8) unfolding eq by (auto simp: ScheduleArm_def Let_def split: if_splits option.splits prod.splits sum.splits)
  then have s: "ScheduleArm clock r e c0 = (None, c1)" using assms(4,5,8,9) by (simp add: eq)
  show "\<exists>ld1 key. co_loop_data c1 = Some ld1 \<and> (key, ArmTimer r e) \<in> set (tq_timers (ld_timers ld1))
            \<and> until \<le> fst key \<and> ld_arm_timers ld1 ! r ! e = snd key"
    by (rule ScheduleArm_arms [OF _ _ assms(3,6,7) s])
      (use assms(1,2,10,11) state in \<open>simp_all add: c0_def has_loop_def reads_used_def\<close>)
  show "\<exists>c3 snapshot. coord_timer_fired clock outcome (ArmTimer r e) c2 = (None, c3)
            \<and> BreakerState (co_state c3) r e = kHalfOpen \<and> CurrentSnapshot c3 = Some snapshot
            \<and> ed_breaker_state (hs_endpoints snapshot ! r ! e) = kHalfOpen"
    using arm_timer_fired_half_open [of c2 r e until clock] assms(12-15) by fastforce
qed

section \<open>Runs\<close>

lemma StartPrepared_loop:
  assumes "StartPrepared accepted clock outcomes c = (None, c')"
  obtains ld where "co_loop_data c' = Some ld" "tq_timers (ld_timers ld) = []" "has_loop c'" "co_lifecycle c' = LcPrepared"
    "ld_arm_timers ld = map (\<lambda>r. replicate (length (rt_endpoints r)) 0) (cfg_routes (co_config c))"
  using assms timers_wf_new
  by (auto simp: StartPrepared_def OnLoopInit_def Let_def set_loop_def new_loop_data_def TimerQueue_new_def has_loop_def loop_ok_def
      split: if_splits)

text \<open>A coordinator with a breaker on both endpoints of its route, started; a result opens the second breaker.\<close>

definition run_new :: coordinator where
  "run_new = projr (Coordinator_new (\<lambda>_. 7) (Some probing_config) 0)"

definition run_prepared :: "(nat \<Rightarrow> time_point) \<Rightarrow> coordinator" where
  "run_prepared clock = snd (StartPrepared True clock (\<lambda>_. StartReturns) run_new)"

definition run_active :: "(nat \<Rightarrow> time_point) \<Rightarrow> coordinator" where
  "run_active clock = snd (Activate True clock (\<lambda>_. StartReturns) (run_prepared clock))"

definition steady_clock :: "nat \<Rightarrow> time_point" where
  "steady_clock i = 1000 * int i"

lemma steady_clock_mono: "mono steady_clock"
  by (auto simp: mono_def steady_clock_def)

definition run_opened :: "(nat \<Rightarrow> time_point) \<Rightarrow> coordinator" where
  "run_opened clock = snd (RecordResultDirect clock probing_failure (run_active clock))"

text \<open>The same result as the task of the loop records it, with the snapshot published after it.\<close>

definition run_recorded :: "(nat \<Rightarrow> time_point) \<Rightarrow> coordinator" where
  "run_recorded clock = snd (RecordResultTask clock probing_failure (run_active clock))"

text \<open>The clock jumps past the open window after its fifth reading.\<close>

definition late_clock :: "nat \<Rightarrow> time_point" where
  "late_clock i = (if i < 5 then 1000 * int i else 20000000000)"

lemma late_clock_mono: "mono late_clock"
  by (auto simp: mono_def late_clock_def)

lemmas run_simps = run_new_def run_prepared_def run_active_def run_opened_def run_recorded_def

lemma run_active_loop:
  assumes "fst (StartPrepared True clock (\<lambda>_. StartReturns) run_new) = None" "mono clock"
  shows "has_loop (run_active clock)"
proof -
  have s: "StartPrepared True clock (\<lambda>_. StartReturns) run_new = (None, run_prepared clock)"
    using assms(1) by (simp add: run_prepared_def prod_eq_iff)
  have "has_loop (run_prepared clock)" by (rule StartPrepared_loop [OF s])
  from Activate_keeps [OF this mono_fresh [OF assms(2)], THEN keeps_has_loop] show ?thesis by (simp add: run_active_def)
qed

lemma run_late_active: "has_loop (run_active late_clock)"
  by (rule run_active_loop [OF _ late_clock_mono]) code_simp

lemma run_late: "has_loop (run_opened late_clock)"
proof -
  from RecordResultDirect_keeps [OF run_late_active mono_fresh [OF late_clock_mono], of None, THEN keeps_has_loop]
  show ?thesis by (simp add: run_opened_def)
qed

definition run_loop :: "coordinator \<Rightarrow> loop_data" where
  "run_loop c = the (co_loop_data c)"

theorem timers_readable_ends_witness:
  "due 20000000000 (ld_timers (run_loop (run_opened late_clock))) = [(3000001000, 1)]
   \<and> (\<exists>fired err c' ld'. timers_readable late_clock StartReturns 0 (run_opened late_clock) = Some (fired, err, c')
     \<and> has_loop c' \<and> co_loop_data c' = Some ld'
     \<and> subseq fired (due 20000000000 (ld_timers (run_loop (run_opened late_clock))))
     \<and> (err = None \<longrightarrow> due 20000000000 (ld_timers ld') = []))"
proof
  show "due 20000000000 (ld_timers (run_loop (run_opened late_clock))) = [(3000001000, 1)]" by code_simp
  have ld: "co_loop_data (run_opened late_clock) = Some (run_loop (run_opened late_clock))"
    using run_late by (auto simp: has_loop_def run_loop_def)
  have now: "20000000000 = late_clock (co_reads (run_opened late_clock))" by code_simp
  show "\<exists>fired err c' ld'. timers_readable late_clock StartReturns 0 (run_opened late_clock) = Some (fired, err, c')
     \<and> has_loop c' \<and> co_loop_data c' = Some ld'
     \<and> subseq fired (due 20000000000 (ld_timers (run_loop (run_opened late_clock))))
     \<and> (err = None \<longrightarrow> due 20000000000 (ld_timers ld') = [])"
    by (rule timers_readable_ends [OF run_late ld late_clock_mono now])
qed

theorem Coordinator_recovery_witness:
  "IsOpen (co_state (run_opened late_clock)) 0 1
   \<and> (\<exists>ld1 key. co_loop_data (run_opened late_clock) = Some ld1 \<and> (key, ArmTimer 0 1) \<in> set (tq_timers (ld_timers ld1))
        \<and> 3000000000 \<le> fst key \<and> ld_arm_timers ld1 ! 0 ! 1 = snd key)
   \<and> (\<exists>c3 snapshot. coord_timer_fired late_clock StartReturns (ArmTimer 0 1) (run_recorded late_clock) = (None, c3)
        \<and> BreakerState (co_state c3) 0 1 = kHalfOpen \<and> CurrentSnapshot c3 = Some snapshot
        \<and> ed_breaker_state (hs_endpoints snapshot ! 0 ! 1) = kHalfOpen)"
proof -
  have ld: "co_loop_data (run_active late_clock) = Some (run_loop (run_active late_clock))"
    using run_late_active by (auto simp: has_loop_def run_loop_def)
  have err: "fst (RecordResultDirect late_clock probing_failure (run_active late_clock)) = None" by code_simp
  have r: "RecordResultDirect late_clock probing_failure (run_active late_clock) = (None, run_opened late_clock)"
    using err by (simp add: run_opened_def prod_eq_iff)
  have opened: "IsOpen (co_state (run_opened late_clock)) 0 1"
    and until: "OpenUntil (co_state (run_opened late_clock)) 0 1 = Some 3000000000" by code_simp+
  have later: "co_loop_data (run_recorded late_clock) \<noteq> None" "IsOpen (co_state (run_recorded late_clock)) 0 1"
    "OpenUntil (co_state (run_recorded late_clock)) 0 1 = Some 3000000000" by code_simp+
  show ?thesis
    by (rule conjI [OF opened], rule Coordinator_recovery [OF run_late_active ld late_clock_mono _ _ _ _ r opened until _ later])
      (simp add: probing_failure_def, simp add: probing_failure_def, code_simp+)
qed

section \<open>Breakers that stay open\<close>

lemma stuck_events:
  assumes "stuck_open (r, e) c" "mono clock" "\<forall>ev \<in> set evs. event_spares (r, e) ev"
  shows "\<exists>c'. handle_events clock evs c = Some c' \<and> IsOpen (co_state c') r e"
  using handle_events_stuck [OF assms] by (auto simp: stuck_open_def)

text \<open>
  C32. An open breaker that a reload carries over is never armed: after the import into the
  prepared coordinator, activation and every sequence of loop events without a result about
  that endpoint leave the breaker open, whatever time passes.  An open breaker admits no
  requests, so it gets no results.
\<close>

theorem imported_breaker_stays_open:
  assumes "StartPrepared accepted clock outcomes c = (None, c1)"
    and "ImportProtectionSnapshotAndWait True True clock snapshot c1 = (True, c2)"
    and "IsOpen (co_state c2) r e" "mono clock" "\<forall>ev \<in> set evs. event_spares (r, e) ev"
  shows "\<exists>c3. handle_events clock evs c2 = Some c3 \<and> IsOpen (co_state c3) r e"
proof -
  obtain ld where ld: "co_loop_data c1 = Some ld" "tq_timers (ld_timers ld) = []" "has_loop c1"
    by (rule StartPrepared_loop [OF assms(1)])
  have "co_loop_data c2 = co_loop_data c1"
    using assms(2) by (auto simp: ImportProtectionSnapshotAndWait_def Publish_snapshot_def split_beta Let_def split: if_splits)
  then have "stuck_open (r, e) c2" using ld assms(3) by (auto simp: stuck_open_def has_loop_def)
  then show ?thesis by (rule stuck_events [OF _ assms(4,5)])
qed

definition run_import :: "bool \<times> coordinator" where
  "run_import = ImportProtectionSnapshotAndWait True True steady_clock
     (ExportProtectionSnapshot (co_state (run_opened steady_clock)) 10000) (run_prepared steady_clock)"

theorem imported_breaker_stays_open_witness:
  "IsOpen (co_state (snd run_import)) 0 1
   \<and> (\<exists>c3. handle_events steady_clock [EvActivate True (\<lambda>_. StartReturns), EvTimers StartReturns 0, EvHealth 0 1 True]
        (snd run_import) = Some c3 \<and> IsOpen (co_state c3) 0 1)"
proof
  show opened: "IsOpen (co_state (snd run_import)) 0 1" by code_simp
  have start: "StartPrepared True steady_clock (\<lambda>_. StartReturns) run_new = (None, run_prepared steady_clock)"
  proof -
    have "fst (StartPrepared True steady_clock (\<lambda>_. StartReturns) run_new) = None" by code_simp
    then show ?thesis by (simp add: run_prepared_def prod_eq_iff)
  qed
  have "fst run_import" by code_simp
  then have imported: "ImportProtectionSnapshotAndWait True True steady_clock
      (ExportProtectionSnapshot (co_state (run_opened steady_clock)) 10000) (run_prepared steady_clock) = (True, snd run_import)"
    by (simp add: run_import_def prod_eq_iff)
  show "\<exists>c3. handle_events steady_clock [EvActivate True (\<lambda>_. StartReturns), EvTimers StartReturns 0, EvHealth 0 1 True]
        (snd run_import) = Some c3 \<and> IsOpen (co_state c3) 0 1"
    by (rule imported_breaker_stays_open [OF start imported opened steady_clock_mono]) simp
qed

lemma ScheduleArm_disarms:
  assumes loop: "has_loop c" and ld: "co_loop_data c = Some ld"
    and range: "r < length (ld_arm_timers ld)" "e < length (ld_arm_timers ld ! r)"
    and table: "\<forall>key. (key, ArmTimer r e) \<in> set (tq_timers (ld_timers ld)) \<longrightarrow> snd key = ld_arm_timers ld ! r ! e"
    and opened: "IsOpen (co_state c) r e" "OpenUntil (co_state c) r e = Some until" "until \<le> clock (co_reads c + 1)"
  shows "stuck_open (r, e) (snd (ScheduleArm clock r e c))"
proof -
  have wf: "timers_wf (ld_timers ld)" and ok: "\<forall>x \<in> set (ld_checkers ld). checker_ok (snd (snd x))"
    using loop ld by (simp_all add: has_loop_def loop_ok_def)
  define t where "t = readings clock c"
  define id where "id = ld_arm_timers ld ! r ! e"
  define q where "q = (if id \<noteq> 0 then snd (Timer_Cancel True (t 0) id (ld_timers ld)) else ld_timers ld)"
  have q: "timers_wf q" using Cancel_later [OF wf, THEN later_queue_wf] wf by (simp add: q_def)
  have "t 1 = clock (co_reads c + 1)" by (simp add: t_def readings_def)
  then have eq: "ScheduleArm clock r e c = (None, set_loop (set_arm r e 0 (ld\<lparr>ld_timers := q\<rparr>)) (reads_used 4 c))"
    using range opened by (simp add: ScheduleArm_def ld Let_def t_def [symmetric] id_def [symmetric] q_def [symmetric])
  have gone: "(key, ArmTimer r e) \<notin> set (tq_timers q)" for key
  proof
    assume in_q: "(key, ArmTimer r e) \<in> set (tq_timers q)"
    have sub: "set (tq_timers q) \<subseteq> set (tq_timers (ld_timers ld))"
    proof (cases "id = 0")
      case False
      obtain x q1 where c: "Timer_Cancel True (t 0) id (ld_timers ld) = (x, q1)" by (metis prod.exhaust)
      from c show ?thesis by (cases rule: Cancel_cases) (use False c in \<open>auto simp: q_def set_map_erase\<close>)
    qed (simp add: q_def)
    have in_ld: "(key, ArmTimer r e) \<in> set (tq_timers (ld_timers ld))" by (rule subsetD [OF sub in_q])
    have key: "snd key = id" using table [rule_format, OF in_ld] by (simp add: id_def)
    have pend: "key \<in> set (timer_keys (ld_timers ld))" using in_ld unfolding set_map by (metis fst_conv image_eqI)
    have nz: "id \<noteq> 0" using wf_bounds [OF wf pend] unfolding key by blast
    have "tq_by_identifier (ld_timers ld) id = Some key" by (rule wf_index [OF wf, THEN iffD2, OF conjI [OF pend key]])
    with in_q nz show False by (simp add: q_def Timer_Cancel_def Rearm_def Let_def set_map_erase)
  qed
  have "snd ` set (tq_timers q) \<subseteq> other_timers (Some (r, e))" using gone by (auto simp: other_timers_def)
  then show ?thesis using q ok opened(1) by (auto simp: eq stuck_open_def has_loop_def loop_ok_def)
qed

text \<open>
  C33. A result that arrives for an open endpoint after its open window ended, but before the
  timer ran, cancels that timer and sets no other: from then on every sequence of loop events
  without a further result about the endpoint leaves the breaker open.
\<close>

theorem late_result_leaves_open:
  assumes "has_loop c" "co_loop_data c = Some ld" "mono clock"
    and "ar_route_index result = r" "ar_endpoint_index result = e"
    and "r < length (ld_arm_timers ld)" "e < length (ld_arm_timers ld ! r)"
    and "\<forall>key. (key, ArmTimer r e) \<in> set (tq_timers (ld_timers ld)) \<longrightarrow> snd key = ld_arm_timers ld ! r ! e"
    and "RecordResultDirect clock result c = (err, c1)"
    and "IsOpen (co_state c1) r e" "OpenUntil (co_state c1) r e = Some until" "until \<le> clock (co_reads c + 2)"
    and "\<forall>ev \<in> set evs. event_spares (r, e) ev"
  shows "\<exists>c2. handle_events clock evs c1 = Some c2 \<and> IsOpen (co_state c2) r e"
proof -
  define c0 where "c0 = (reads_used 1 c)\<lparr>co_state := RecordResult (co_state c) result (readings clock c 0)\<rparr>"
  note eq = RecordResultDirect_def [of clock result c, unfolded Let_def, folded c0_def]
  have state: "co_state c1 = co_state c0"
    using assms(9) unfolding eq by (auto simp: ScheduleArm_def Let_def split: if_splits option.splits prod.splits sum.splits)
  then have s: "c1 = snd (ScheduleArm clock r e c0)" using assms(4,5,9,10) by (simp add: eq)
  have "stuck_open (r, e) c1" unfolding s
    by (rule ScheduleArm_disarms [OF _ _ assms(6-8)])
      (use assms(1,2,10-12) state in \<open>simp_all add: c0_def has_loop_def reads_used_def\<close>)
  then show ?thesis by (rule stuck_events [OF _ assms(3,13)])
qed

definition run_late_result :: coordinator where
  "run_late_result = snd (RecordResultDirect late_clock probing_failure (run_opened late_clock))"

lemma run_late_timers: "tq_timers (ld_timers (run_loop (run_opened late_clock))) = [((3000001000, 1), ArmTimer 0 1)]"
  by code_simp

lemma run_late_arms: "ld_arm_timers (run_loop (run_opened late_clock)) = [[0, 1]]"
  by code_simp

lemma run_late_open: "IsOpen (co_state run_late_result) 0 1"
  by code_simp

lemma run_late_until: "OpenUntil (co_state run_late_result) 0 1 = Some 3000000000"
  by code_simp

lemma run_late_now: "3000000000 \<le> late_clock (co_reads (run_opened late_clock) + 2)"
  by code_simp

theorem late_result_leaves_open_witness:
  "ArmTimer 0 1 \<in> snd ` set (tq_timers (ld_timers (run_loop (run_opened late_clock))))
   \<and> (\<exists>c2. handle_events late_clock [EvTimers StartReturns 0, EvHealth 0 1 True] run_late_result = Some c2
      \<and> IsOpen (co_state c2) 0 1)"
proof
  let ?c = "run_opened late_clock"
  show "ArmTimer 0 1 \<in> snd ` set (tq_timers (ld_timers (run_loop ?c)))" by (simp add: run_late_timers)
  have ld: "co_loop_data ?c = Some (run_loop ?c)" using run_late by (auto simp: has_loop_def run_loop_def)
  have r: "RecordResultDirect late_clock probing_failure ?c
      = (fst (RecordResultDirect late_clock probing_failure ?c), run_late_result)"
    by (simp add: run_late_result_def)
  have at: "ar_route_index probing_failure = 0" "ar_endpoint_index probing_failure = 1" by (simp_all add: probing_failure_def)
  show "\<exists>c2. handle_events late_clock [EvTimers StartReturns 0, EvHealth 0 1 True] run_late_result = Some c2
      \<and> IsOpen (co_state c2) 0 1"
    by (rule late_result_leaves_open [OF run_late ld late_clock_mono at _ _ _ r run_late_open run_late_until run_late_now])
      (simp_all add: run_late_timers run_late_arms)
qed

end
