(* ===== verification/Selection.thy ===== *)
theory Selection
  imports Coordinator
begin

text \<open>
  Choosing the endpoint of an upstream attempt: the rotation cursors and active counters of a
  worker (\<open>runtime/SelectionState\<close>), and the selector that a request uses for its first attempt
  and for every retry (\<open>runtime/AttemptSelector\<close>).  A call of the selector reads the published
  snapshot and the live probe slots of the coordinator, claims a probe where the breaker is
  half-open, and reserves an outcome slot before the attempt may connect.
\<close>

section \<open>Worker-local selection state\<close>

record selection_state =
  ss_config :: config
  ss_version :: u64
  ss_selectors :: "weighted_round_robin list"
  ss_active_counts :: "active_state list list"

definition SelectionState_new :: "config \<Rightarrow> u64 \<Rightarrow> cpp_error + selection_state" where
  "SelectionState_new config version =
     res_bind (res_map (\<lambda>r. WeightedRoundRobin_new (rt_endpoints r)) (cfg_routes config)) (\<lambda>selectors.
       Inr \<lparr>ss_config = config, ss_version = version, ss_selectors = selectors,
            ss_active_counts = map (\<lambda>r. replicate (length (rt_endpoints r)) \<lparr>act_count = 0\<rparr>) (cfg_routes config)\<rparr>)"

definition route_endpoints :: "selection_state \<Rightarrow> nat \<Rightarrow> endpoint list" where
  "route_endpoints s route = rt_endpoints (cfg_routes (ss_config s) ! route)"

text \<open>Advancing the cursor of a route, and the position of the selected endpoint in the configuration.\<close>

definition advance_cursor :: "nat \<Rightarrow> selection_state \<Rightarrow> endpoint \<times> selection_state" where
  "advance_cursor route s =
     (let w = ss_selectors s ! route; (index, w') = WeightedRoundRobin_Next w
      in (wrr_endpoints w ! index, s\<lparr>ss_selectors := (ss_selectors s)[route := w']\<rparr>))"

definition same_endpoint :: "endpoint \<Rightarrow> endpoint \<Rightarrow> bool" where
  "same_endpoint selected e \<longleftrightarrow> ep_address e = ep_address selected \<and> ep_port e = ep_port selected"

definition NextWeightedIndex :: "nat \<Rightarrow> selection_state \<Rightarrow> nat option \<times> selection_state" where
  "NextWeightedIndex route s =
     (if route \<ge> length (ss_selectors s) then (None, s)
      else let (selected, s) = advance_cursor route s
           in (find_index (same_endpoint selected) (route_endpoints s route), s))"

definition ActiveFor :: "nat \<Rightarrow> nat \<Rightarrow> selection_state \<Rightarrow> nat" where
  "ActiveFor route endpoint s =
     (if route \<ge> length (ss_active_counts s) \<or> endpoint \<ge> length (ss_active_counts s ! route) then 0
      else act_count (ss_active_counts s ! route ! endpoint))"

text \<open>The untried and eligible endpoints in rotation order, starting at the owner of the cursor.\<close>

definition candidates :: "nat \<Rightarrow> nat \<Rightarrow> nat set \<Rightarrow> (nat \<Rightarrow> bool) \<Rightarrow> nat list" where
  "candidates start count tried eligible =
     filter (\<lambda>index. \<not> (index \<in> tried \<or> \<not> eligible index)) (map (\<lambda>step. (start + step) mod count) [0..<count])"

definition NextLeastActiveIndex ::
    "nat \<Rightarrow> nat set \<Rightarrow> (nat \<Rightarrow> bool) \<Rightarrow> selection_state \<Rightarrow> nat option \<times> selection_state" where
  "NextLeastActiveIndex route tried eligible s =
     (if route \<ge> length (ss_selectors s) then (None, s)
      else let count = length (route_endpoints s route) in
        if count = 0 then (None, s)
        else let (owner, s) = advance_cursor route s in
          case find_index (same_endpoint owner) (route_endpoints s route) of
            None \<Rightarrow> (None, s)
          | Some start \<Rightarrow>
              let scan = candidates start count tried eligible;
                  active_at = (\<lambda>index. act_count (ss_active_counts s ! route ! index));
                  minimum = fold (\<lambda>index m. min m (active_at index)) scan u32_max
              in if scan = [] then (None, s)
                 else (case filter (\<lambda>index. active_at index = minimum) scan of
                         [] \<Rightarrow> (None, s)
                       | index # _ \<Rightarrow> (Some index, s)))"

text \<open>The acquired slot is named by its route and endpoint.\<close>

definition AcquireActive :: "nat \<Rightarrow> nat \<Rightarrow> selection_state \<Rightarrow> (nat \<times> nat) option \<times> selection_state" where
  "AcquireActive route endpoint s =
     (if route \<ge> length (ss_active_counts s) \<or> endpoint \<ge> length (ss_active_counts s ! route) then (None, s)
      else (Some (route, endpoint),
            s\<lparr>ss_active_counts := (ss_active_counts s)[route := (ss_active_counts s ! route)
                [endpoint := snd (Active_AcquireOne (ss_active_counts s ! route ! endpoint))]]\<rparr>))"

section \<open>The selector of a request\<close>

record breaker_link =
  bl_route_index :: nat
  bl_endpoint_index :: nat
  bl_permit :: attempt_permit
  bl_outcome_reservation :: reservation

record attempt_selection =
  at_endpoint :: endpoint
  at_link :: "breaker_link option"
  at_active :: "(nat \<times> nat) option"

type_synonym attempt_decision = "attempt_selection option \<times> bool"

text \<open>\<open>sr_snapshot\<close> is the request's configuration, absent when the request has no generation.\<close>

record attempt_selector =
  sr_route_index :: nat
  sr_snapshot :: "config option"
  sr_overload :: bool
  sr_tried :: "nat set"

definition AttemptSelector_new :: "config option \<Rightarrow> nat \<Rightarrow> attempt_selector" where
  "AttemptSelector_new snapshot route = \<lparr>sr_route_index = route, sr_snapshot = snapshot, sr_overload = False, sr_tried = {}\<rparr>"

text \<open>A selector together with the worker's selection state and the coordinator it works on.\<close>

type_synonym selecting = "attempt_selector \<times> selection_state \<times> coordinator"

definition Eligible :: "nat \<Rightarrow> coordinator \<Rightarrow> health_circuit_snapshot \<Rightarrow> nat \<Rightarrow> bool" where
  "Eligible route c snapshot endpoint =
     (if route \<ge> length (hs_endpoints snapshot) \<or> endpoint \<ge> length (hs_endpoints snapshot ! route) then False
      else let decision = hs_endpoints snapshot ! route ! endpoint in
        if \<not> ed_healthy decision then False
        else if ed_breaker_state decision = kOpen then False
        else if ed_breaker_state decision = kHalfOpen \<and> \<not> Coordinator_ProbeAvailable route endpoint c then False
        else True)"

text \<open>The permit and the outcome reservation of an attempt that is accounted by a breaker.\<close>

definition MakeSelection ::
    "nat \<Rightarrow> health_circuit_snapshot \<Rightarrow> config \<Rightarrow> selecting \<Rightarrow> attempt_selection option \<times> selecting" where
  "MakeSelection endpoint snapshot cfg = (\<lambda>(sr, ss, c).
     let route = sr_route_index sr;
         decision = hs_endpoints snapshot ! route ! endpoint;
         finish = (\<lambda>link (sr, ss, c).
           let (active, ss) = AcquireActive route endpoint ss
           in (Some \<lparr>at_endpoint = rt_endpoints (cfg_routes cfg ! route) ! endpoint, at_link = link, at_active = active\<rparr>,
               sr, ss, c))
     in if ed_generation decision \<noteq> 0 then
          let (permit, c) =
            (if ed_breaker_state decision = kHalfOpen then Coordinator_ClaimProbe route endpoint snapshot c
             else (Some \<lparr>ap_probe = False, ap_generation = ed_generation decision, ap_probe_id = 0\<rparr>, c))
          in case permit of
               None \<Rightarrow> (None, sr, ss, c)
             | Some permit \<Rightarrow>
                 let (r, c) = ReserveOutcome route c
                 in (case r of
                       None \<Rightarrow> (None, sr\<lparr>sr_overload := True\<rparr>, ss, c)
                     | Some r \<Rightarrow> finish (Some \<lparr>bl_route_index = route, bl_endpoint_index = endpoint, bl_permit = permit,
                                   bl_outcome_reservation = r\<rparr>) (sr, ss, c))
        else finish None (sr, ss, c))"

fun select_weighted ::
    "nat \<Rightarrow> health_circuit_snapshot \<Rightarrow> config \<Rightarrow> selecting \<Rightarrow> attempt_decision \<times> selecting" where
  "select_weighted 0 snapshot cfg (sr, ss, c) = ((None, sr_overload sr), sr, ss, c)"
| "select_weighted (Suc attempts) snapshot cfg (sr, ss, c) =
     (let (index, ss) = NextWeightedIndex (sr_route_index sr) ss in
      case index of
        None \<Rightarrow> select_weighted attempts snapshot cfg (sr, ss, c)
      | Some index \<Rightarrow>
          if index \<in> sr_tried sr then select_weighted attempts snapshot cfg (sr, ss, c)
          else
            let sr = sr\<lparr>sr_tried := insert index (sr_tried sr)\<rparr> in
            if \<not> Eligible (sr_route_index sr) c snapshot index then select_weighted attempts snapshot cfg (sr, ss, c)
            else case MakeSelection index snapshot cfg (sr, ss, c) of
                   (Some selection, s) \<Rightarrow> ((Some selection, False), s)
                 | (None, s) \<Rightarrow> select_weighted attempts snapshot cfg s)"

section \<open>What the operations keep\<close>

definition selection_wf :: "selection_state \<Rightarrow> bool" where
  "selection_wf s \<longleftrightarrow> length (ss_selectors s) = length (cfg_routes (ss_config s))
     \<and> (\<forall>route < length (ss_selectors s). wrr_endpoints (ss_selectors s ! route) = route_endpoints s route)
     \<and> length (ss_active_counts s) = length (ss_selectors s)
     \<and> (\<forall>route < length (ss_selectors s). length (ss_active_counts s ! route) = length (route_endpoints s route)
          \<and> (\<forall>a \<in> set (ss_active_counts s ! route). act_count a \<le> u32_max))"

lemma wrr_scan_bound: "wrr_scan es w u i = Some j \<Longrightarrow> i \<le> j \<and> j < i + length es"
  by (induction es w u i rule: wrr_scan.induct) (auto simp: Let_def split: if_splits)

lemma WeightedRoundRobin_Next_bound:
  "wrr_endpoints w \<noteq> [] \<Longrightarrow> fst (WeightedRoundRobin_Next w) < length (wrr_endpoints w)"
  using wrr_scan_bound [of "wrr_endpoints w" "wrr_next_weight w" 0 0]
  by (auto simp: WeightedRoundRobin_Next_def Let_def split: option.splits)

lemma WeightedRoundRobin_Next_endpoints [simp]: "wrr_endpoints (snd (WeightedRoundRobin_Next w)) = wrr_endpoints w"
  by (simp add: WeightedRoundRobin_Next_def Let_def)

lemma advance_cursor_eq:
  "advance_cursor route s =
     (wrr_endpoints (ss_selectors s ! route) ! fst (WeightedRoundRobin_Next (ss_selectors s ! route)),
      s\<lparr>ss_selectors := (ss_selectors s)[route := snd (WeightedRoundRobin_Next (ss_selectors s ! route))]\<rparr>)"
  by (simp add: advance_cursor_def split_beta Let_def)

lemma advance_cursor_frame:
  assumes "advance_cursor route s = (owner, s')"
  shows "ss_config s' = ss_config s" "ss_active_counts s' = ss_active_counts s"
    and "length (ss_selectors s') = length (ss_selectors s)"
    and "selection_wf s \<Longrightarrow> selection_wf s'"
proof -
  have s': "s' = s\<lparr>ss_selectors := (ss_selectors s)[route := snd (WeightedRoundRobin_Next (ss_selectors s ! route))]\<rparr>"
    using assms by (simp add: advance_cursor_eq)
  show "ss_config s' = ss_config s" "ss_active_counts s' = ss_active_counts s"
    "length (ss_selectors s') = length (ss_selectors s)" by (simp_all add: s')
  show "selection_wf s'" if "selection_wf s"
  proof -
    have "wrr_endpoints (ss_selectors s' ! r) = route_endpoints s r" if r: "r < length (ss_selectors s)" for r
      using \<open>selection_wf s\<close> r by (cases "r = route") (simp_all add: s' selection_wf_def)
    then show ?thesis using that by (simp add: selection_wf_def s' route_endpoints_def)
  qed
qed

lemma advance_cursor_owner:
  assumes "selection_wf s" "route < length (ss_selectors s)" "route_endpoints s route \<noteq> []"
    and "advance_cursor route s = (owner, s')"
  shows "owner \<in> set (route_endpoints s route)"
proof -
  let ?w = "ss_selectors s ! route"
  have w: "wrr_endpoints ?w = route_endpoints s route" using assms(1,2) by (simp add: selection_wf_def)
  have "owner = wrr_endpoints ?w ! fst (WeightedRoundRobin_Next ?w)"
    using assms(4) by (simp add: advance_cursor_eq)
  then show ?thesis using WeightedRoundRobin_Next_bound [of ?w] assms(3) by (simp add: w)
qed

lemma find_index_None: "find_index P xs = None \<longleftrightarrow> (\<forall>x \<in> set xs. \<not> P x)"
  by (auto simp: find_index_def)

lemma set_candidates:
  assumes "start < count"
  shows "set (candidates start count tried eligible) = {i. i < count \<and> i \<notin> tried \<and> eligible i}"
proof -
  have "\<exists>step < count. i = (start + step) mod count" if "i < count" for i
  proof (cases "start \<le> i")
    case True
    then show ?thesis using that by (intro exI [of _ "i - start"]) auto
  next
    case False
    then have "start + (count + i - start) = i + count" using assms by simp
    then show ?thesis using that False assms by (intro exI [of _ "count + i - start"]) auto
  qed
  then have "(\<lambda>step. (start + step) mod count) ` {0..<count} = {0..<count}" using assms by fastforce
  then show ?thesis by (auto simp: candidates_def)
qed

lemma fold_min: "fold (\<lambda>i m. min m (f i)) xs b = Min (insert b (f ` set xs))" for f :: "'a \<Rightarrow> nat"
proof (induction xs arbitrary: b)
  case (Cons x xs)
  have "Min (insert (min b (f x)) (f ` set xs)) = Min (insert b (insert (f x) (f ` set xs)))"
    by (cases "set xs = {}") (auto simp: min.assoc)
  then show ?case by (simp add: Cons)
qed simp

lemma NextLeastActiveIndex_frame:
  assumes "NextLeastActiveIndex route tried eligible s = (r, s')"
  shows "ss_config s' = ss_config s" "ss_active_counts s' = ss_active_counts s" "selection_wf s \<Longrightarrow> selection_wf s'"
    and "length (ss_selectors s') = length (ss_selectors s)"
proof -
  have "s' = s \<or> (\<exists>owner. advance_cursor route s = (owner, s'))"
    using assms by (cases "advance_cursor route s") (auto simp: NextLeastActiveIndex_def Let_def split: if_splits option.splits list.splits)
  then show "ss_config s' = ss_config s" "ss_active_counts s' = ss_active_counts s" "selection_wf s \<Longrightarrow> selection_wf s'"
    "length (ss_selectors s') = length (ss_selectors s)"
    using advance_cursor_frame [of route s _ s'] by (elim disjE exE; simp)+
qed

text \<open>The scan proper, from the owner of the cursor.\<close>

lemma NextLeastActiveIndex_cases:
  assumes "NextLeastActiveIndex route tried eligible s = (r, s')" "route < length (ss_selectors s)" "route_endpoints s route \<noteq> []"
  obtains (no_owner) owner where "advance_cursor route s = (owner, s')" "r = None"
      "find_index (same_endpoint owner) (route_endpoints s route) = None"
  | (scan) owner start where "advance_cursor route s = (owner, s')" "start < length (route_endpoints s route)"
      "r = (let scan = candidates start (length (route_endpoints s route)) tried eligible;
                active_at = (\<lambda>index. act_count (ss_active_counts s ! route ! index));
                minimum = fold (\<lambda>index m. min m (active_at index)) scan u32_max
            in if scan = [] then None
               else case filter (\<lambda>index. active_at index = minimum) scan of [] \<Rightarrow> None | index # _ \<Rightarrow> Some index)"
proof -
  obtain owner s1 where a: "advance_cursor route s = (owner, s1)" by (cases "advance_cursor route s")
  note frame = advance_cursor_frame [OF a]
  have ends: "route_endpoints s1 route = route_endpoints s route" by (simp add: route_endpoints_def frame)
  show thesis
  proof (cases "find_index (same_endpoint owner) (route_endpoints s route)")
    case None
    then show thesis using assms a ends by (intro no_owner) (auto simp: NextLeastActiveIndex_def Let_def)
  next
    case (Some start)
    show thesis
      by (rule scan [of owner start]) (use assms a ends Some find_index_Some(1) [OF Some] frame in
        \<open>auto simp: NextLeastActiveIndex_def Let_def split: if_splits list.splits\<close>)
  qed
qed

lemma NextLeastActiveIndex_Some:
  assumes n: "NextLeastActiveIndex route tried eligible s = (Some i, s')"
  shows "i < length (route_endpoints s route)" "i \<notin> tried" "eligible i"
    and "\<And>j. j < length (route_endpoints s route) \<Longrightarrow> j \<notin> tried \<Longrightarrow> eligible j \<Longrightarrow>
      act_count (ss_active_counts s ! route ! i) \<le> act_count (ss_active_counts s ! route ! j)"
proof -
  have len: "route < length (ss_selectors s)" "route_endpoints s route \<noteq> []"
    using n by (auto simp: NextLeastActiveIndex_def Let_def split: if_splits)
  define act where "act = (\<lambda>index. act_count (ss_active_counts s ! route ! index))"
  have "i < length (route_endpoints s route) \<and> i \<notin> tried \<and> eligible i
    \<and> (\<forall>j < length (route_endpoints s route). j \<notin> tried \<longrightarrow> eligible j \<longrightarrow> act i \<le> act j)"
    using n len
  proof (cases rule: NextLeastActiveIndex_cases)
    case (scan owner start)
    let ?scan = "candidates start (length (route_endpoints s route)) tried eligible"
    note set = set_candidates [OF scan(2), of tried eligible]
    have min: "fold (\<lambda>index m. min m (act index)) ?scan u32_max = Min (insert u32_max (act ` set ?scan))" by (rule fold_min)
    from scan(3) obtain rest where
      "filter (\<lambda>index. act index = fold (\<lambda>index m. min m (act index)) ?scan u32_max) ?scan = i # rest"
      by (auto simp: Let_def act_def [symmetric] split: if_splits list.splits)
    then have "i \<in> set (filter (\<lambda>index. act index = fold (\<lambda>index m. min m (act index)) ?scan u32_max) ?scan)" by simp
    then have i: "i \<in> set ?scan" "act i = Min (insert u32_max (act ` set ?scan))" unfolding min by simp_all
    have "act i \<le> act j" if "j \<in> set ?scan" for j unfolding i(2) by (rule Min_le) (use that in simp_all)
    with i(1) show ?thesis unfolding set by blast
  qed simp
  then show "i < length (route_endpoints s route)" "i \<notin> tried" "eligible i"
    and "\<And>j. j < length (route_endpoints s route) \<Longrightarrow> j \<notin> tried \<Longrightarrow> eligible j \<Longrightarrow>
      act_count (ss_active_counts s ! route ! i) \<le> act_count (ss_active_counts s ! route ! j)"
    by (auto simp: act_def)
qed

lemma MakeSelection_frame:
  assumes "MakeSelection i snapshot cfg (sr, ss, c) = (r, sr', ss', c')"
  shows "sr_tried sr' = sr_tried sr" "sr_route_index sr' = sr_route_index sr" "ss_config ss' = ss_config ss"
    and "ss_selectors ss' = ss_selectors ss"
  using assms by (auto simp: MakeSelection_def Let_def AcquireActive_def split: if_splits prod.splits option.splits)

text \<open>The loop ends because every round adds an endpoint of the route to the tried ones.\<close>

function select_least_active ::
    "health_circuit_snapshot \<Rightarrow> config \<Rightarrow> selecting \<Rightarrow> attempt_decision \<times> selecting" where
  "select_least_active snapshot cfg (sr, ss, c) =
     (case NextLeastActiveIndex (sr_route_index sr) (sr_tried sr) (Eligible (sr_route_index sr) c snapshot) ss of
        (None, ss) \<Rightarrow> ((None, sr_overload sr), sr, ss, c)
      | (Some index, ss) \<Rightarrow>
          (case MakeSelection index snapshot cfg (sr\<lparr>sr_tried := insert index (sr_tried sr)\<rparr>, ss, c) of
             (Some selection, s) \<Rightarrow> ((Some selection, False), s)
           | (None, s) \<Rightarrow> select_least_active snapshot cfg s))"
  by pat_completeness auto
termination
proof (relation "measure (\<lambda>(_, _, sr, ss, _). card ({..<length (route_endpoints ss (sr_route_index sr))} - sr_tried sr))")
  fix snapshot cfg sr ss c r1 ss1 i r2 s2
  assume "(r1, ss1) = NextLeastActiveIndex (sr_route_index sr) (sr_tried sr) (Eligible (sr_route_index sr) c snapshot) ss" "r1 = Some i"
    and q: "(r2, s2) = MakeSelection i snapshot cfg (sr\<lparr>sr_tried := insert i (sr_tried sr)\<rparr>, ss1, c)"
  then have n: "NextLeastActiveIndex (sr_route_index sr) (sr_tried sr) (Eligible (sr_route_index sr) c snapshot) ss = (Some i, ss1)"
    by simp
  obtain sr2 ss2 c2 where s2: "s2 = (sr2, ss2, c2)" by (cases s2)
  from q s2 have m: "MakeSelection i snapshot cfg (sr\<lparr>sr_tried := insert i (sr_tried sr)\<rparr>, ss1, c) = (r2, sr2, ss2, c2)" by simp
  note frame = MakeSelection_frame [OF m] NextLeastActiveIndex_frame(1) [OF n] and some = NextLeastActiveIndex_Some(1,2) [OF n]
  have "{..<length (route_endpoints ss (sr_route_index sr))} - insert i (sr_tried sr)
      \<subset> {..<length (route_endpoints ss (sr_route_index sr))} - sr_tried sr" using some by auto
  then show "((snapshot, cfg, s2), snapshot, cfg, sr, ss, c)
      \<in> measure (\<lambda>(_, _, sr, ss, _). card ({..<length (route_endpoints ss (sr_route_index sr))} - sr_tried sr))"
    using frame by (simp add: s2 route_endpoints_def psubset_card_mono)
qed simp

declare select_least_active.simps [simp del]

definition AttemptSelector_Select :: "bool \<Rightarrow> selecting \<Rightarrow> attempt_decision \<times> selecting" where
  "AttemptSelector_Select least_active = (\<lambda>(sr, ss, c).
     let sr = sr\<lparr>sr_overload := False\<rparr> in
     case sr_snapshot sr of
       None \<Rightarrow> ((None, False), sr, ss, c)
     | Some cfg \<Rightarrow>
         (case CurrentSnapshot c of
            None \<Rightarrow> ((None, False), sr, ss, c)
          | Some snapshot \<Rightarrow>
              if least_active then select_least_active snapshot cfg (sr, ss, c)
              else select_weighted (length (rt_endpoints (cfg_routes cfg ! sr_route_index sr))) snapshot cfg (sr, ss, c)))"

section \<open>What is selected\<close>

text \<open>The attempt that a selection of endpoint \<open>i\<close> allows, for the decision of the snapshot about it.\<close>

definition link_allowed :: "nat \<Rightarrow> nat \<Rightarrow> endpoint_decision \<Rightarrow> breaker_link option \<Rightarrow> bool" where
  "link_allowed route i d link =
     (case link of
        None \<Rightarrow> ed_generation d = 0
      | Some l \<Rightarrow> ed_generation d \<noteq> 0 \<and> bl_route_index l = route \<and> bl_endpoint_index l = i
          \<and> ap_probe (bl_permit l) = (ed_breaker_state d = kHalfOpen)
          \<and> (ed_breaker_state d \<noteq> kHalfOpen \<longrightarrow> ap_generation (bl_permit l) = ed_generation d))"

definition selection_allowed :: "config \<Rightarrow> health_circuit_snapshot \<Rightarrow> nat \<Rightarrow> nat \<Rightarrow> attempt_selection \<Rightarrow> bool" where
  "selection_allowed cfg snapshot route i sel =
     (route < length (hs_endpoints snapshot) \<and> i < length (hs_endpoints snapshot ! route)
      \<and> at_endpoint sel = rt_endpoints (cfg_routes cfg ! route) ! i
      \<and> (let d = hs_endpoints snapshot ! route ! i
         in ed_healthy d \<and> ed_breaker_state d \<noteq> kOpen \<and> link_allowed route i d (at_link sel)))"

lemma ClaimProbe_probe: "fst (Coordinator_ClaimProbe r e snapshot c) = Some permit \<Longrightarrow> ap_probe permit"
  by (auto simp: Coordinator_ClaimProbe_def ClaimProbe_def Let_def split: if_splits option.splits)

lemma MakeSelection_Some:
  assumes "MakeSelection i snapshot cfg (sr, ss, c) = (Some sel, sr', ss', c')"
  shows "at_endpoint sel = rt_endpoints (cfg_routes cfg ! sr_route_index sr) ! i"
    and "link_allowed (sr_route_index sr) i (hs_endpoints snapshot ! sr_route_index sr ! i) (at_link sel)"
  using assms ClaimProbe_probe [of "sr_route_index sr" i snapshot c]
  by (auto simp: MakeSelection_def Let_def link_allowed_def split: if_splits prod.splits option.splits)

lemma selection_allowedI:
  assumes "MakeSelection i snapshot cfg (sr, ss, c) = (Some sel, s')" "Eligible (sr_route_index sr) c snapshot i"
  shows "selection_allowed cfg snapshot (sr_route_index sr) i sel"
proof -
  obtain sr' ss' c' where s': "s' = (sr', ss', c')" by (cases s')
  show ?thesis using MakeSelection_Some [OF assms(1) [unfolded s']] assms(2)
    by (auto simp: selection_allowed_def Eligible_def Let_def split: if_splits)
qed

lemma NextLeastActiveIndex_None:
  assumes n: "NextLeastActiveIndex route tried eligible s = (None, s')" and wf: "selection_wf s" "route < length (ss_selectors s)"
    and i: "i < length (route_endpoints s route)" "i \<notin> tried"
  shows "\<not> eligible i"
proof -
  have ne: "route_endpoints s route \<noteq> []" using i(1) by auto
  show ?thesis using n wf(2) ne
  proof (cases rule: NextLeastActiveIndex_cases)
    case (no_owner owner)
    from advance_cursor_owner [OF wf ne no_owner(1)] no_owner(3) show ?thesis by (auto simp: find_index_None same_endpoint_def)
  next
    case (scan owner start)
    let ?scan = "candidates start (length (route_endpoints s route)) tried eligible"
    let ?act = "\<lambda>index. act_count (ss_active_counts s ! route ! index)"
    show ?thesis
    proof
      assume "eligible i"
      then have "i \<in> set ?scan" unfolding set_candidates [OF scan(2)] using i by blast
      moreover from this have ne: "?scan \<noteq> []" by auto
      moreover have "filter (\<lambda>index. ?act index = fold (\<lambda>index m. min m (?act index)) ?scan u32_max) ?scan = []"
        using scan(3) ne by (simp add: Let_def split: list.splits)
      ultimately have none: "\<forall>j \<in> set ?scan. ?act j \<noteq> Min (insert u32_max (?act ` set ?scan))"
        unfolding fold_min filter_empty_conv by blast
      have "Min (insert u32_max (?act ` set ?scan)) \<in> insert u32_max (?act ` set ?scan)" by (rule Min_in) simp_all
      with none have "Min (insert u32_max (?act ` set ?scan)) = u32_max" by auto
      moreover have "Min (insert u32_max (?act ` set ?scan)) \<le> ?act i" by (rule Min_le) (use \<open>i \<in> set ?scan\<close> in simp_all)
      moreover have "?act i \<le> u32_max" using wf i(1) nth_mem [of i "ss_active_counts s ! route"] by (simp add: selection_wf_def)
      ultimately show False using none \<open>i \<in> set ?scan\<close> by (metis le_antisym)
    qed
  qed
qed

lemma AcquireActive_wf:
  assumes "selection_wf s"
  shows "selection_wf (snd (AcquireActive route endpoint s))"
proof (cases "route \<ge> length (ss_active_counts s) \<or> endpoint \<ge> length (ss_active_counts s ! route)")
  case True
  then show ?thesis using assms by (simp add: AcquireActive_def)
next
  case False
  let ?row = "(ss_active_counts s ! route)[endpoint := snd (Active_AcquireOne (ss_active_counts s ! route ! endpoint))]"
  have new: "act_count (snd (Active_AcquireOne a)) \<le> u32_max" for a
  proof -
    have "(act_count a + 1) mod 2 ^ 32 < 2 ^ 32" by (rule mod_less_divisor) simp
    then show ?thesis by (simp add: Active_AcquireOne_def)
  qed
  have old: "\<forall>a \<in> set (ss_active_counts s ! route). act_count a \<le> u32_max"
    using assms False unfolding selection_wf_def by (metis not_le)
  have row: "\<forall>a \<in> set ?row. act_count a \<le> u32_max"
    using set_update_subset_insert [of "ss_active_counts s ! route" endpoint "snd (Active_AcquireOne (ss_active_counts s ! route ! endpoint))"]
      new old by blast
  have eq: "snd (AcquireActive route endpoint s) = s\<lparr>ss_active_counts := (ss_active_counts s)[route := ?row]\<rparr>"
    using False by (simp add: AcquireActive_def)
  have rows: "length ((ss_active_counts s)[route := ?row] ! r) = length (route_endpoints s r)
      \<and> (\<forall>a \<in> set ((ss_active_counts s)[route := ?row] ! r). act_count a \<le> u32_max)" if "r < length (ss_selectors s)" for r
    using assms row that by (cases "r = route") (simp_all add: selection_wf_def)
  show ?thesis using assms rows by (simp add: eq selection_wf_def route_endpoints_def)
qed

lemma MakeSelection_wf:
  assumes "MakeSelection i snapshot cfg (sr, ss, c) = (r, sr', ss', c')" "selection_wf ss"
  shows "selection_wf ss'"
proof -
  have "ss' = ss \<or> ss' = snd (AcquireActive (sr_route_index sr) i ss)"
    using assms(1) by (auto simp: MakeSelection_def Let_def split: if_splits prod.splits option.splits)
  then show ?thesis using assms(2) AcquireActive_wf by auto
qed

text \<open>
  The least-active loop: a selection is allowed and was untried; without one, no untried
  endpoint of the route is eligible any more.
\<close>

definition least_active_spec ::
    "health_circuit_snapshot \<Rightarrow> config \<Rightarrow> selecting \<Rightarrow> attempt_decision \<times> selecting \<Rightarrow> bool" where
  "least_active_spec snapshot cfg = (\<lambda>(sr, ss, c) ((r, ov), sr', ss', c').
     sr_tried sr \<subseteq> sr_tried sr'
     \<and> (case r of
          Some sel \<Rightarrow> \<not> ov \<and> (\<exists>i. i \<notin> sr_tried sr \<and> i \<in> sr_tried sr' \<and> selection_allowed cfg snapshot (sr_route_index sr) i sel)
        | None \<Rightarrow> selection_wf ss \<and> sr_route_index sr < length (ss_selectors ss) \<longrightarrow>
            (\<forall>i < length (route_endpoints ss (sr_route_index sr)). i \<in> sr_tried sr' \<or> \<not> Eligible (sr_route_index sr) c' snapshot i)))"

lemma select_least_active_spec: "least_active_spec snapshot cfg s (select_least_active snapshot cfg s)"
proof (induction snapshot cfg s rule: select_least_active.induct)
  case (1 snapshot cfg sr ss c)
  obtain r1 ss1 where n: "NextLeastActiveIndex (sr_route_index sr) (sr_tried sr) (Eligible (sr_route_index sr) c snapshot) ss = (r1, ss1)"
    by (metis prod.exhaust)
  show ?case
  proof (cases r1)
    case None
    then have "select_least_active snapshot cfg (sr, ss, c) = ((None, sr_overload sr), sr, ss1, c)"
      using n by (simp add: select_least_active.simps)
    then show ?thesis using NextLeastActiveIndex_None [OF n [unfolded None]] by (auto simp: least_active_spec_def)
  next
    case (Some i)
    note some = NextLeastActiveIndex_Some(1-3) [OF n [unfolded Some]] and frame = NextLeastActiveIndex_frame [OF n]
    define sr1 where "sr1 = sr\<lparr>sr_tried := insert i (sr_tried sr)\<rparr>"
    obtain r2 sr2 ss2 c2 where m: "MakeSelection i snapshot cfg (sr1, ss1, c) = (r2, sr2, ss2, c2)" by (metis prod.exhaust)
    note mframe = MakeSelection_frame [OF m]
    show ?thesis
    proof (cases r2)
      case (Some sel)
      have "select_least_active snapshot cfg (sr, ss, c) = ((Some sel, False), sr2, ss2, c2)"
        using n m \<open>r1 = Some i\<close> Some by (simp add: select_least_active.simps [of snapshot cfg sr] sr1_def)
      moreover have "selection_allowed cfg snapshot (sr_route_index sr1) i sel"
        by (rule selection_allowedI [OF m [unfolded Some]]) (use some(3) in \<open>simp add: sr1_def\<close>)
      ultimately show ?thesis using some mframe by (auto simp: least_active_spec_def sr1_def)
    next
      case None
      have eq: "select_least_active snapshot cfg (sr, ss, c) = select_least_active snapshot cfg (sr2, ss2, c2)"
        using n m \<open>r1 = Some i\<close> None by (simp add: select_least_active.simps [of snapshot cfg sr] sr1_def)
      have ih: "least_active_spec snapshot cfg (sr2, ss2, c2) (select_least_active snapshot cfg (sr2, ss2, c2))"
        using "1.IH" [OF n [symmetric] \<open>r1 = Some i\<close> m [unfolded sr1_def None, symmetric] refl] .
      have "selection_wf ss \<Longrightarrow> selection_wf ss2" using MakeSelection_wf [OF m] frame(3) by blast
      moreover have "route_endpoints ss2 = route_endpoints ss" by (rule ext) (simp add: route_endpoints_def mframe frame)
      ultimately show ?thesis using ih mframe frame(4) unfolding eq
        by (auto simp: least_active_spec_def sr1_def split: option.splits)
    qed
  qed
qed

lemma select_weighted_sound:
  assumes "select_weighted n snapshot cfg (sr, ss, c) = ((Some sel, ov), sr', ss', c')"
  shows "\<not> ov \<and> (\<exists>i. i \<notin> sr_tried sr \<and> i \<in> sr_tried sr' \<and> selection_allowed cfg snapshot (sr_route_index sr) i sel)"
  using assms
proof (induction n arbitrary: sr ss c)
  case (Suc n)
  obtain r1 ss1 where n: "NextWeightedIndex (sr_route_index sr) ss = (r1, ss1)" by (metis prod.exhaust)
  show ?case
  proof (cases "r1 = None \<or> the r1 \<in> sr_tried sr")
    case True
    then have "select_weighted n snapshot cfg (sr, ss1, c) = ((Some sel, ov), sr', ss', c')"
      using Suc.prems n by (auto split: option.splits)
    from Suc.IH [OF this] show ?thesis by simp
  next
    case False
    then obtain i where i: "r1 = Some i" "i \<notin> sr_tried sr" by auto
    define sr1 where "sr1 = sr\<lparr>sr_tried := insert i (sr_tried sr)\<rparr>"
    have sr1: "sr_route_index sr1 = sr_route_index sr" "sr_tried sr1 = insert i (sr_tried sr)" by (simp_all add: sr1_def)
    note step = Suc.prems [unfolded select_weighted.simps n Let_def prod.case i(1) option.case, folded sr1_def]
    show ?thesis
    proof (cases "Eligible (sr_route_index sr) c snapshot i")
      case False
      then have "select_weighted n snapshot cfg (sr1, ss1, c) = ((Some sel, ov), sr', ss', c')" using step i(2) sr1 by simp
      from Suc.IH [OF this] show ?thesis using sr1 by auto
    next
      case True
      obtain r2 sr2 ss2 c2 where m: "MakeSelection i snapshot cfg (sr1, ss1, c) = (r2, sr2, ss2, c2)" by (metis prod.exhaust)
      note frame = MakeSelection_frame [OF m]
      show ?thesis
      proof (cases r2)
        case (Some sel1)
        then have "sel1 = sel" "sr' = sr2" "\<not> ov" using step i(2) True sr1 m by simp_all
        moreover have "selection_allowed cfg snapshot (sr_route_index sr1) i sel1"
          by (rule selection_allowedI [OF m [unfolded Some]]) (use True sr1 in simp)
        ultimately show ?thesis using i(2) frame sr1 by auto
      next
        case None
        then have "select_weighted n snapshot cfg (sr2, ss2, c2) = ((Some sel, ov), sr', ss', c')"
          using step i(2) True sr1 m by simp
        from Suc.IH [OF this] show ?thesis using frame sr1 by auto
      qed
    qed
  qed
qed simp

text \<open>
  C34. An attempt is only ever started to an endpoint that the request has not tried, that the
  current snapshot calls healthy and whose breaker is not open; it carries the breaker's permit
  and an outcome reservation exactly when the endpoint has a breaker, and the permit is a probe
  exactly when the breaker is half-open.
\<close>

theorem AttemptSelector_Select_sound:
  assumes "AttemptSelector_Select least_active (sr, ss, c) = ((Some sel, ov), sr', ss', c')"
  shows "\<exists>cfg snapshot i. sr_snapshot sr = Some cfg \<and> CurrentSnapshot c = Some snapshot \<and> \<not> ov
    \<and> i \<notin> sr_tried sr \<and> i \<in> sr_tried sr' \<and> selection_allowed cfg snapshot (sr_route_index sr) i sel"
proof -
  let ?sr = "sr\<lparr>sr_overload := False\<rparr>"
  from assms obtain cfg snapshot where cfg: "sr_snapshot sr = Some cfg" "CurrentSnapshot c = Some snapshot"
    by (auto simp: AttemptSelector_Select_def Let_def split: option.splits)
  have "\<not> ov \<and> (\<exists>i. i \<notin> sr_tried ?sr \<and> i \<in> sr_tried sr' \<and> selection_allowed cfg snapshot (sr_route_index ?sr) i sel)"
  proof (cases least_active)
    case True
    then have "select_least_active snapshot cfg (?sr, ss, c) = ((Some sel, ov), sr', ss', c')"
      using assms cfg by (simp add: AttemptSelector_Select_def Let_def)
    with select_least_active_spec [of snapshot cfg "(?sr, ss, c)"] show ?thesis by (simp add: least_active_spec_def)
  next
    case False
    show ?thesis by (rule select_weighted_sound) (use assms cfg False in \<open>simp add: AttemptSelector_Select_def Let_def\<close>)
  qed
  with cfg show ?thesis by auto
qed

text \<open>
  C35. Least-active balancing: a round of the scan picks an untried eligible endpoint with the
  fewest active attempts of all of them, and when the selector finds no endpoint then every
  endpoint of the route has been tried or is not eligible.
\<close>

theorem least_active_selection:
  assumes "selection_wf ss" "sr_route_index sr = route" "route < length (ss_selectors ss)"
    and "sr_snapshot sr = Some cfg" "CurrentSnapshot c = Some snapshot"
  shows "(\<forall>i ss1. NextLeastActiveIndex route tried eligible ss = (Some i, ss1) \<longrightarrow>
      i < length (route_endpoints ss route) \<and> i \<notin> tried \<and> eligible i
      \<and> (\<forall>j < length (route_endpoints ss route). j \<notin> tried \<and> eligible j \<longrightarrow> ActiveFor route i ss \<le> ActiveFor route j ss))
    \<and> (\<forall>ov sr' ss' c'. AttemptSelector_Select True (sr, ss, c) = ((None, ov), sr', ss', c') \<longrightarrow>
      (\<forall>i < length (route_endpoints ss route). i \<in> sr_tried sr' \<or> \<not> Eligible route c' snapshot i))"
proof (intro conjI allI impI)
  have act: "ActiveFor route j ss = act_count (ss_active_counts ss ! route ! j)" if "j < length (route_endpoints ss route)" for j
    using assms(1,3) that by (simp add: ActiveFor_def selection_wf_def)
  fix i ss1 assume n: "NextLeastActiveIndex route tried eligible ss = (Some i, ss1)"
  note some = NextLeastActiveIndex_Some [OF n]
  show "i < length (route_endpoints ss route)" "i \<notin> tried" "eligible i" by (rule some)+
  show "ActiveFor route i ss \<le> ActiveFor route j ss" if "j < length (route_endpoints ss route)" "j \<notin> tried \<and> eligible j" for j
    using some(4) [of j] that act [of i] act [of j] some(1) by simp
next
  fix ov sr' ss' c' i
  assume s: "AttemptSelector_Select True (sr, ss, c) = ((None, ov), sr', ss', c')" and i: "i < length (route_endpoints ss route)"
  from s have "select_least_active snapshot cfg (sr\<lparr>sr_overload := False\<rparr>, ss, c) = ((None, ov), sr', ss', c')"
    using assms(4,5) by (simp add: AttemptSelector_Select_def Let_def)
  with select_least_active_spec [of snapshot cfg "(sr\<lparr>sr_overload := False\<rparr>, ss, c)"] i assms(1-3)
  show "i \<in> sr_tried sr' \<or> \<not> Eligible route c' snapshot i" by (simp add: least_active_spec_def)
qed

section \<open>Concrete selections\<close>

text \<open>
  A worker's selection state for a route with endpoints of weights two and one, and a coordinator
  that knows the first endpoint to be unhealthy.
\<close>

definition pick_state :: selection_state where
  "pick_state = projr (SelectionState_new sample_config 1)"

definition pick_coordinator :: coordinator where
  "pick_coordinator = RecordHealthTask 0 0 False (projr (Coordinator_new (\<lambda>_. 7) (Some sample_config) 0))"

definition pick_start :: selecting where
  "pick_start = (AttemptSelector_new (Some sample_config) 0, pick_state, pick_coordinator)"

lemma SelectionState_new_wf:
  assumes "SelectionState_new cfg v = Inr s"
  shows "selection_wf s"
proof -
  obtain ws where ws: "res_map (\<lambda>r. WeightedRoundRobin_new (rt_endpoints r)) (cfg_routes cfg) = Inr ws"
    and s: "s = \<lparr>ss_config = cfg, ss_version = v, ss_selectors = ws,
      ss_active_counts = map (\<lambda>r. replicate (length (rt_endpoints r)) \<lparr>act_count = 0\<rparr>) (cfg_routes cfg)\<rparr>"
    using assms by (auto simp: SelectionState_new_def split: sum.splits)
  have pointwise: "list_all2 (\<lambda>r w. WeightedRoundRobin_new (rt_endpoints r) = Inr w) (cfg_routes cfg) ws" by (rule res_map_Inr [OF ws])
  have "wrr_endpoints (ws ! route) = rt_endpoints (cfg_routes cfg ! route)" if "route < length ws" for route
    using list_all2_nthD2 [OF pointwise that] by (auto simp: WeightedRoundRobin_new_def split: if_splits dest!: sym [of _ "ws ! route"])
  then show ?thesis using list_all2_lengthD [OF pointwise] by (simp add: s selection_wf_def route_endpoints_def)
qed

lemma pick_state_new: "SelectionState_new sample_config 1 = Inr pick_state"
  by code_simp

lemma pick_snapshot: "CurrentSnapshot pick_coordinator = Some (the (CurrentSnapshot pick_coordinator))"
  by code_simp

definition picked :: "bool \<Rightarrow> selecting \<Rightarrow> nat set \<times> bool" where
  "picked least_active s =
     (case AttemptSelector_Select least_active s of ((r, ov), sr, _) \<Rightarrow> (sr_tried sr, r \<noteq> None))"

theorem AttemptSelector_Select_sound_witness:
  "\<exists>sel ov sr' ss' c'. AttemptSelector_Select True pick_start = ((Some sel, ov), sr', ss', c')
     \<and> (\<exists>cfg snapshot i. CurrentSnapshot pick_coordinator = Some snapshot \<and> i \<in> sr_tried sr'
          \<and> selection_allowed cfg snapshot 0 i sel)"
proof -
  obtain r ov sr' ss' c' where s: "AttemptSelector_Select True pick_start = ((r, ov), sr', ss', c')" by (metis prod.exhaust)
  have "snd (picked True pick_start)" by code_simp
  then obtain sel where sel: "r = Some sel" by (auto simp: picked_def s)
  from AttemptSelector_Select_sound [OF s [unfolded pick_start_def sel]] s sel show ?thesis
    by (auto simp: AttemptSelector_new_def)
qed

definition pick_busy :: selection_state where
  "pick_busy = snd (AcquireActive 0 0 pick_state)"

theorem least_active_selection_witness:
  "fst (NextLeastActiveIndex 0 {} (\<lambda>_. True) pick_busy) = Some 1 \<and> ActiveFor 0 1 pick_busy \<le> ActiveFor 0 0 pick_busy"
proof
  show pick: "fst (NextLeastActiveIndex 0 {} (\<lambda>_. True) pick_busy) = Some 1" by code_simp
  have wf: "selection_wf pick_busy" unfolding pick_busy_def by (rule AcquireActive_wf [OF SelectionState_new_wf [OF pick_state_new]])
  have len: "0 < length (ss_selectors pick_busy)" "0 < length (route_endpoints pick_busy 0)" by code_simp+
  have sr: "sr_route_index (AttemptSelector_new (Some sample_config) 0) = 0"
    "sr_snapshot (AttemptSelector_new (Some sample_config) 0) = Some sample_config" by (simp_all add: AttemptSelector_new_def)
  obtain ss1 where "NextLeastActiveIndex 0 {} (\<lambda>_. True) pick_busy = (Some 1, ss1)" using pick by (metis prod.collapse)
  with least_active_selection [OF wf sr(1) len(1) sr(2) pick_snapshot, of "{}" "\<lambda>_. True"] len(2)
  show "ActiveFor 0 1 pick_busy \<le> ActiveFor 0 0 pick_busy" by blast
qed

section \<open>A heavy endpoint hides the others\<close>

text \<open>The next \<open>n\<close> positions of the cursor of a route all belong to endpoint \<open>k\<close>.\<close>

definition in_block :: "nat \<Rightarrow> nat \<Rightarrow> weighted_round_robin \<Rightarrow> bool" where
  "in_block n k w \<longleftrightarrow> wrr_wf w \<and> k < length (wrr_endpoints w)
     \<and> weights (take k (wrr_endpoints w)) \<le> wrr_next_weight w
     \<and> wrr_next_weight w + n \<le> weights (take (Suc k) (wrr_endpoints w))"

lemma in_block_Next:
  assumes "in_block (Suc n) k w"
  shows "fst (WeightedRoundRobin_Next w) = k" "0 < n \<Longrightarrow> in_block n k (snd (WeightedRoundRobin_Next w))"
proof -
  let ?es = "wrr_endpoints w" and ?x = "wrr_next_weight w"
  have le: "weights (take (Suc k) ?es) \<le> weights ?es"
    using weights_take_mono [of "Suc k" "length ?es" ?es] assms by (simp add: in_block_def)
  have x: "?x < weights ?es" "weights (take k ?es) \<le> ?x" "?x < weights (take (Suc k) ?es)" and k: "k < length ?es"
    using assms le by (simp_all add: in_block_def)
  have "wrr_pick ?es ?x = k" using wrr_pick_iff [OF x(1) k] x by blast
  then show "fst (WeightedRoundRobin_Next w) = k" by (simp add: WeightedRoundRobin_Next_def wrr_pick_def Let_def)
  show "in_block n k (snd (WeightedRoundRobin_Next w))" if "0 < n"
    using assms le that by (auto simp: WeightedRoundRobin_Next_def Let_def in_block_def wrr_wf_def)
qed

lemma find_index_distinct:
  assumes "distinct (map (\<lambda>e. (ep_address e, ep_port e)) es)" "k < length es"
  shows "find_index (same_endpoint (es ! k)) es = Some k"
proof -
  have k: "es ! k \<in> set es" "same_endpoint (es ! k) (es ! k)" using assms(2) by (simp_all add: same_endpoint_def)
  then obtain i where i: "find_index (same_endpoint (es ! k)) es = Some i"
    by (cases "find_index (same_endpoint (es ! k)) es") (auto simp: find_index_None)
  note found = find_index_Some [OF i]
  have "i = k" using nth_eq_iff_index_eq [OF assms(1), of i k] found assms(2) by (simp add: same_endpoint_def)
  with i show ?thesis by simp
qed

lemma NextWeightedIndex_block:
  assumes wf: "selection_wf ss" "route < length (ss_selectors ss)" and block: "in_block (Suc n) k (ss_selectors ss ! route)"
    and keys: "distinct (map (\<lambda>e. (ep_address e, ep_port e)) (route_endpoints ss route))"
  obtains ss1 where "NextWeightedIndex route ss = (Some k, ss1)" "selection_wf ss1" "length (ss_selectors ss1) = length (ss_selectors ss)"
    "ss_config ss1 = ss_config ss" "0 < n \<Longrightarrow> in_block n k (ss_selectors ss1 ! route)"
proof -
  let ?w = "ss_selectors ss ! route"
  obtain owner ss1 where a: "advance_cursor route ss = (owner, ss1)" by (metis prod.exhaust)
  have eps: "wrr_endpoints ?w = route_endpoints ss route" using wf by (simp add: selection_wf_def)
  then have k: "k < length (route_endpoints ss route)" using block by (simp add: in_block_def)
  have owner: "owner = route_endpoints ss route ! k" and ss1: "ss_selectors ss1 ! route = snd (WeightedRoundRobin_Next ?w)"
    using a in_block_Next(1) [OF block] wf(2) eps by (auto simp: advance_cursor_eq)
  have "route_endpoints ss1 route = route_endpoints ss route"
    using advance_cursor_frame(1) [OF a] by (simp add: route_endpoints_def)
  with find_index_distinct [OF keys k] have n: "NextWeightedIndex route ss = (Some k, ss1)"
    using wf(2) by (simp add: NextWeightedIndex_def a owner Let_def)
  show thesis
    by (rule that [OF n advance_cursor_frame(4) [OF a wf(1)] advance_cursor_frame(3) [OF a] advance_cursor_frame(1) [OF a]])
      (simp add: ss1 in_block_Next(2) [OF block])
qed

lemma select_weighted_block:
  assumes "selection_wf ss" "sr_route_index sr < length (ss_selectors ss)" "0 < n \<Longrightarrow> in_block n k (ss_selectors ss ! sr_route_index sr)"
    and "distinct (map (\<lambda>e. (ep_address e, ep_port e)) (route_endpoints ss (sr_route_index sr)))"
    and "k \<in> sr_tried sr \<or> \<not> Eligible (sr_route_index sr) c snapshot k"
  shows "\<exists>sr' ss'. select_weighted n snapshot cfg (sr, ss, c) = ((None, sr_overload sr), sr', ss', c)
    \<and> sr_tried sr' = (if n = 0 then sr_tried sr else insert k (sr_tried sr))"
  using assms
proof (induction n arbitrary: sr ss)
  case (Suc n)
  obtain ss1 where n: "NextWeightedIndex (sr_route_index sr) ss = (Some k, ss1)" "selection_wf ss1"
      "length (ss_selectors ss1) = length (ss_selectors ss)" "ss_config ss1 = ss_config ss"
      "0 < n \<Longrightarrow> in_block n k (ss_selectors ss1 ! sr_route_index sr)"
    by (rule NextWeightedIndex_block [OF Suc.prems(1,2) Suc.prems(3) [OF zero_less_Suc] Suc.prems(4)]) blast
  have eps: "route_endpoints ss1 r = route_endpoints ss r" for r using n(4) by (simp add: route_endpoints_def)
  define sr1 where "sr1 = (if k \<in> sr_tried sr then sr else sr\<lparr>sr_tried := insert k (sr_tried sr)\<rparr>)"
  have sr1: "sr_route_index sr1 = sr_route_index sr" "sr_overload sr1 = sr_overload sr" "sr_tried sr1 = insert k (sr_tried sr)"
    by (auto simp: sr1_def)
  have step: "select_weighted (Suc n) snapshot cfg (sr, ss, c) = select_weighted n snapshot cfg (sr1, ss1, c)"
    using Suc.prems(5) by (auto simp: n(1) sr1_def Let_def)
  show ?case unfolding step
    using Suc.IH [of ss1 sr1] n(2,3,5) Suc.prems(2,4) by (simp add: sr1 eps insert_absorb2 split: if_splits)
qed simp

text \<open>
  C36. Weighted balancing may answer that no endpoint is left although an eligible endpoint that
  was not tried exists.  The loop makes as many rounds as the route has endpoints, and the cursor
  visits an endpoint as many times in a row as its weight: whenever the cursor has at least that
  many positions left in the block of an endpoint that is not eligible, or that the request tried
  before, the answer is none, every other endpoint stays untried, and the least-active scan finds
  an endpoint in the same state if another one is eligible.
\<close>

theorem weighted_selection_misses_healthy:
  assumes "config_valid cfg" "ss_config ss = cfg" "selection_wf ss" "sr_snapshot sr = Some cfg" "sr_route_index sr = route"
    and "route < length (cfg_routes cfg)" "CurrentSnapshot c = Some snapshot"
    and "k \<in> sr_tried sr \<or> \<not> Eligible route c snapshot k"
    and "in_block (length (rt_endpoints (cfg_routes cfg ! route))) k (ss_selectors ss ! route)"
  shows "\<exists>sr' ss'. AttemptSelector_Select False (sr, ss, c) = ((None, False), sr', ss', c)
    \<and> sr_tried sr' = insert k (sr_tried sr)
    \<and> (\<forall>j < length (rt_endpoints (cfg_routes cfg ! route)). j \<notin> sr_tried sr' \<and> Eligible route c snapshot j \<longrightarrow>
         fst (NextLeastActiveIndex route (sr_tried sr') (Eligible route c snapshot) ss) \<noteq> None)"
proof -
  let ?es = "rt_endpoints (cfg_routes cfg ! route)"
  have len: "route < length (ss_selectors ss)" and eps: "route_endpoints ss route = ?es"
    using assms(2,3,6) by (simp_all add: selection_wf_def route_endpoints_def)
  have "route_valid (cfg_routes cfg ! route)" using assms(1,6) by (simp add: config_valid_def list_all_length)
  then have ne: "?es \<noteq> []" and keys: "distinct (map (\<lambda>e. (ep_address e, ep_port e)) ?es)" by (simp_all add: route_valid_def)
  obtain sr' ss' where s: "select_weighted (length ?es) snapshot cfg (sr\<lparr>sr_overload := False\<rparr>, ss, c) = ((None, False), sr', ss', c)"
      "sr_tried sr' = insert k (sr_tried sr)"
    using select_weighted_block [of ss "sr\<lparr>sr_overload := False\<rparr>" "length ?es" k c snapshot cfg] assms(3,5,8,9) len keys ne
    by (auto simp: eps)
  have "AttemptSelector_Select False (sr, ss, c) = ((None, False), sr', ss', c)"
    using s(1) assms(4,5,7) by (simp add: AttemptSelector_Select_def Let_def)
  moreover have "fst (NextLeastActiveIndex route (sr_tried sr') (Eligible route c snapshot) ss) \<noteq> None"
    if "j < length ?es" "j \<notin> sr_tried sr'" "Eligible route c snapshot j" for j
    using NextLeastActiveIndex_None [OF _ assms(3) len, of "sr_tried sr'" "Eligible route c snapshot" _ j] that eps
    by (metis prod.collapse)
  ultimately show ?thesis using s(2) by blast
qed

theorem weighted_selection_misses_healthy_witness:
  "\<exists>sr' ss'. AttemptSelector_Select False pick_start = ((None, False), sr', ss', pick_coordinator)
    \<and> sr_tried sr' = {0} \<and> Eligible 0 pick_coordinator (the (CurrentSnapshot pick_coordinator)) 1"
proof -
  have cfg: "config_valid sample_config" "ss_config pick_state = sample_config" by code_simp+
  have sr: "sr_snapshot (AttemptSelector_new (Some sample_config) 0) = Some sample_config"
    "sr_route_index (AttemptSelector_new (Some sample_config) 0) = 0" "sr_tried (AttemptSelector_new (Some sample_config) 0) = {}"
    by (simp_all add: AttemptSelector_new_def)
  have block: "0 < length (cfg_routes sample_config)" "\<not> Eligible 0 pick_coordinator (the (CurrentSnapshot pick_coordinator)) 0"
    "in_block (length (rt_endpoints (cfg_routes sample_config ! 0))) 0 (ss_selectors pick_state ! 0)"
    "Eligible 0 pick_coordinator (the (CurrentSnapshot pick_coordinator)) 1" by code_simp+
  from weighted_selection_misses_healthy [OF cfg SelectionState_new_wf [OF pick_state_new] sr(1,2) block(1) pick_snapshot
      disjI2 [OF block(2)] block(3)] block(4) sr(3) show ?thesis
    by (auto simp: pick_start_def)
qed

end
