(* ===== verification/ProxyTransaction.thy ===== *)
theory ProxyTransaction
  imports Selection
begin

text \<open>
  One proxied request (\<open>proxy/ProxyTransaction\<close>): it chooses an endpoint, runs the upstream
  exchange, relays the response to the client, retries once when the exchange failed before a
  response was committed, and gives back everything it holds when it ends.

  What the transaction does to the client, the upstream pool, the outcome channel, the metrics
  and the log is a trace of outputs.  The answers of its collaborators are arguments: the
  decision of the attempt provider, what the start of an upstream exchange calls back before it
  returns, and how the client connection takes each call.  The timer identifiers are the
  callbacks they were returned for, and \<open>px_pending\<close> holds the timers that the queue still has;
  \<open>px_queued\<close> holds the closures queued until the end of the event batch.
\<close>

section \<open>Hop-by-hop headers\<close>

definition AddConnectionTokens :: "string \<Rightarrow> string set \<Rightarrow> string set" where
  "AddConnectionTokens v names =
     names \<union> set (map LowerAscii (filter (\<lambda>token. token \<noteq> []) (comma_tokens (length v) v)))"

definition hop_by_hop :: "string set" where
  "hop_by_hop =
     {''connection'', ''content-length'', ''keep-alive'', ''proxy-authenticate'', ''proxy-authorization'',
      ''proxy-connection'', ''te'', ''trailer'', ''transfer-encoding'', ''upgrade''}"

definition HopByHopNames :: "header_list \<Rightarrow> string set" where
  "HopByHopNames headers =
     fold (\<lambda>(name, v) names. if LowerAscii name = ''connection'' then AddConnectionTokens v names else names)
       headers hop_by_hop"

definition strip_headers :: "header_list \<Rightarrow> header_list" where
  "strip_headers headers = filter (\<lambda>header. LowerAscii (fst header) \<notin> HopByHopNames headers) headers"

definition StripRequest :: "http_request \<Rightarrow> http_request" where
  "StripRequest request = request\<lparr>rq_headers := strip_headers (rq_headers request)\<rparr>"

definition StripResponse :: "http_response \<Rightarrow> http_response" where
  "StripResponse response = response\<lparr>rs_headers := strip_headers (rs_headers response)\<rparr>"

definition StripHead :: "response_head \<Rightarrow> response_head" where
  "StripHead head = head\<lparr>rh_headers := strip_headers (rh_headers head)\<rparr>"

section \<open>State\<close>

datatype tx_timer = ConnectDeadline u64 | FirstByteDeadline u64 | TotalDeadline

datatype tx_closure = QueuedRetry | QueuedCancel bool

text \<open>A client call returns, with its answer to the high watermark question; throws; or fails the
  connection and calls the transaction's abort callback before it returns.\<close>

datatype client_answer = ClientReturns bool | ClientThrows | ClientAborts bool

datatype tx_output =
    OutExecute "endpoint option" http_request
  | OutSchedule tx_timer int
  | OutPublish attempt_result
  | OutReturnOutcome attempt_permit
  | OutReleaseAdmission
  | OutReleaseActive "nat \<times> nat"
  | OutMetric int string
  | OutLog int string
  | OutSend http_response
  | OutBegin response_head
  | OutBody string
  | OutFinish
  | OutAbort
  | OutPause
  | OutResume
  | OutCancelUpstream

record upstream_policy =
  up_connect_timeout :: int
  up_first_byte_timeout :: int
  up_total_timeout :: int
  up_retry_budget :: nat
  up_retry_endpoints :: "endpoint list"

record proxy_transaction =
  px_request :: http_request
  px_endpoint :: "endpoint option"
  px_policy :: upstream_policy
  px_provider :: bool
  px_pool :: bool
  px_timers :: bool
  px_metrics :: bool
  px_log_callback :: bool
  px_reservation :: bool
  px_metric_request :: bool
  px_breaker_link :: "breaker_link option"
  px_active_reservation :: "(nat \<times> nat) option"
  px_attempt_accounted :: bool
  px_upstream :: bool
  px_active_connection :: bool
  px_connect_timer :: "tx_timer option"
  px_first_byte_timer :: "tx_timer option"
  px_total_timer :: "tx_timer option"
  px_generation :: u64
  px_retries :: nat
  px_coordinator_overloaded :: bool
  px_connected :: bool
  px_response_header_received :: bool
  px_committed :: bool
  px_read_paused :: bool
  px_starting_upstream :: bool
  px_finished :: bool
  px_response_head :: response_head
  px_logged :: bool
  px_client_alive :: bool
  px_gateway_down :: bool
  px_client :: "client_answer list"
  px_pending :: "tx_timer list"
  px_queued :: "tx_closure list"
  px_out :: "tx_output list"

definition put_out :: "tx_output \<Rightarrow> proxy_transaction \<Rightarrow> proxy_transaction" where
  "put_out x tx = tx\<lparr>px_out := px_out tx @ [x]\<rparr>"

text \<open>The client's answer to the next call.\<close>

definition take_answer :: "proxy_transaction \<Rightarrow> client_answer \<times> proxy_transaction" where
  "take_answer tx =
     (case px_client tx of [] \<Rightarrow> (ClientReturns False, tx) | a # rest \<Rightarrow> (a, tx\<lparr>px_client := rest\<rparr>))"

definition GatewayDown :: "proxy_transaction \<Rightarrow> bool" where
  "GatewayDown tx = px_gateway_down tx"

section \<open>Timers\<close>

definition schedule :: "int \<Rightarrow> tx_timer \<Rightarrow> proxy_transaction \<Rightarrow> proxy_transaction" where
  "schedule delay timer tx = (put_out (OutSchedule timer delay) tx)\<lparr>px_pending := px_pending tx @ [timer]\<rparr>"

definition cancel_timer :: "tx_timer option \<Rightarrow> proxy_transaction \<Rightarrow> proxy_transaction" where
  "cancel_timer timer tx = (case timer of None \<Rightarrow> tx | Some t \<Rightarrow> tx\<lparr>px_pending := remove1 t (px_pending tx)\<rparr>)"

definition ArmConnectDeadline :: "proxy_transaction \<Rightarrow> proxy_transaction" where
  "ArmConnectDeadline tx =
     (if \<not> px_timers tx then tx
      else let tx = cancel_timer (px_connect_timer tx) tx; timer = ConnectDeadline (px_generation tx)
           in (schedule (up_connect_timeout (px_policy tx)) timer tx)\<lparr>px_connect_timer := Some timer\<rparr>)"

definition ArmFirstByteDeadline :: "proxy_transaction \<Rightarrow> proxy_transaction" where
  "ArmFirstByteDeadline tx =
     (if \<not> px_timers tx then tx
      else let timer = FirstByteDeadline (px_generation tx)
           in (schedule (up_first_byte_timeout (px_policy tx)) timer tx)\<lparr>px_first_byte_timer := Some timer\<rparr>)"

definition ArmTotalDeadline :: "proxy_transaction \<Rightarrow> proxy_transaction" where
  "ArmTotalDeadline tx =
     (if \<not> px_timers tx then tx
      else (schedule (up_total_timeout (px_policy tx)) TotalDeadline tx)\<lparr>px_total_timer := Some TotalDeadline\<rparr>)"

definition CancelAttemptDeadlines :: "proxy_transaction \<Rightarrow> proxy_transaction" where
  "CancelAttemptDeadlines tx =
     (if GatewayDown tx then tx
      else if \<not> px_timers tx then tx
      else (cancel_timer (px_first_byte_timer tx) (cancel_timer (px_connect_timer tx) tx))
             \<lparr>px_connect_timer := None, px_first_byte_timer := None\<rparr>)"

definition CancelDeadlines :: "proxy_transaction \<Rightarrow> proxy_transaction" where
  "CancelDeadlines tx =
     (if GatewayDown tx then tx
      else if \<not> px_timers tx then tx
      else let tx = CancelAttemptDeadlines tx
           in (cancel_timer (px_total_timer tx) tx)\<lparr>px_total_timer := None\<rparr>)"

section \<open>What a transaction gives back\<close>

definition release_admission :: "proxy_transaction \<Rightarrow> proxy_transaction" where
  "release_admission tx = (if px_reservation tx then (put_out OutReleaseAdmission tx)\<lparr>px_reservation := False\<rparr> else tx)"

definition release_active :: "proxy_transaction \<Rightarrow> proxy_transaction" where
  "release_active tx =
     (case px_active_reservation tx of
        None \<Rightarrow> tx
      | Some slot \<Rightarrow> (put_out (OutReleaseActive slot) tx)\<lparr>px_active_reservation := None\<rparr>)"

text \<open>Destroying a link returns the credit of an outcome that was not published.\<close>

definition reset_link :: "proxy_transaction \<Rightarrow> proxy_transaction" where
  "reset_link tx =
     (case px_breaker_link tx of
        None \<Rightarrow> tx
      | Some link \<Rightarrow>
          (if rv_finalized (bl_outcome_reservation link) then tx else put_out (OutReturnOutcome (bl_permit link)) tx)
            \<lparr>px_breaker_link := None\<rparr>)"

definition publish_outcome :: "bool \<Rightarrow> proxy_transaction \<Rightarrow> proxy_transaction" where
  "publish_outcome success tx =
     (case px_breaker_link tx of
        None \<Rightarrow> tx
      | Some link \<Rightarrow>
          if px_attempt_accounted tx then tx
          else
            let tx = tx\<lparr>px_attempt_accounted := True\<rparr>;
                (goes_on, v) = Publish (bl_outcome_reservation link);
                tx = tx\<lparr>px_breaker_link := Some (link\<lparr>bl_outcome_reservation := v\<rparr>)\<rparr>
            in if goes_on
               then put_out (OutPublish \<lparr>ar_route_index = bl_route_index link, ar_endpoint_index = bl_endpoint_index link,
                      ar_permit = bl_permit link, ar_success = success\<rparr>) tx
               else tx)"

definition AccountSuccess :: "proxy_transaction \<Rightarrow> proxy_transaction" where
  "AccountSuccess = publish_outcome True"

definition AccountFailure :: "proxy_transaction \<Rightarrow> proxy_transaction" where
  "AccountFailure = publish_outcome False"

text \<open>Only the first completion of the metric is observed.\<close>

definition CompleteMetric :: "int \<Rightarrow> string \<Rightarrow> proxy_transaction \<Rightarrow> proxy_transaction" where
  "CompleteMetric status reason tx =
     (if px_metric_request tx then (put_out (OutMetric status reason) tx)\<lparr>px_metric_request := False\<rparr> else tx)"

definition LogTerminal :: "int \<Rightarrow> string \<Rightarrow> proxy_transaction \<Rightarrow> proxy_transaction" where
  "LogTerminal status reason tx =
     (if px_logged tx \<or> \<not> px_log_callback tx then tx else (put_out (OutLog status reason) tx)\<lparr>px_logged := True\<rparr>)"

section \<open>Terminal paths\<close>

text \<open>Exceptions of the client are swallowed; an abort callback finds the transaction finished.\<close>

definition send_response :: "http_response \<Rightarrow> proxy_transaction \<Rightarrow> proxy_transaction" where
  "send_response response tx = snd (take_answer (put_out (OutSend response) tx))"

definition abort_client :: "proxy_transaction \<Rightarrow> proxy_transaction" where
  "abort_client tx = (if px_client_alive tx then put_out OutAbort tx else tx)"

definition plain_response :: "int \<Rightarrow> string \<Rightarrow> http_response" where
  "plain_response status reason = HttpResponse_new\<lparr>rs_status := status, rs_reason := reason\<rparr>"

definition HandleClientAbort :: "proxy_transaction \<Rightarrow> proxy_transaction" where
  "HandleClientAbort tx =
     (if px_finished tx then tx
      else
        let tx = tx\<lparr>px_finished := True, px_generation := px_generation tx + 1\<rparr>;
            tx = reset_link (release_active (release_admission (CancelDeadlines tx)));
            status = (if px_committed tx then rh_status (px_response_head tx) else 502);
            tx = abort_client (LogTerminal status ''client_abort'' (CompleteMetric status [] tx))
        in tx\<lparr>px_queued := px_queued tx @ [QueuedCancel (px_active_connection tx)]\<rparr>)"

definition FinishNoEndpoint :: "proxy_transaction \<Rightarrow> proxy_transaction" where
  "FinishNoEndpoint tx =
     (if px_finished tx then tx
      else
        let tx = tx\<lparr>px_finished := True, px_generation := px_generation tx + 1\<rparr>;
            tx = release_admission (CancelDeadlines tx);
            reason = (if px_coordinator_overloaded tx then ''coordinator_overloaded'' else ''no_healthy_endpoint'');
            tx = LogTerminal 503 reason (CompleteMetric 503 reason tx)
        in if \<not> px_client_alive tx then tx
           else send_response (plain_response 503 ''Service Unavailable'') tx)"

definition FinishFailure :: "proxy_transaction \<Rightarrow> proxy_transaction" where
  "FinishFailure tx =
     (if px_finished tx then tx
      else
        let tx = tx\<lparr>px_finished := True, px_generation := px_generation tx + 1\<rparr>;
            tx = release_active (release_admission (CancelDeadlines tx));
            tx = (if px_starting_upstream tx then tx else tx\<lparr>px_upstream := False\<rparr>)
        in if px_committed tx then
             abort_client (LogTerminal 502 ''committed_truncated'' (AccountFailure (CompleteMetric 502 [] tx)))
           else
             let tx = LogTerminal 502 ''upstream_failure'' (CompleteMetric 502 [] tx)
             in if \<not> px_client_alive tx then tx
                else send_response (plain_response 502 ''Bad Gateway'') (AccountFailure tx))"

definition FinishGatewayTimeout :: "proxy_transaction \<Rightarrow> proxy_transaction" where
  "FinishGatewayTimeout tx =
     (if px_finished tx then tx
      else
        let tx = tx\<lparr>px_finished := True, px_generation := px_generation tx + 1\<rparr>;
            tx = release_active (release_admission (CancelDeadlines tx));
            tx = (if px_pool tx \<and> px_active_connection tx \<or> px_upstream tx then put_out OutCancelUpstream tx else tx)
                   \<lparr>px_active_connection := False, px_upstream := False\<rparr>
        in if px_committed tx then
             abort_client (LogTerminal 504 ''timeout'' (AccountFailure (CompleteMetric 504 [] tx)))
           else
             let tx = LogTerminal 504 ''timeout'' (CompleteMetric 504 [] tx)
             in if \<not> px_client_alive tx then tx
                else send_response (plain_response 504 ''Gateway Timeout'') (AccountFailure tx))"

definition HandleDeadline :: "u64 \<Rightarrow> proxy_transaction \<Rightarrow> proxy_transaction" where
  "HandleDeadline generation tx =
     (if px_finished tx \<or> generation \<noteq> px_generation tx then tx else FinishGatewayTimeout tx)"

section \<open>Callbacks of the upstream exchange\<close>

definition other_endpoint :: "endpoint \<Rightarrow> endpoint \<Rightarrow> bool" where
  "other_endpoint e candidate \<longleftrightarrow> ep_address candidate \<noteq> ep_address e \<or> ep_port candidate \<noteq> ep_port e"

definition HasRetryAlternative :: "proxy_transaction \<Rightarrow> bool" where
  "HasRetryAlternative tx =
     (case px_endpoint tx of
        None \<Rightarrow> False
      | Some e \<Rightarrow> \<exists>candidate \<in> set (up_retry_endpoints (px_policy tx)). other_endpoint e candidate)"

definition RetryableFailure :: "upstream_result \<Rightarrow> proxy_transaction \<Rightarrow> bool" where
  "RetryableFailure result tx \<longleftrightarrow>
     \<not> px_committed tx \<and> px_retries tx = 0 \<and> up_retry_budget (px_policy tx) \<noteq> 0
     \<and> (rq_method (px_request tx) = ''GET'' \<or> rq_method (px_request tx) = ''HEAD'')
     \<and> (result = kConnectError \<or> result = kWriteError \<or> result = kReadError \<or> result = kEof)
     \<and> (px_provider tx \<or> HasRetryAlternative tx)"

definition account_status :: "int \<Rightarrow> proxy_transaction \<Rightarrow> proxy_transaction" where
  "account_status status tx = (if status \<ge> 500 then AccountFailure tx else AccountSuccess tx)"

definition HandleUpstream :: "upstream_result \<Rightarrow> http_response \<Rightarrow> proxy_transaction \<Rightarrow> proxy_transaction" where
  "HandleUpstream result response tx =
     (if px_finished tx then tx
      else
        let tx = tx\<lparr>px_active_connection := False\<rparr> in
        if RetryableFailure result tx then
          let tx = release_active tx;
              tx = (if px_client_alive tx then AccountFailure tx else tx)
          in tx\<lparr>px_queued := px_queued tx @ [QueuedRetry]\<rparr>
        else if result \<noteq> kSuccess then FinishFailure tx
        else
          let tx = tx\<lparr>px_finished := True\<rparr>;
              tx = release_active (release_admission (CancelDeadlines tx));
              tx = (if px_starting_upstream tx then tx else tx\<lparr>px_upstream := False\<rparr>);
              status = (if px_committed tx then rh_status (px_response_head tx) else rs_status response)
          in if \<not> px_client_alive tx then LogTerminal status ''client_gone'' (CompleteMetric status [] tx)
             else if px_committed tx then
               account_status status (LogTerminal status [] (CompleteMetric status []
                 (snd (take_answer (put_out OutFinish tx)))))
             else
               send_response (StripResponse response)
                 (account_status status (LogTerminal status [] (CompleteMetric status [] tx))))"

definition HandleResponseHead :: "response_head \<Rightarrow> proxy_transaction \<Rightarrow> proxy_transaction" where
  "HandleResponseHead head tx =
     (if px_finished tx then tx
      else if GatewayDown tx then tx
      else
        let tx = tx\<lparr>px_response_head := StripHead head, px_committed := True\<rparr> in
        if \<not> px_client_alive tx then HandleClientAbort tx
        else case take_answer (put_out (OutBegin (px_response_head tx)) tx) of
               (ClientReturns _, tx) \<Rightarrow> tx
             | (ClientThrows, tx) \<Rightarrow> HandleClientAbort tx
             | (ClientAborts _, tx) \<Rightarrow> HandleClientAbort tx)"

definition PauseUpstreamReading :: "proxy_transaction \<Rightarrow> proxy_transaction" where
  "PauseUpstreamReading tx =
     (if px_read_paused tx then tx
      else let tx = tx\<lparr>px_read_paused := True\<rparr>
           in if px_pool tx \<and> px_active_connection tx \<or> px_upstream tx then put_out OutPause tx else tx)"

definition ResumeUpstreamReading :: "proxy_transaction \<Rightarrow> proxy_transaction" where
  "ResumeUpstreamReading tx =
     (if px_finished tx \<or> GatewayDown tx then tx
      else if \<not> px_read_paused tx then tx
      else let tx = tx\<lparr>px_read_paused := False\<rparr>
           in if px_pool tx \<and> px_active_connection tx \<or> px_upstream tx then put_out OutResume tx else tx)"

definition HandleResponseBody :: "string \<Rightarrow> proxy_transaction \<Rightarrow> bool \<times> proxy_transaction" where
  "HandleResponseBody bytes tx =
     (if px_finished tx then (False, tx)
      else if GatewayDown tx then (False, tx)
      else case take_answer (put_out (OutBody bytes) tx) of
             (ClientThrows, tx) \<Rightarrow> (False, HandleClientAbort tx)
           | (ClientReturns high, tx) \<Rightarrow> (True, if high then PauseUpstreamReading tx else tx)
           | (ClientAborts high, tx) \<Rightarrow>
               (True, let tx = HandleClientAbort tx in if high then PauseUpstreamReading tx else tx))"

definition HandleProgress :: "upstream_progress \<Rightarrow> proxy_transaction \<Rightarrow> proxy_transaction" where
  "HandleProgress progress tx =
     (if px_finished tx then tx
      else if GatewayDown tx then tx
      else case progress of
        kConnected \<Rightarrow>
          (let tx = tx\<lparr>px_connected := True\<rparr>
           in (if px_timers tx then cancel_timer (px_connect_timer tx) tx else tx)\<lparr>px_connect_timer := None\<rparr>)
      | kRequestWritten \<Rightarrow> ArmFirstByteDeadline tx
      | kFirstByte \<Rightarrow>
          (if px_timers tx then cancel_timer (px_first_byte_timer tx) tx else tx)\<lparr>px_first_byte_timer := None\<rparr>
      | kResponseHeader \<Rightarrow> tx\<lparr>px_response_header_received := True\<rparr>)"

section \<open>Attempts\<close>

text \<open>What the exchange calls back, and how starting it ends.\<close>

datatype upstream_call =
    CallProgress upstream_progress
  | CallHead response_head
  | CallBody string
  | CallResult upstream_result http_response

fun handle_call :: "upstream_call \<Rightarrow> proxy_transaction \<Rightarrow> proxy_transaction" where
  "handle_call (CallProgress progress) tx = HandleProgress progress tx"
| "handle_call (CallHead head) tx = HandleResponseHead head tx"
| "handle_call (CallBody bytes) tx = snd (HandleResponseBody bytes tx)"
| "handle_call (CallResult result response) tx = HandleUpstream result response tx"

record start_answer =
  sa_calls :: "upstream_call list"
  sa_throws :: bool

fun is_result :: "upstream_call \<Rightarrow> bool" where
  "is_result (CallResult _ _) = True"
| "is_result _ = False"

text \<open>\<open>Execute\<close> returns the connection unless the exchange completed.\<close>

definition run_exchange :: "start_answer \<Rightarrow> proxy_transaction \<Rightarrow> proxy_transaction" where
  "run_exchange answer tx =
     (let request = StripRequest (px_request tx);
          tx = (put_out (OutExecute (px_endpoint tx) request) tx)
                 \<lparr>px_starting_upstream := True, px_upstream := px_upstream tx \<or> \<not> px_pool tx\<rparr>;
          tx = fold handle_call (sa_calls answer) tx
      in if sa_throws answer
         then HandleUpstream kConnectError HttpResponse_new (tx\<lparr>px_starting_upstream := False\<rparr>)
         else if px_pool tx
         then tx\<lparr>px_active_connection := (\<forall>call \<in> set (sa_calls answer). \<not> is_result call), px_starting_upstream := False\<rparr>
         else let tx = tx\<lparr>px_starting_upstream := False\<rparr>
              in if px_finished tx then tx\<lparr>px_upstream := False\<rparr> else tx)"

text \<open>A selection moves its link and active slot into the transaction.\<close>

definition take_selection :: "attempt_selection \<Rightarrow> proxy_transaction \<Rightarrow> proxy_transaction" where
  "take_selection selection tx =
     (release_active tx)\<lparr>px_endpoint := Some (at_endpoint selection), px_breaker_link := at_link selection,
        px_active_reservation := at_active selection, px_attempt_accounted := False\<rparr>"

definition StartUpstream :: "attempt_decision \<Rightarrow> start_answer \<Rightarrow> proxy_transaction \<Rightarrow> bool \<times> proxy_transaction" where
  "StartUpstream decision answer tx =
     (if GatewayDown tx then (False, tx)
      else
        let tx = CancelAttemptDeadlines tx;
            tx = tx\<lparr>px_generation := px_generation tx + 1, px_connected := False, px_response_header_received := False\<rparr>;
            tx = (reset_link tx)\<lparr>px_coordinator_overloaded := False\<rparr>
        in if px_provider tx then
             (case fst decision of
                None \<Rightarrow> (False, tx\<lparr>px_coordinator_overloaded := snd decision\<rparr>)
              | Some selection \<Rightarrow> (True, run_exchange answer (ArmConnectDeadline (take_selection selection tx))))
           else (True, run_exchange answer (ArmConnectDeadline (tx\<lparr>px_attempt_accounted := False\<rparr>))))"

definition StartRetry :: "attempt_decision \<Rightarrow> start_answer \<Rightarrow> proxy_transaction \<Rightarrow> bool \<times> proxy_transaction" where
  "StartRetry decision answer tx =
     (let start = (\<lambda>tx.
        let (ok, tx) = StartUpstream decision answer tx
        in if \<not> ok then (False, tx) else (True, tx\<lparr>px_retries := px_retries tx + 1\<rparr>))
      in if px_provider tx then start tx
         else case px_endpoint tx of
                None \<Rightarrow> (False, tx)
              | Some e \<Rightarrow>
                  (case find (other_endpoint e) (up_retry_endpoints (px_policy tx)) of
                     None \<Rightarrow> (False, tx)
                   | Some candidate \<Rightarrow> start (tx\<lparr>px_endpoint := Some candidate\<rparr>)))"

text \<open>\<open>metric_ok\<close> says whether the metrics object could begin the request.\<close>

definition Begin :: "bool \<Rightarrow> attempt_decision \<Rightarrow> start_answer \<Rightarrow> proxy_transaction \<Rightarrow> proxy_transaction" where
  "Begin metric_ok decision answer tx =
     (if GatewayDown tx then tx\<lparr>px_finished := True\<rparr>
      else
        let tx = (if px_metrics tx then (if metric_ok then tx\<lparr>px_metric_request := True\<rparr> else tx\<lparr>px_metrics := False\<rparr>) else tx);
            tx = ArmTotalDeadline tx;
            (ok, tx) = StartUpstream decision answer tx
        in if \<not> ok then FinishNoEndpoint tx else tx)"

text \<open>The closures that run at the end of an event batch.\<close>

definition queued_retry :: "attempt_decision \<Rightarrow> start_answer \<Rightarrow> proxy_transaction \<Rightarrow> proxy_transaction" where
  "queued_retry decision answer tx =
     (if px_finished tx then tx
      else let (ok, tx) = StartRetry decision answer tx in if \<not> ok then FinishFailure tx else tx)"

definition queued_cancel :: "bool \<Rightarrow> proxy_transaction \<Rightarrow> proxy_transaction" where
  "queued_cancel connection tx =
     (if px_pool tx \<and> connection then put_out OutCancelUpstream tx
      else if px_upstream tx then (put_out OutCancelUpstream tx)\<lparr>px_upstream := False\<rparr>
      else tx)"

text \<open>The timer callbacks; a fired timer is no longer pending.\<close>

fun deadline_fired :: "tx_timer \<Rightarrow> proxy_transaction \<Rightarrow> proxy_transaction" where
  "deadline_fired (ConnectDeadline generation) tx = HandleDeadline generation tx"
| "deadline_fired (FirstByteDeadline generation) tx = HandleDeadline generation tx"
| "deadline_fired TotalDeadline tx = (if px_finished tx then tx else FinishGatewayTimeout tx)"

text \<open>A transaction as its constructor leaves it.\<close>

definition ProxyTransaction_new ::
    "http_request \<Rightarrow> endpoint option \<Rightarrow> upstream_policy \<Rightarrow> bool \<Rightarrow> bool \<Rightarrow> bool \<Rightarrow> bool \<Rightarrow> bool \<Rightarrow> bool \<Rightarrow> proxy_transaction" where
  "ProxyTransaction_new request endpoint policy provider pool timers metrics log_callback reservation =
     \<lparr>px_request = request, px_endpoint = endpoint, px_policy = policy, px_provider = provider, px_pool = pool,
      px_timers = timers, px_metrics = metrics, px_log_callback = log_callback, px_reservation = reservation,
      px_metric_request = False, px_breaker_link = None, px_active_reservation = None, px_attempt_accounted = False,
      px_upstream = False, px_active_connection = False, px_connect_timer = None, px_first_byte_timer = None,
      px_total_timer = None, px_generation = 0, px_retries = 0, px_coordinator_overloaded = False, px_connected = False,
      px_response_header_received = False, px_committed = False, px_read_paused = False, px_starting_upstream = False,
      px_finished = False,
      px_response_head = HttpResponseHead_new,
      px_logged = False, px_client_alive = True, px_gateway_down = False, px_client = [], px_pending = [], px_queued = [], px_out = []\<rparr>"

end
