(* ===== verification/ProxyRuns.thy ===== *)
theory ProxyRuns
  imports ProxyTransaction "HOL-Library.Multiset"
begin

text \<open>
  Every run of a transaction: its events in any order that its collaborators allow, and what
  holds after each of them about the response the client gets, the deadlines, the resources the
  transaction holds, and the number of attempts.
\<close>

section \<open>Events\<close>

text \<open>
  An upstream exchange reports a head before the body, at most one head, and nothing after its
  result.
\<close>

datatype exchange = ExNone | ExStarted | ExHead

fun exchange_call :: "exchange \<Rightarrow> upstream_call \<Rightarrow> exchange option" where
  "exchange_call ExNone _ = None"
| "exchange_call x (CallProgress _) = Some x"
| "exchange_call ExStarted (CallHead _) = Some ExHead"
| "exchange_call ExHead (CallBody _) = Some ExHead"
| "exchange_call x (CallResult _ _) = Some ExNone"
| "exchange_call _ _ = None"

fun exchange_calls :: "exchange \<Rightarrow> upstream_call list \<Rightarrow> exchange option" where
  "exchange_calls x [] = Some x"
| "exchange_calls x (call # calls) = Option.bind (exchange_call x call) (\<lambda>x. exchange_calls x calls)"

text \<open>Starting an exchange that throws has not reported a result.\<close>

definition exchange_started :: "start_answer \<Rightarrow> exchange option" where
  "exchange_started answer =
     (if sa_throws answer \<and> (\<exists>call \<in> set (sa_calls answer). is_result call) then None
      else map_option (\<lambda>x. if sa_throws answer then ExNone else x) (exchange_calls ExStarted (sa_calls answer)))"

text \<open>A link comes with an unused outcome reservation.\<close>

definition decision_ok :: "attempt_decision \<Rightarrow> bool" where
  "decision_ok decision =
     (case fst decision of
        None \<Rightarrow> True
      | Some selection \<Rightarrow>
          (case at_link selection of
             None \<Rightarrow> True
           | Some link \<Rightarrow> rv_state (bl_outcome_reservation link) \<and> \<not> rv_finalized (bl_outcome_reservation link)))"

text \<open>
  A transaction with the state of its exchange and the selections it has taken.
\<close>

record tx_system =
  sy_tx :: proxy_transaction
  sy_exchange :: exchange
  sy_selected :: "attempt_selection list"

text \<open>An attempt takes the selection unless the gateway is down or there is none.\<close>

definition taken :: "attempt_decision \<Rightarrow> proxy_transaction \<Rightarrow> attempt_selection list" where
  "taken decision tx =
     (if GatewayDown tx \<or> \<not> px_provider tx then []
      else case fst decision of None \<Rightarrow> [] | Some selection \<Rightarrow> [selection])"

definition starts :: "attempt_decision \<Rightarrow> proxy_transaction \<Rightarrow> bool" where
  "starts decision tx \<longleftrightarrow> \<not> GatewayDown tx \<and> (px_provider tx \<longrightarrow> fst decision \<noteq> None)"

inductive tx_step :: "tx_system \<Rightarrow> tx_system \<Rightarrow> bool" where
  call: "exchange_call (sy_exchange y) c = Some x \<Longrightarrow>
    tx_step y (y\<lparr>sy_tx := handle_call c (sy_tx y), sy_exchange := x\<rparr>)"
| retry: "px_queued (sy_tx y) = QueuedRetry # rest \<Longrightarrow> tx = (sy_tx y)\<lparr>px_queued := rest\<rparr> \<Longrightarrow>
    decision_ok decision \<Longrightarrow> exchange_started answer = Some x \<Longrightarrow>
    tx_step y (y\<lparr>sy_tx := queued_retry decision answer tx,
      sy_exchange := (if px_finished tx \<or> \<not> starts decision tx then sy_exchange y else x),
      sy_selected := sy_selected y @ (if px_finished tx then [] else taken decision tx)\<rparr>)"
| cancel: "px_queued (sy_tx y) = QueuedCancel connection # rest \<Longrightarrow>
    tx_step y (y\<lparr>sy_tx := queued_cancel connection ((sy_tx y)\<lparr>px_queued := rest\<rparr>)\<rparr>)"
| deadline: "timer \<in> set (px_pending (sy_tx y)) \<Longrightarrow>
    tx_step y (y\<lparr>sy_tx := deadline_fired timer ((sy_tx y)\<lparr>px_pending := remove1 timer (px_pending (sy_tx y))\<rparr>)\<rparr>)"
| drained: "tx_step y (y\<lparr>sy_tx := ResumeUpstreamReading (sy_tx y)\<rparr>)"
| client_abort: "tx_step y (y\<lparr>sy_tx := HandleClientAbort (sy_tx y)\<rparr>)"
| client_gone: "tx_step y (y\<lparr>sy_tx := (sy_tx y)\<lparr>px_client_alive := False\<rparr>\<rparr>)"
| client_answers: "tx_step y (y\<lparr>sy_tx := (sy_tx y)\<lparr>px_client := answers\<rparr>\<rparr>)"
| gateway_gone: "tx_step y (y\<lparr>sy_tx := (sy_tx y)\<lparr>px_gateway_down := True\<rparr>\<rparr>)"

inductive_cases tx_step_cases: "tx_step y y'"

text \<open>A transaction is started with a live gateway.\<close>

definition tx_begin :: "bool \<Rightarrow> attempt_decision \<Rightarrow> start_answer \<Rightarrow> exchange \<Rightarrow> proxy_transaction \<Rightarrow> tx_system" where
  "tx_begin metric_ok decision answer x tx =
     \<lparr>sy_tx = Begin metric_ok decision answer tx,
      sy_exchange = (if starts decision tx then x else ExNone), sy_selected = taken decision tx\<rparr>"

inductive tx_run :: "proxy_transaction \<Rightarrow> tx_system \<Rightarrow> bool" for tx where
  begin_tx: "decision_ok decision \<Longrightarrow> exchange_started answer = Some x \<Longrightarrow> tx_run tx (tx_begin metric_ok decision answer x tx)"
| step_tx: "tx_run tx y \<Longrightarrow> tx_step y y' \<Longrightarrow> tx_run tx y'"

definition tx_fresh :: "proxy_transaction \<Rightarrow> bool" where
  "tx_fresh tx \<longleftrightarrow> (\<exists>request endpoint policy provider pool timers metrics log_callback reservation answers.
     tx = (ProxyTransaction_new request endpoint policy provider pool timers metrics log_callback reservation)\<lparr>px_client := answers\<rparr>)"

section \<open>What the client gets\<close>

datatype client_phase = Waiting | Streaming | Over

fun client_output :: "client_phase \<Rightarrow> tx_output \<Rightarrow> client_phase option" where
  "client_output Waiting (OutSend _) = Some Over"
| "client_output Waiting (OutBegin _) = Some Streaming"
| "client_output Waiting OutAbort = Some Over"
| "client_output Streaming (OutBody _) = Some Streaming"
| "client_output Streaming OutFinish = Some Over"
| "client_output Streaming OutAbort = Some Over"
| "client_output _ (OutSend _) = None"
| "client_output _ (OutBegin _) = None"
| "client_output _ (OutBody _) = None"
| "client_output _ OutFinish = None"
| "client_output _ OutAbort = None"
| "client_output p _ = Some p"

definition client_phase :: "tx_output list \<Rightarrow> client_phase option" where
  "client_phase out = foldl (\<lambda>p x. Option.bind p (\<lambda>p. client_output p x)) (Some Waiting) out"

lemma client_phase_Nil [simp]: "client_phase [] = Some Waiting"
  by (simp add: client_phase_def)

lemma client_phase_snoc [simp]: "client_phase (out @ [x]) = Option.bind (client_phase out) (\<lambda>p. client_output p x)"
  by (simp add: client_phase_def)

lemma client_output_others [simp]:
  "client_output p (OutExecute e r) = Some p" "client_output p (OutSchedule t d) = Some p" "client_output p (OutPublish a) = Some p"
  "client_output p (OutReturnOutcome b) = Some p" "client_output p OutReleaseAdmission = Some p"
  "client_output p (OutReleaseActive l) = Some p" "client_output p (OutMetric i u) = Some p" "client_output p (OutLog i u) = Some p"
  "client_output p OutPause = Some p" "client_output p OutResume = Some p" "client_output p OutCancelUpstream = Some p"
  by (cases p; simp)+

section \<open>What the trace shows\<close>

fun is_execute :: "tx_output \<Rightarrow> bool" where
  "is_execute (OutExecute _ _) = True"
| "is_execute _ = False"

definition attempts :: "tx_output list \<Rightarrow> nat" where
  "attempts out = length (filter is_execute out)"

text \<open>The permits whose outcome was published or given back.\<close>

fun settled_permits :: "tx_output \<Rightarrow> attempt_permit list" where
  "settled_permits (OutPublish r) = [ar_permit r]"
| "settled_permits (OutReturnOutcome p) = [p]"
| "settled_permits _ = []"

definition settled :: "tx_output list \<Rightarrow> attempt_permit multiset" where
  "settled out = mset (concat (map settled_permits out))"

fun slots_of :: "tx_output \<Rightarrow> (nat \<times> nat) list" where
  "slots_of (OutReleaseActive slot) = [slot]"
| "slots_of _ = []"

definition released_slots :: "tx_output list \<Rightarrow> (nat \<times> nat) multiset" where
  "released_slots out = mset (concat (map slots_of out))"

definition released_admissions :: "tx_output list \<Rightarrow> nat" where
  "released_admissions out = count_list out OutReleaseAdmission"

lemma trace_snoc [simp]:
  "attempts (out @ [x]) = attempts out + (if is_execute x then 1 else 0)"
  "settled (out @ [x]) = settled out + mset (settled_permits x)"
  "released_slots (out @ [x]) = released_slots out + mset (slots_of x)"
  "released_admissions (out @ [x]) = released_admissions out + (if x = OutReleaseAdmission then 1 else 0)"
  by (simp_all add: attempts_def settled_def released_slots_def released_admissions_def)

lemma trace_Nil [simp]: "attempts [] = 0" "settled [] = {#}" "released_slots [] = {#}" "released_admissions [] = 0"
  by (simp_all add: attempts_def settled_def released_slots_def released_admissions_def)

section \<open>What the steps leave alone\<close>

lemma put_out_frame [simp]:
  "px_finished (put_out x tx) = px_finished tx" "px_committed (put_out x tx) = px_committed tx" "px_client_alive (put_out x tx) = px_client_alive tx"
  "px_gateway_down (put_out x tx) = px_gateway_down tx" "px_starting_upstream (put_out x tx) = px_starting_upstream tx" "px_queued (put_out x tx) = px_queued tx"
  "px_retries (put_out x tx) = px_retries tx" "px_policy (put_out x tx) = px_policy tx" "px_request (put_out x tx) = px_request tx"
  "px_provider (put_out x tx) = px_provider tx" "px_timers (put_out x tx) = px_timers tx" "px_pool (put_out x tx) = px_pool tx"
  "px_endpoint (put_out x tx) = px_endpoint tx" "px_client (put_out x tx) = px_client tx" "px_reservation (put_out x tx) = px_reservation tx"
  "px_active_reservation (put_out x tx) = px_active_reservation tx" "px_breaker_link (put_out x tx) = px_breaker_link tx" "px_attempt_accounted (put_out x tx) = px_attempt_accounted tx"
  "px_pending (put_out x tx) = px_pending tx" "px_connect_timer (put_out x tx) = px_connect_timer tx" "px_first_byte_timer (put_out x tx) = px_first_byte_timer tx"
  "px_total_timer (put_out x tx) = px_total_timer tx" "px_out (put_out x tx) = px_out tx @ [x]"
  by (simp_all add: put_out_def)

lemma take_answer_frame [simp]:
  "px_finished (snd (take_answer tx)) = px_finished tx" "px_committed (snd (take_answer tx)) = px_committed tx" "px_client_alive (snd (take_answer tx)) = px_client_alive tx"
  "px_gateway_down (snd (take_answer tx)) = px_gateway_down tx" "px_starting_upstream (snd (take_answer tx)) = px_starting_upstream tx" "px_queued (snd (take_answer tx)) = px_queued tx"
  "px_retries (snd (take_answer tx)) = px_retries tx" "px_policy (snd (take_answer tx)) = px_policy tx" "px_request (snd (take_answer tx)) = px_request tx"
  "px_provider (snd (take_answer tx)) = px_provider tx" "px_timers (snd (take_answer tx)) = px_timers tx" "px_pool (snd (take_answer tx)) = px_pool tx"
  "px_endpoint (snd (take_answer tx)) = px_endpoint tx" "px_reservation (snd (take_answer tx)) = px_reservation tx" "px_active_reservation (snd (take_answer tx)) = px_active_reservation tx"
  "px_breaker_link (snd (take_answer tx)) = px_breaker_link tx" "px_attempt_accounted (snd (take_answer tx)) = px_attempt_accounted tx" "px_pending (snd (take_answer tx)) = px_pending tx"
  "px_connect_timer (snd (take_answer tx)) = px_connect_timer tx" "px_first_byte_timer (snd (take_answer tx)) = px_first_byte_timer tx" "px_total_timer (snd (take_answer tx)) = px_total_timer tx"
  "px_out (snd (take_answer tx)) = px_out tx"
  by (simp_all add: take_answer_def split: list.split)

lemma cancel_timer_frame [simp]:
  "px_finished (cancel_timer t tx) = px_finished tx" "px_committed (cancel_timer t tx) = px_committed tx" "px_client_alive (cancel_timer t tx) = px_client_alive tx"
  "px_gateway_down (cancel_timer t tx) = px_gateway_down tx" "px_starting_upstream (cancel_timer t tx) = px_starting_upstream tx" "px_queued (cancel_timer t tx) = px_queued tx"
  "px_retries (cancel_timer t tx) = px_retries tx" "px_policy (cancel_timer t tx) = px_policy tx" "px_request (cancel_timer t tx) = px_request tx"
  "px_provider (cancel_timer t tx) = px_provider tx" "px_timers (cancel_timer t tx) = px_timers tx" "px_pool (cancel_timer t tx) = px_pool tx"
  "px_endpoint (cancel_timer t tx) = px_endpoint tx" "px_client (cancel_timer t tx) = px_client tx" "px_reservation (cancel_timer t tx) = px_reservation tx"
  "px_active_reservation (cancel_timer t tx) = px_active_reservation tx" "px_breaker_link (cancel_timer t tx) = px_breaker_link tx" "px_attempt_accounted (cancel_timer t tx) = px_attempt_accounted tx"
  "px_connect_timer (cancel_timer t tx) = px_connect_timer tx" "px_first_byte_timer (cancel_timer t tx) = px_first_byte_timer tx" "px_total_timer (cancel_timer t tx) = px_total_timer tx"
  "client_phase (px_out (cancel_timer t tx)) = client_phase (px_out tx)" "attempts (px_out (cancel_timer t tx)) = attempts (px_out tx)" "settled (px_out (cancel_timer t tx)) = settled (px_out tx)"
  "released_slots (px_out (cancel_timer t tx)) = released_slots (px_out tx)" "released_admissions (px_out (cancel_timer t tx)) = released_admissions (px_out tx)"
  by (simp_all add: cancel_timer_def split: option.split prod.split)

lemma CancelAttemptDeadlines_frame [simp]:
  "px_finished (CancelAttemptDeadlines tx) = px_finished tx" "px_committed (CancelAttemptDeadlines tx) = px_committed tx" "px_client_alive (CancelAttemptDeadlines tx) = px_client_alive tx"
  "px_gateway_down (CancelAttemptDeadlines tx) = px_gateway_down tx" "px_starting_upstream (CancelAttemptDeadlines tx) = px_starting_upstream tx" "px_queued (CancelAttemptDeadlines tx) = px_queued tx"
  "px_retries (CancelAttemptDeadlines tx) = px_retries tx" "px_policy (CancelAttemptDeadlines tx) = px_policy tx" "px_request (CancelAttemptDeadlines tx) = px_request tx"
  "px_provider (CancelAttemptDeadlines tx) = px_provider tx" "px_timers (CancelAttemptDeadlines tx) = px_timers tx" "px_pool (CancelAttemptDeadlines tx) = px_pool tx"
  "px_endpoint (CancelAttemptDeadlines tx) = px_endpoint tx" "px_client (CancelAttemptDeadlines tx) = px_client tx" "px_reservation (CancelAttemptDeadlines tx) = px_reservation tx"
  "px_active_reservation (CancelAttemptDeadlines tx) = px_active_reservation tx" "px_breaker_link (CancelAttemptDeadlines tx) = px_breaker_link tx" "px_attempt_accounted (CancelAttemptDeadlines tx) = px_attempt_accounted tx"
  "px_total_timer (CancelAttemptDeadlines tx) = px_total_timer tx" "client_phase (px_out (CancelAttemptDeadlines tx)) = client_phase (px_out tx)" "attempts (px_out (CancelAttemptDeadlines tx)) = attempts (px_out tx)"
  "settled (px_out (CancelAttemptDeadlines tx)) = settled (px_out tx)" "released_slots (px_out (CancelAttemptDeadlines tx)) = released_slots (px_out tx)" "released_admissions (px_out (CancelAttemptDeadlines tx)) = released_admissions (px_out tx)"
  by (simp_all add: CancelAttemptDeadlines_def split: option.split prod.split)

lemma CancelDeadlines_frame [simp]:
  "px_finished (CancelDeadlines tx) = px_finished tx" "px_committed (CancelDeadlines tx) = px_committed tx" "px_client_alive (CancelDeadlines tx) = px_client_alive tx"
  "px_gateway_down (CancelDeadlines tx) = px_gateway_down tx" "px_starting_upstream (CancelDeadlines tx) = px_starting_upstream tx" "px_queued (CancelDeadlines tx) = px_queued tx"
  "px_retries (CancelDeadlines tx) = px_retries tx" "px_policy (CancelDeadlines tx) = px_policy tx" "px_request (CancelDeadlines tx) = px_request tx"
  "px_provider (CancelDeadlines tx) = px_provider tx" "px_timers (CancelDeadlines tx) = px_timers tx" "px_pool (CancelDeadlines tx) = px_pool tx"
  "px_endpoint (CancelDeadlines tx) = px_endpoint tx" "px_client (CancelDeadlines tx) = px_client tx" "px_reservation (CancelDeadlines tx) = px_reservation tx"
  "px_active_reservation (CancelDeadlines tx) = px_active_reservation tx" "px_breaker_link (CancelDeadlines tx) = px_breaker_link tx" "px_attempt_accounted (CancelDeadlines tx) = px_attempt_accounted tx"
  "client_phase (px_out (CancelDeadlines tx)) = client_phase (px_out tx)" "attempts (px_out (CancelDeadlines tx)) = attempts (px_out tx)" "settled (px_out (CancelDeadlines tx)) = settled (px_out tx)"
  "released_slots (px_out (CancelDeadlines tx)) = released_slots (px_out tx)" "released_admissions (px_out (CancelDeadlines tx)) = released_admissions (px_out tx)"
  by (simp_all add: CancelDeadlines_def Let_def split: option.split prod.split)

lemma schedule_frame [simp]:
  "px_finished (schedule d t tx) = px_finished tx" "px_committed (schedule d t tx) = px_committed tx" "px_client_alive (schedule d t tx) = px_client_alive tx"
  "px_gateway_down (schedule d t tx) = px_gateway_down tx" "px_starting_upstream (schedule d t tx) = px_starting_upstream tx" "px_queued (schedule d t tx) = px_queued tx"
  "px_retries (schedule d t tx) = px_retries tx" "px_policy (schedule d t tx) = px_policy tx" "px_request (schedule d t tx) = px_request tx"
  "px_provider (schedule d t tx) = px_provider tx" "px_timers (schedule d t tx) = px_timers tx" "px_pool (schedule d t tx) = px_pool tx"
  "px_endpoint (schedule d t tx) = px_endpoint tx" "px_client (schedule d t tx) = px_client tx" "px_reservation (schedule d t tx) = px_reservation tx"
  "px_active_reservation (schedule d t tx) = px_active_reservation tx" "px_breaker_link (schedule d t tx) = px_breaker_link tx" "px_attempt_accounted (schedule d t tx) = px_attempt_accounted tx"
  "px_connect_timer (schedule d t tx) = px_connect_timer tx" "px_first_byte_timer (schedule d t tx) = px_first_byte_timer tx" "px_total_timer (schedule d t tx) = px_total_timer tx"
  "client_phase (px_out (schedule d t tx)) = client_phase (px_out tx)" "attempts (px_out (schedule d t tx)) = attempts (px_out tx)" "settled (px_out (schedule d t tx)) = settled (px_out tx)"
  "released_slots (px_out (schedule d t tx)) = released_slots (px_out tx)" "released_admissions (px_out (schedule d t tx)) = released_admissions (px_out tx)"
  by (simp_all add: schedule_def split: option.split prod.split)

lemma ArmConnectDeadline_frame [simp]:
  "px_finished (ArmConnectDeadline tx) = px_finished tx" "px_committed (ArmConnectDeadline tx) = px_committed tx" "px_client_alive (ArmConnectDeadline tx) = px_client_alive tx"
  "px_gateway_down (ArmConnectDeadline tx) = px_gateway_down tx" "px_starting_upstream (ArmConnectDeadline tx) = px_starting_upstream tx" "px_queued (ArmConnectDeadline tx) = px_queued tx"
  "px_retries (ArmConnectDeadline tx) = px_retries tx" "px_policy (ArmConnectDeadline tx) = px_policy tx" "px_request (ArmConnectDeadline tx) = px_request tx"
  "px_provider (ArmConnectDeadline tx) = px_provider tx" "px_timers (ArmConnectDeadline tx) = px_timers tx" "px_pool (ArmConnectDeadline tx) = px_pool tx"
  "px_endpoint (ArmConnectDeadline tx) = px_endpoint tx" "px_client (ArmConnectDeadline tx) = px_client tx" "px_reservation (ArmConnectDeadline tx) = px_reservation tx"
  "px_active_reservation (ArmConnectDeadline tx) = px_active_reservation tx" "px_breaker_link (ArmConnectDeadline tx) = px_breaker_link tx" "px_attempt_accounted (ArmConnectDeadline tx) = px_attempt_accounted tx"
  "px_first_byte_timer (ArmConnectDeadline tx) = px_first_byte_timer tx" "px_total_timer (ArmConnectDeadline tx) = px_total_timer tx" "client_phase (px_out (ArmConnectDeadline tx)) = client_phase (px_out tx)"
  "attempts (px_out (ArmConnectDeadline tx)) = attempts (px_out tx)" "settled (px_out (ArmConnectDeadline tx)) = settled (px_out tx)" "released_slots (px_out (ArmConnectDeadline tx)) = released_slots (px_out tx)"
  "released_admissions (px_out (ArmConnectDeadline tx)) = released_admissions (px_out tx)"
  by (simp_all add: ArmConnectDeadline_def Let_def split: option.split prod.split)

lemma ArmFirstByteDeadline_frame [simp]:
  "px_finished (ArmFirstByteDeadline tx) = px_finished tx" "px_committed (ArmFirstByteDeadline tx) = px_committed tx" "px_client_alive (ArmFirstByteDeadline tx) = px_client_alive tx"
  "px_gateway_down (ArmFirstByteDeadline tx) = px_gateway_down tx" "px_starting_upstream (ArmFirstByteDeadline tx) = px_starting_upstream tx" "px_queued (ArmFirstByteDeadline tx) = px_queued tx"
  "px_retries (ArmFirstByteDeadline tx) = px_retries tx" "px_policy (ArmFirstByteDeadline tx) = px_policy tx" "px_request (ArmFirstByteDeadline tx) = px_request tx"
  "px_provider (ArmFirstByteDeadline tx) = px_provider tx" "px_timers (ArmFirstByteDeadline tx) = px_timers tx" "px_pool (ArmFirstByteDeadline tx) = px_pool tx"
  "px_endpoint (ArmFirstByteDeadline tx) = px_endpoint tx" "px_client (ArmFirstByteDeadline tx) = px_client tx" "px_reservation (ArmFirstByteDeadline tx) = px_reservation tx"
  "px_active_reservation (ArmFirstByteDeadline tx) = px_active_reservation tx" "px_breaker_link (ArmFirstByteDeadline tx) = px_breaker_link tx" "px_attempt_accounted (ArmFirstByteDeadline tx) = px_attempt_accounted tx"
  "px_connect_timer (ArmFirstByteDeadline tx) = px_connect_timer tx" "px_total_timer (ArmFirstByteDeadline tx) = px_total_timer tx" "client_phase (px_out (ArmFirstByteDeadline tx)) = client_phase (px_out tx)"
  "attempts (px_out (ArmFirstByteDeadline tx)) = attempts (px_out tx)" "settled (px_out (ArmFirstByteDeadline tx)) = settled (px_out tx)" "released_slots (px_out (ArmFirstByteDeadline tx)) = released_slots (px_out tx)"
  "released_admissions (px_out (ArmFirstByteDeadline tx)) = released_admissions (px_out tx)"
  by (simp_all add: ArmFirstByteDeadline_def Let_def split: option.split prod.split)

lemma ArmTotalDeadline_frame [simp]:
  "px_finished (ArmTotalDeadline tx) = px_finished tx" "px_committed (ArmTotalDeadline tx) = px_committed tx" "px_client_alive (ArmTotalDeadline tx) = px_client_alive tx"
  "px_gateway_down (ArmTotalDeadline tx) = px_gateway_down tx" "px_starting_upstream (ArmTotalDeadline tx) = px_starting_upstream tx" "px_queued (ArmTotalDeadline tx) = px_queued tx"
  "px_retries (ArmTotalDeadline tx) = px_retries tx" "px_policy (ArmTotalDeadline tx) = px_policy tx" "px_request (ArmTotalDeadline tx) = px_request tx"
  "px_provider (ArmTotalDeadline tx) = px_provider tx" "px_timers (ArmTotalDeadline tx) = px_timers tx" "px_pool (ArmTotalDeadline tx) = px_pool tx"
  "px_endpoint (ArmTotalDeadline tx) = px_endpoint tx" "px_client (ArmTotalDeadline tx) = px_client tx" "px_reservation (ArmTotalDeadline tx) = px_reservation tx"
  "px_active_reservation (ArmTotalDeadline tx) = px_active_reservation tx" "px_breaker_link (ArmTotalDeadline tx) = px_breaker_link tx" "px_attempt_accounted (ArmTotalDeadline tx) = px_attempt_accounted tx"
  "px_connect_timer (ArmTotalDeadline tx) = px_connect_timer tx" "px_first_byte_timer (ArmTotalDeadline tx) = px_first_byte_timer tx" "client_phase (px_out (ArmTotalDeadline tx)) = client_phase (px_out tx)"
  "attempts (px_out (ArmTotalDeadline tx)) = attempts (px_out tx)" "settled (px_out (ArmTotalDeadline tx)) = settled (px_out tx)" "released_slots (px_out (ArmTotalDeadline tx)) = released_slots (px_out tx)"
  "released_admissions (px_out (ArmTotalDeadline tx)) = released_admissions (px_out tx)"
  by (simp_all add: ArmTotalDeadline_def split: option.split prod.split)

lemma release_admission_frame [simp]:
  "px_finished (release_admission tx) = px_finished tx" "px_committed (release_admission tx) = px_committed tx" "px_client_alive (release_admission tx) = px_client_alive tx"
  "px_gateway_down (release_admission tx) = px_gateway_down tx" "px_starting_upstream (release_admission tx) = px_starting_upstream tx" "px_queued (release_admission tx) = px_queued tx"
  "px_retries (release_admission tx) = px_retries tx" "px_policy (release_admission tx) = px_policy tx" "px_request (release_admission tx) = px_request tx"
  "px_provider (release_admission tx) = px_provider tx" "px_timers (release_admission tx) = px_timers tx" "px_pool (release_admission tx) = px_pool tx"
  "px_endpoint (release_admission tx) = px_endpoint tx" "px_client (release_admission tx) = px_client tx" "px_active_reservation (release_admission tx) = px_active_reservation tx"
  "px_breaker_link (release_admission tx) = px_breaker_link tx" "px_attempt_accounted (release_admission tx) = px_attempt_accounted tx" "px_pending (release_admission tx) = px_pending tx"
  "px_connect_timer (release_admission tx) = px_connect_timer tx" "px_first_byte_timer (release_admission tx) = px_first_byte_timer tx" "px_total_timer (release_admission tx) = px_total_timer tx"
  "client_phase (px_out (release_admission tx)) = client_phase (px_out tx)" "attempts (px_out (release_admission tx)) = attempts (px_out tx)" "settled (px_out (release_admission tx)) = settled (px_out tx)"
  "released_slots (px_out (release_admission tx)) = released_slots (px_out tx)"
  by (simp_all add: release_admission_def split: option.split prod.split)

lemma release_active_frame [simp]:
  "px_finished (release_active tx) = px_finished tx" "px_committed (release_active tx) = px_committed tx" "px_client_alive (release_active tx) = px_client_alive tx"
  "px_gateway_down (release_active tx) = px_gateway_down tx" "px_starting_upstream (release_active tx) = px_starting_upstream tx" "px_queued (release_active tx) = px_queued tx"
  "px_retries (release_active tx) = px_retries tx" "px_policy (release_active tx) = px_policy tx" "px_request (release_active tx) = px_request tx"
  "px_provider (release_active tx) = px_provider tx" "px_timers (release_active tx) = px_timers tx" "px_pool (release_active tx) = px_pool tx"
  "px_endpoint (release_active tx) = px_endpoint tx" "px_client (release_active tx) = px_client tx" "px_reservation (release_active tx) = px_reservation tx"
  "px_breaker_link (release_active tx) = px_breaker_link tx" "px_attempt_accounted (release_active tx) = px_attempt_accounted tx" "px_pending (release_active tx) = px_pending tx"
  "px_connect_timer (release_active tx) = px_connect_timer tx" "px_first_byte_timer (release_active tx) = px_first_byte_timer tx" "px_total_timer (release_active tx) = px_total_timer tx"
  "client_phase (px_out (release_active tx)) = client_phase (px_out tx)" "attempts (px_out (release_active tx)) = attempts (px_out tx)" "settled (px_out (release_active tx)) = settled (px_out tx)"
  "released_admissions (px_out (release_active tx)) = released_admissions (px_out tx)"
  by (simp_all add: release_active_def split: option.split prod.split)

lemma reset_link_frame [simp]:
  "px_finished (reset_link tx) = px_finished tx" "px_committed (reset_link tx) = px_committed tx" "px_client_alive (reset_link tx) = px_client_alive tx"
  "px_gateway_down (reset_link tx) = px_gateway_down tx" "px_starting_upstream (reset_link tx) = px_starting_upstream tx" "px_queued (reset_link tx) = px_queued tx"
  "px_retries (reset_link tx) = px_retries tx" "px_policy (reset_link tx) = px_policy tx" "px_request (reset_link tx) = px_request tx"
  "px_provider (reset_link tx) = px_provider tx" "px_timers (reset_link tx) = px_timers tx" "px_pool (reset_link tx) = px_pool tx"
  "px_endpoint (reset_link tx) = px_endpoint tx" "px_client (reset_link tx) = px_client tx" "px_reservation (reset_link tx) = px_reservation tx"
  "px_active_reservation (reset_link tx) = px_active_reservation tx" "px_attempt_accounted (reset_link tx) = px_attempt_accounted tx" "px_pending (reset_link tx) = px_pending tx"
  "px_connect_timer (reset_link tx) = px_connect_timer tx" "px_first_byte_timer (reset_link tx) = px_first_byte_timer tx" "px_total_timer (reset_link tx) = px_total_timer tx"
  "client_phase (px_out (reset_link tx)) = client_phase (px_out tx)" "attempts (px_out (reset_link tx)) = attempts (px_out tx)" "released_slots (px_out (reset_link tx)) = released_slots (px_out tx)"
  "released_admissions (px_out (reset_link tx)) = released_admissions (px_out tx)"
  by (simp_all add: reset_link_def split: option.split prod.split)

lemma publish_outcome_frame [simp]:
  "px_finished (publish_outcome b tx) = px_finished tx" "px_committed (publish_outcome b tx) = px_committed tx" "px_client_alive (publish_outcome b tx) = px_client_alive tx"
  "px_gateway_down (publish_outcome b tx) = px_gateway_down tx" "px_starting_upstream (publish_outcome b tx) = px_starting_upstream tx" "px_queued (publish_outcome b tx) = px_queued tx"
  "px_retries (publish_outcome b tx) = px_retries tx" "px_policy (publish_outcome b tx) = px_policy tx" "px_request (publish_outcome b tx) = px_request tx"
  "px_provider (publish_outcome b tx) = px_provider tx" "px_timers (publish_outcome b tx) = px_timers tx" "px_pool (publish_outcome b tx) = px_pool tx"
  "px_endpoint (publish_outcome b tx) = px_endpoint tx" "px_client (publish_outcome b tx) = px_client tx" "px_reservation (publish_outcome b tx) = px_reservation tx"
  "px_active_reservation (publish_outcome b tx) = px_active_reservation tx" "px_pending (publish_outcome b tx) = px_pending tx" "px_connect_timer (publish_outcome b tx) = px_connect_timer tx"
  "px_first_byte_timer (publish_outcome b tx) = px_first_byte_timer tx" "px_total_timer (publish_outcome b tx) = px_total_timer tx" "client_phase (px_out (publish_outcome b tx)) = client_phase (px_out tx)"
  "attempts (px_out (publish_outcome b tx)) = attempts (px_out tx)" "released_slots (px_out (publish_outcome b tx)) = released_slots (px_out tx)" "released_admissions (px_out (publish_outcome b tx)) = released_admissions (px_out tx)"
  by (simp_all add: publish_outcome_def Let_def split: option.split prod.split)

lemma CompleteMetric_frame [simp]:
  "px_finished (CompleteMetric s r tx) = px_finished tx" "px_committed (CompleteMetric s r tx) = px_committed tx" "px_client_alive (CompleteMetric s r tx) = px_client_alive tx"
  "px_gateway_down (CompleteMetric s r tx) = px_gateway_down tx" "px_starting_upstream (CompleteMetric s r tx) = px_starting_upstream tx" "px_queued (CompleteMetric s r tx) = px_queued tx"
  "px_retries (CompleteMetric s r tx) = px_retries tx" "px_policy (CompleteMetric s r tx) = px_policy tx" "px_request (CompleteMetric s r tx) = px_request tx"
  "px_provider (CompleteMetric s r tx) = px_provider tx" "px_timers (CompleteMetric s r tx) = px_timers tx" "px_pool (CompleteMetric s r tx) = px_pool tx"
  "px_endpoint (CompleteMetric s r tx) = px_endpoint tx" "px_client (CompleteMetric s r tx) = px_client tx" "px_reservation (CompleteMetric s r tx) = px_reservation tx"
  "px_active_reservation (CompleteMetric s r tx) = px_active_reservation tx" "px_breaker_link (CompleteMetric s r tx) = px_breaker_link tx" "px_attempt_accounted (CompleteMetric s r tx) = px_attempt_accounted tx"
  "px_pending (CompleteMetric s r tx) = px_pending tx" "px_connect_timer (CompleteMetric s r tx) = px_connect_timer tx" "px_first_byte_timer (CompleteMetric s r tx) = px_first_byte_timer tx"
  "px_total_timer (CompleteMetric s r tx) = px_total_timer tx" "client_phase (px_out (CompleteMetric s r tx)) = client_phase (px_out tx)" "attempts (px_out (CompleteMetric s r tx)) = attempts (px_out tx)"
  "settled (px_out (CompleteMetric s r tx)) = settled (px_out tx)" "released_slots (px_out (CompleteMetric s r tx)) = released_slots (px_out tx)" "released_admissions (px_out (CompleteMetric s r tx)) = released_admissions (px_out tx)"
  by (simp_all add: CompleteMetric_def split: option.split prod.split)

lemma LogTerminal_frame [simp]:
  "px_finished (LogTerminal s r tx) = px_finished tx" "px_committed (LogTerminal s r tx) = px_committed tx" "px_client_alive (LogTerminal s r tx) = px_client_alive tx"
  "px_gateway_down (LogTerminal s r tx) = px_gateway_down tx" "px_starting_upstream (LogTerminal s r tx) = px_starting_upstream tx" "px_queued (LogTerminal s r tx) = px_queued tx"
  "px_retries (LogTerminal s r tx) = px_retries tx" "px_policy (LogTerminal s r tx) = px_policy tx" "px_request (LogTerminal s r tx) = px_request tx"
  "px_provider (LogTerminal s r tx) = px_provider tx" "px_timers (LogTerminal s r tx) = px_timers tx" "px_pool (LogTerminal s r tx) = px_pool tx"
  "px_endpoint (LogTerminal s r tx) = px_endpoint tx" "px_client (LogTerminal s r tx) = px_client tx" "px_reservation (LogTerminal s r tx) = px_reservation tx"
  "px_active_reservation (LogTerminal s r tx) = px_active_reservation tx" "px_breaker_link (LogTerminal s r tx) = px_breaker_link tx" "px_attempt_accounted (LogTerminal s r tx) = px_attempt_accounted tx"
  "px_pending (LogTerminal s r tx) = px_pending tx" "px_connect_timer (LogTerminal s r tx) = px_connect_timer tx" "px_first_byte_timer (LogTerminal s r tx) = px_first_byte_timer tx"
  "px_total_timer (LogTerminal s r tx) = px_total_timer tx" "client_phase (px_out (LogTerminal s r tx)) = client_phase (px_out tx)" "attempts (px_out (LogTerminal s r tx)) = attempts (px_out tx)"
  "settled (px_out (LogTerminal s r tx)) = settled (px_out tx)" "released_slots (px_out (LogTerminal s r tx)) = released_slots (px_out tx)" "released_admissions (px_out (LogTerminal s r tx)) = released_admissions (px_out tx)"
  by (simp_all add: LogTerminal_def split: option.split prod.split)

lemma send_response_frame [simp]:
  "px_finished (send_response p tx) = px_finished tx" "px_committed (send_response p tx) = px_committed tx" "px_client_alive (send_response p tx) = px_client_alive tx"
  "px_gateway_down (send_response p tx) = px_gateway_down tx" "px_starting_upstream (send_response p tx) = px_starting_upstream tx" "px_queued (send_response p tx) = px_queued tx"
  "px_retries (send_response p tx) = px_retries tx" "px_policy (send_response p tx) = px_policy tx" "px_request (send_response p tx) = px_request tx"
  "px_provider (send_response p tx) = px_provider tx" "px_timers (send_response p tx) = px_timers tx" "px_pool (send_response p tx) = px_pool tx"
  "px_endpoint (send_response p tx) = px_endpoint tx" "px_reservation (send_response p tx) = px_reservation tx" "px_active_reservation (send_response p tx) = px_active_reservation tx"
  "px_breaker_link (send_response p tx) = px_breaker_link tx" "px_attempt_accounted (send_response p tx) = px_attempt_accounted tx" "px_pending (send_response p tx) = px_pending tx"
  "px_connect_timer (send_response p tx) = px_connect_timer tx" "px_first_byte_timer (send_response p tx) = px_first_byte_timer tx" "px_total_timer (send_response p tx) = px_total_timer tx"
  "attempts (px_out (send_response p tx)) = attempts (px_out tx)" "settled (px_out (send_response p tx)) = settled (px_out tx)" "released_slots (px_out (send_response p tx)) = released_slots (px_out tx)"
  "released_admissions (px_out (send_response p tx)) = released_admissions (px_out tx)"
  by (simp_all add: send_response_def split: option.split prod.split)

lemma abort_client_frame [simp]:
  "px_finished (abort_client tx) = px_finished tx" "px_committed (abort_client tx) = px_committed tx" "px_client_alive (abort_client tx) = px_client_alive tx"
  "px_gateway_down (abort_client tx) = px_gateway_down tx" "px_starting_upstream (abort_client tx) = px_starting_upstream tx" "px_queued (abort_client tx) = px_queued tx"
  "px_retries (abort_client tx) = px_retries tx" "px_policy (abort_client tx) = px_policy tx" "px_request (abort_client tx) = px_request tx"
  "px_provider (abort_client tx) = px_provider tx" "px_timers (abort_client tx) = px_timers tx" "px_pool (abort_client tx) = px_pool tx"
  "px_endpoint (abort_client tx) = px_endpoint tx" "px_client (abort_client tx) = px_client tx" "px_reservation (abort_client tx) = px_reservation tx"
  "px_active_reservation (abort_client tx) = px_active_reservation tx" "px_breaker_link (abort_client tx) = px_breaker_link tx" "px_attempt_accounted (abort_client tx) = px_attempt_accounted tx"
  "px_pending (abort_client tx) = px_pending tx" "px_connect_timer (abort_client tx) = px_connect_timer tx" "px_first_byte_timer (abort_client tx) = px_first_byte_timer tx"
  "px_total_timer (abort_client tx) = px_total_timer tx" "attempts (px_out (abort_client tx)) = attempts (px_out tx)" "settled (px_out (abort_client tx)) = settled (px_out tx)"
  "released_slots (px_out (abort_client tx)) = released_slots (px_out tx)" "released_admissions (px_out (abort_client tx)) = released_admissions (px_out tx)"
  by (simp_all add: abort_client_def split: option.split prod.split)

lemma take_answer_cases:
  obtains a answers where "take_answer tx = (a, tx\<lparr>px_client := answers\<rparr>)"
proof (cases "px_client tx")
  case Nil
  then show ?thesis using that [of "ClientReturns False" "[]"] by (simp add: take_answer_def)
next
  case (Cons a rest)
  then show ?thesis using that [of a rest] by (simp add: take_answer_def)
qed

lemma HandleClientAbort_static [simp]:
  "px_client_alive (HandleClientAbort tx) = px_client_alive tx" "px_gateway_down (HandleClientAbort tx) = px_gateway_down tx" "px_starting_upstream (HandleClientAbort tx) = px_starting_upstream tx"
  "px_retries (HandleClientAbort tx) = px_retries tx" "px_policy (HandleClientAbort tx) = px_policy tx" "px_request (HandleClientAbort tx) = px_request tx"
  "px_provider (HandleClientAbort tx) = px_provider tx" "px_timers (HandleClientAbort tx) = px_timers tx" "px_pool (HandleClientAbort tx) = px_pool tx"
  "px_endpoint (HandleClientAbort tx) = px_endpoint tx" "attempts (px_out (HandleClientAbort tx)) = attempts (px_out tx)"
  by (simp_all add: HandleClientAbort_def Let_def)

lemma FinishNoEndpoint_static [simp]:
  "px_client_alive (FinishNoEndpoint tx) = px_client_alive tx" "px_gateway_down (FinishNoEndpoint tx) = px_gateway_down tx" "px_starting_upstream (FinishNoEndpoint tx) = px_starting_upstream tx"
  "px_retries (FinishNoEndpoint tx) = px_retries tx" "px_policy (FinishNoEndpoint tx) = px_policy tx" "px_request (FinishNoEndpoint tx) = px_request tx"
  "px_provider (FinishNoEndpoint tx) = px_provider tx" "px_timers (FinishNoEndpoint tx) = px_timers tx" "px_pool (FinishNoEndpoint tx) = px_pool tx"
  "px_endpoint (FinishNoEndpoint tx) = px_endpoint tx" "attempts (px_out (FinishNoEndpoint tx)) = attempts (px_out tx)"
  by (simp_all add: FinishNoEndpoint_def Let_def)

lemma FinishFailure_static [simp]:
  "px_client_alive (FinishFailure tx) = px_client_alive tx" "px_gateway_down (FinishFailure tx) = px_gateway_down tx" "px_starting_upstream (FinishFailure tx) = px_starting_upstream tx"
  "px_retries (FinishFailure tx) = px_retries tx" "px_policy (FinishFailure tx) = px_policy tx" "px_request (FinishFailure tx) = px_request tx"
  "px_provider (FinishFailure tx) = px_provider tx" "px_timers (FinishFailure tx) = px_timers tx" "px_pool (FinishFailure tx) = px_pool tx"
  "px_endpoint (FinishFailure tx) = px_endpoint tx" "attempts (px_out (FinishFailure tx)) = attempts (px_out tx)"
  by (simp_all add: FinishFailure_def AccountFailure_def Let_def)

lemma FinishGatewayTimeout_static [simp]:
  "px_client_alive (FinishGatewayTimeout tx) = px_client_alive tx" "px_gateway_down (FinishGatewayTimeout tx) = px_gateway_down tx" "px_starting_upstream (FinishGatewayTimeout tx) = px_starting_upstream tx"
  "px_retries (FinishGatewayTimeout tx) = px_retries tx" "px_policy (FinishGatewayTimeout tx) = px_policy tx" "px_request (FinishGatewayTimeout tx) = px_request tx"
  "px_provider (FinishGatewayTimeout tx) = px_provider tx" "px_timers (FinishGatewayTimeout tx) = px_timers tx" "px_pool (FinishGatewayTimeout tx) = px_pool tx"
  "px_endpoint (FinishGatewayTimeout tx) = px_endpoint tx" "attempts (px_out (FinishGatewayTimeout tx)) = attempts (px_out tx)"
  by (simp_all add: FinishGatewayTimeout_def AccountFailure_def Let_def)

lemma HandleDeadline_static [simp]:
  "px_client_alive (HandleDeadline g tx) = px_client_alive tx" "px_gateway_down (HandleDeadline g tx) = px_gateway_down tx" "px_starting_upstream (HandleDeadline g tx) = px_starting_upstream tx"
  "px_retries (HandleDeadline g tx) = px_retries tx" "px_policy (HandleDeadline g tx) = px_policy tx" "px_request (HandleDeadline g tx) = px_request tx"
  "px_provider (HandleDeadline g tx) = px_provider tx" "px_timers (HandleDeadline g tx) = px_timers tx" "px_pool (HandleDeadline g tx) = px_pool tx"
  "px_endpoint (HandleDeadline g tx) = px_endpoint tx" "attempts (px_out (HandleDeadline g tx)) = attempts (px_out tx)"
  by (simp_all add: HandleDeadline_def Let_def)

lemma HandleUpstream_static [simp]:
  "px_client_alive (HandleUpstream r p tx) = px_client_alive tx" "px_gateway_down (HandleUpstream r p tx) = px_gateway_down tx" "px_starting_upstream (HandleUpstream r p tx) = px_starting_upstream tx"
  "px_retries (HandleUpstream r p tx) = px_retries tx" "px_policy (HandleUpstream r p tx) = px_policy tx" "px_request (HandleUpstream r p tx) = px_request tx"
  "px_provider (HandleUpstream r p tx) = px_provider tx" "px_timers (HandleUpstream r p tx) = px_timers tx" "px_pool (HandleUpstream r p tx) = px_pool tx"
  "px_endpoint (HandleUpstream r p tx) = px_endpoint tx" "attempts (px_out (HandleUpstream r p tx)) = attempts (px_out tx)"
  by (simp_all add: HandleUpstream_def account_status_def AccountFailure_def AccountSuccess_def Let_def)

lemma HandleResponseHead_static [simp]:
  "px_client_alive (HandleResponseHead h tx) = px_client_alive tx" "px_gateway_down (HandleResponseHead h tx) = px_gateway_down tx" "px_starting_upstream (HandleResponseHead h tx) = px_starting_upstream tx"
  "px_retries (HandleResponseHead h tx) = px_retries tx" "px_policy (HandleResponseHead h tx) = px_policy tx" "px_request (HandleResponseHead h tx) = px_request tx"
  "px_provider (HandleResponseHead h tx) = px_provider tx" "px_timers (HandleResponseHead h tx) = px_timers tx" "px_pool (HandleResponseHead h tx) = px_pool tx"
  "px_endpoint (HandleResponseHead h tx) = px_endpoint tx" "attempts (px_out (HandleResponseHead h tx)) = attempts (px_out tx)"
  by (rule take_answer_cases [of "put_out (OutBegin (StripHead h)) (tx\<lparr>px_response_head := StripHead h, px_committed := True\<rparr>)"];
      simp add: HandleResponseHead_def Let_def split: client_answer.split)+

lemma PauseUpstreamReading_static [simp]:
  "px_client_alive (PauseUpstreamReading tx) = px_client_alive tx" "px_gateway_down (PauseUpstreamReading tx) = px_gateway_down tx" "px_starting_upstream (PauseUpstreamReading tx) = px_starting_upstream tx"
  "px_retries (PauseUpstreamReading tx) = px_retries tx" "px_policy (PauseUpstreamReading tx) = px_policy tx" "px_request (PauseUpstreamReading tx) = px_request tx"
  "px_provider (PauseUpstreamReading tx) = px_provider tx" "px_timers (PauseUpstreamReading tx) = px_timers tx" "px_pool (PauseUpstreamReading tx) = px_pool tx"
  "px_endpoint (PauseUpstreamReading tx) = px_endpoint tx" "attempts (px_out (PauseUpstreamReading tx)) = attempts (px_out tx)"
  by (simp_all add: PauseUpstreamReading_def Let_def)

lemma ResumeUpstreamReading_static [simp]:
  "px_client_alive (ResumeUpstreamReading tx) = px_client_alive tx" "px_gateway_down (ResumeUpstreamReading tx) = px_gateway_down tx" "px_starting_upstream (ResumeUpstreamReading tx) = px_starting_upstream tx"
  "px_retries (ResumeUpstreamReading tx) = px_retries tx" "px_policy (ResumeUpstreamReading tx) = px_policy tx" "px_request (ResumeUpstreamReading tx) = px_request tx"
  "px_provider (ResumeUpstreamReading tx) = px_provider tx" "px_timers (ResumeUpstreamReading tx) = px_timers tx" "px_pool (ResumeUpstreamReading tx) = px_pool tx"
  "px_endpoint (ResumeUpstreamReading tx) = px_endpoint tx" "attempts (px_out (ResumeUpstreamReading tx)) = attempts (px_out tx)"
  by (simp_all add: ResumeUpstreamReading_def Let_def)

lemma HandleResponseBody_static [simp]:
  "px_client_alive (snd (HandleResponseBody b tx)) = px_client_alive tx" "px_gateway_down (snd (HandleResponseBody b tx)) = px_gateway_down tx" "px_starting_upstream (snd (HandleResponseBody b tx)) = px_starting_upstream tx"
  "px_retries (snd (HandleResponseBody b tx)) = px_retries tx" "px_policy (snd (HandleResponseBody b tx)) = px_policy tx" "px_request (snd (HandleResponseBody b tx)) = px_request tx"
  "px_provider (snd (HandleResponseBody b tx)) = px_provider tx" "px_timers (snd (HandleResponseBody b tx)) = px_timers tx" "px_pool (snd (HandleResponseBody b tx)) = px_pool tx"
  "px_endpoint (snd (HandleResponseBody b tx)) = px_endpoint tx" "attempts (px_out (snd (HandleResponseBody b tx))) = attempts (px_out tx)"
  by (rule take_answer_cases [of "put_out (OutBody b) tx"]; simp add: HandleResponseBody_def Let_def split: client_answer.split)+

lemma HandleProgress_static [simp]:
  "px_client_alive (HandleProgress q tx) = px_client_alive tx" "px_gateway_down (HandleProgress q tx) = px_gateway_down tx" "px_starting_upstream (HandleProgress q tx) = px_starting_upstream tx"
  "px_retries (HandleProgress q tx) = px_retries tx" "px_policy (HandleProgress q tx) = px_policy tx" "px_request (HandleProgress q tx) = px_request tx"
  "px_provider (HandleProgress q tx) = px_provider tx" "px_timers (HandleProgress q tx) = px_timers tx" "px_pool (HandleProgress q tx) = px_pool tx"
  "px_endpoint (HandleProgress q tx) = px_endpoint tx" "attempts (px_out (HandleProgress q tx)) = attempts (px_out tx)"
  by (simp_all add: HandleProgress_def Let_def split: upstream_progress.split)

lemma handle_call_static [simp]:
  "px_client_alive (handle_call c tx) = px_client_alive tx" "px_gateway_down (handle_call c tx) = px_gateway_down tx" "px_starting_upstream (handle_call c tx) = px_starting_upstream tx"
  "px_retries (handle_call c tx) = px_retries tx" "px_policy (handle_call c tx) = px_policy tx" "px_request (handle_call c tx) = px_request tx"
  "px_provider (handle_call c tx) = px_provider tx" "px_timers (handle_call c tx) = px_timers tx" "px_pool (handle_call c tx) = px_pool tx"
  "px_endpoint (handle_call c tx) = px_endpoint tx" "attempts (px_out (handle_call c tx)) = attempts (px_out tx)"
  by (cases c; simp)+

lemma handle_calls_static [simp]:
  "px_client_alive (fold handle_call cs tx) = px_client_alive tx" "px_gateway_down (fold handle_call cs tx) = px_gateway_down tx" "px_starting_upstream (fold handle_call cs tx) = px_starting_upstream tx"
  "px_retries (fold handle_call cs tx) = px_retries tx" "px_policy (fold handle_call cs tx) = px_policy tx" "px_request (fold handle_call cs tx) = px_request tx"
  "px_provider (fold handle_call cs tx) = px_provider tx" "px_timers (fold handle_call cs tx) = px_timers tx" "px_pool (fold handle_call cs tx) = px_pool tx"
  "px_endpoint (fold handle_call cs tx) = px_endpoint tx" "attempts (px_out (fold handle_call cs tx)) = attempts (px_out tx)"
  by (induction cs arbitrary: tx; simp)+

section \<open>One response per request\<close>

text \<open>What the client was told fits the state of the transaction.\<close>

definition told :: "proxy_transaction \<Rightarrow> bool" where
  "told tx \<longleftrightarrow>
     (if px_finished tx then client_phase (px_out tx) \<noteq> None \<and> (px_client_alive tx \<longrightarrow> client_phase (px_out tx) = Some Over)
      else client_phase (px_out tx) = Some (if px_committed tx then Streaming else Waiting))"

lemma told_unfinished: "\<not> px_finished tx \<Longrightarrow> told tx \<longleftrightarrow> client_phase (px_out tx) = Some (if px_committed tx then Streaming else Waiting)"
  by (simp add: told_def)

lemma send_response_phase [simp]: "client_phase (px_out (send_response p tx)) = Option.bind (client_phase (px_out tx)) (\<lambda>ph. client_output ph (OutSend p))"
  by (simp add: send_response_def)

lemma abort_client_phase [simp]:
  "client_phase (px_out (abort_client tx)) =
     (if px_client_alive tx then Option.bind (client_phase (px_out tx)) (\<lambda>ph. client_output ph OutAbort) else client_phase (px_out tx))"
  by (simp add: abort_client_def)

lemma told_HandleClientAbort [intro]: "told tx \<Longrightarrow> told (HandleClientAbort tx)"
  by (auto simp: told_def HandleClientAbort_def Let_def)

lemma told_FinishNoEndpoint [intro]: "told tx \<Longrightarrow> \<not> px_committed tx \<Longrightarrow> told (FinishNoEndpoint tx)"
  by (auto simp: told_def FinishNoEndpoint_def Let_def)

lemma told_FinishFailure [intro]: "told tx \<Longrightarrow> told (FinishFailure tx)"
  by (auto simp: told_def FinishFailure_def AccountFailure_def Let_def)

lemma told_FinishGatewayTimeout [intro]: "told tx \<Longrightarrow> told (FinishGatewayTimeout tx)"
  by (auto simp: told_def FinishGatewayTimeout_def AccountFailure_def Let_def)

lemma told_HandleUpstream [intro]:
  assumes "told tx"
  shows "told (HandleUpstream r p tx)"
proof (cases "px_finished tx \<or> RetryableFailure r (tx\<lparr>px_active_connection := False\<rparr>) \<or> r = kSuccess")
  case True
  then show ?thesis using assms
    by (auto simp: HandleUpstream_def Let_def told_def account_status_def AccountFailure_def AccountSuccess_def)
next
  case False
  then have "HandleUpstream r p tx = FinishFailure (tx\<lparr>px_active_connection := False\<rparr>)" by (simp add: HandleUpstream_def Let_def)
  then show ?thesis using assms told_FinishFailure [of "tx\<lparr>px_active_connection := False\<rparr>"] by (simp add: told_def)
qed

lemma terminal_finished [simp]:
  "px_finished (HandleClientAbort tx)" "px_finished (FinishNoEndpoint tx)" "px_finished (FinishFailure tx)" "px_finished (FinishGatewayTimeout tx)"
  by (simp_all add: HandleClientAbort_def FinishNoEndpoint_def FinishFailure_def FinishGatewayTimeout_def AccountFailure_def Let_def)

lemma handle_call_finished [simp]: "px_finished tx \<Longrightarrow> handle_call c tx = tx"
  by (cases c) (simp_all add: HandleProgress_def HandleResponseHead_def HandleResponseBody_def HandleUpstream_def)

lemma handle_calls_finished [simp]: "px_finished tx \<Longrightarrow> fold handle_call cs tx = tx"
  by (induction cs) simp_all

text \<open>The queued retry and the exchange exclude each other, and a committed response belongs to
  the running exchange.\<close>

definition relays :: "exchange \<Rightarrow> proxy_transaction \<Rightarrow> bool" where
  "relays x tx \<longleftrightarrow> told tx \<and>
     (px_finished tx \<or>
       (px_committed tx \<longrightarrow> x = ExHead) \<and> (x = ExHead \<longrightarrow> px_committed tx \<or> px_gateway_down tx) \<and>
       count_list (px_queued tx) QueuedRetry \<le> (if x = ExNone then 1 else 0))"

lemma relays_finished: "px_finished tx \<Longrightarrow> relays x tx \<longleftrightarrow> told tx"
  by (simp add: relays_def)

lemma HandleProgress_control [simp]:
  "px_finished (HandleProgress q tx) = px_finished tx" "px_committed (HandleProgress q tx) = px_committed tx"
  "px_queued (HandleProgress q tx) = px_queued tx" "client_phase (px_out (HandleProgress q tx)) = client_phase (px_out tx)"
  by (simp_all add: HandleProgress_def Let_def split: upstream_progress.split)

lemma PauseUpstreamReading_control [simp]:
  "px_finished (PauseUpstreamReading tx) = px_finished tx" "px_committed (PauseUpstreamReading tx) = px_committed tx"
  "px_queued (PauseUpstreamReading tx) = px_queued tx" "client_phase (px_out (PauseUpstreamReading tx)) = client_phase (px_out tx)"
  by (simp_all add: PauseUpstreamReading_def Let_def)

lemma ResumeUpstreamReading_control [simp]:
  "px_finished (ResumeUpstreamReading tx) = px_finished tx" "px_committed (ResumeUpstreamReading tx) = px_committed tx"
  "px_queued (ResumeUpstreamReading tx) = px_queued tx" "client_phase (px_out (ResumeUpstreamReading tx)) = client_phase (px_out tx)"
  by (simp_all add: ResumeUpstreamReading_def Let_def)

lemma told_control:
  assumes "px_finished tx' = px_finished tx" "px_committed tx' = px_committed tx" "px_client_alive tx' = px_client_alive tx"
    and "client_phase (px_out tx') = client_phase (px_out tx)"
  shows "told tx' = told tx"
  by (simp add: told_def assms)

lemma relays_control:
  assumes "px_finished tx' = px_finished tx" "px_committed tx' = px_committed tx" "px_client_alive tx' = px_client_alive tx"
    and "client_phase (px_out tx') = client_phase (px_out tx)" "px_queued tx' = px_queued tx" "px_gateway_down tx' = px_gateway_down tx"
  shows "relays x tx' = relays x tx"
  by (simp add: relays_def told_control [of tx' tx] assms)

text \<open>A failed attempt that may be retried queues exactly one retry; any other result ends the
  transaction.\<close>

lemma HandleUpstream_outcome:
  assumes "\<not> px_finished tx"
  shows "px_finished (HandleUpstream r p tx) \<longleftrightarrow> \<not> RetryableFailure r (tx\<lparr>px_active_connection := False\<rparr>)"
    and "RetryableFailure r (tx\<lparr>px_active_connection := False\<rparr>) \<Longrightarrow>
      px_queued (HandleUpstream r p tx) = px_queued tx @ [QueuedRetry] \<and> px_committed (HandleUpstream r p tx) = px_committed tx"
  using assms by (auto simp: HandleUpstream_def Let_def account_status_def AccountFailure_def AccountSuccess_def)

lemma RetryableFailure_uncommitted: "RetryableFailure r (tx\<lparr>px_active_connection := b\<rparr>) \<Longrightarrow> \<not> px_committed tx"
  by (simp add: RetryableFailure_def)

lemma relays_call:
  assumes rel: "relays x tx" and call: "exchange_call x c = Some x'"
  shows "relays x' (handle_call c tx)"
proof (cases "px_finished tx")
  case True
  then show ?thesis using rel by (simp add: relays_def)
next
  case open_tx: False
  show ?thesis
  proof (cases c)
    case (CallProgress q)
    then have "x' = x" using call by (cases x) auto
    then show ?thesis using rel CallProgress relays_control [of "HandleProgress q tx" tx x] by simp
  next
    case (CallResult r p)
    have x': "x' = ExNone" and x: "x \<noteq> ExNone" using call CallResult by (cases x; simp)+
    have told: "told (HandleUpstream r p tx)" using rel by (auto simp: relays_def)
    have none: "count_list (px_queued tx) QueuedRetry = 0" using rel x open_tx by (simp add: relays_def)
    show ?thesis
    proof (cases "RetryableFailure r (tx\<lparr>px_active_connection := False\<rparr>)")
      case True
      then show ?thesis
        using told CallResult HandleUpstream_outcome [OF open_tx, of r p] RetryableFailure_uncommitted [OF True] none x'
        by (simp add: relays_def)
    next
      case False
      then show ?thesis using told CallResult HandleUpstream_outcome(1) [OF open_tx, of r p] by (simp add: relays_def)
    qed
  next
    case (CallHead h)
    have x: "x = ExStarted" "x' = ExHead" using call CallHead by (cases x; simp)+
    define started where "started = put_out (OutBegin (StripHead h)) (tx\<lparr>px_response_head := StripHead h, px_committed := True\<rparr>)"
    have begun: "told (started\<lparr>px_client := answers\<rparr>)" for answers
      using rel open_tx x by (simp add: relays_def told_def started_def)
    have waiting: "client_phase (px_out tx) = Some Waiting" using rel open_tx x by (simp add: relays_def told_def)
    obtain a answers where answer: "take_answer started = (a, started\<lparr>px_client := answers\<rparr>)" by (rule take_answer_cases)
    have "handle_call c tx = (if px_gateway_down tx then tx
        else if \<not> px_client_alive tx then HandleClientAbort (tx\<lparr>px_response_head := StripHead h, px_committed := True\<rparr>)
        else case a of ClientReturns _ \<Rightarrow> started\<lparr>px_client := answers\<rparr> | _ \<Rightarrow> HandleClientAbort (started\<lparr>px_client := answers\<rparr>))"
      using answer open_tx CallHead
      by (simp add: HandleResponseHead_def Let_def GatewayDown_def started_def split: client_answer.split)
    moreover have "told (HandleClientAbort (tx\<lparr>px_response_head := StripHead h, px_committed := True\<rparr>))" if "\<not> px_client_alive tx"
      using waiting open_tx that by (simp add: told_def HandleClientAbort_def Let_def)
    ultimately show ?thesis
      using begun [of answers] told_HandleClientAbort [OF begun [of answers]] rel open_tx x
      by (auto simp: relays_def started_def split: client_answer.split)
  next
    case (CallBody b)
    have x: "x = ExHead" "x' = ExHead" using call CallBody by (cases x; simp)+
    define sent where "sent = put_out (OutBody b) tx"
    obtain a answers where answer: "take_answer sent = (a, sent\<lparr>px_client := answers\<rparr>)" by (rule take_answer_cases)
    have eq: "handle_call c tx = (if px_gateway_down tx then tx
        else case a of ClientThrows \<Rightarrow> HandleClientAbort (sent\<lparr>px_client := answers\<rparr>)
          | ClientReturns high \<Rightarrow> (if high then PauseUpstreamReading (sent\<lparr>px_client := answers\<rparr>) else sent\<lparr>px_client := answers\<rparr>)
          | ClientAborts high \<Rightarrow> (if high then PauseUpstreamReading (HandleClientAbort (sent\<lparr>px_client := answers\<rparr>))
              else HandleClientAbort (sent\<lparr>px_client := answers\<rparr>)))"
      using answer open_tx CallBody
      by (simp add: HandleResponseBody_def Let_def GatewayDown_def sent_def split: client_answer.split)
    have kept: "relays ExHead (sent\<lparr>px_client := answers\<rparr>)" if "\<not> px_gateway_down tx"
      using rel open_tx x that by (simp add: relays_def told_def sent_def)
    have aborted: "relays ExHead (HandleClientAbort (sent\<lparr>px_client := answers\<rparr>))" if "\<not> px_gateway_down tx"
      using kept [OF that] by (auto simp: relays_def)
    show ?thesis
      unfolding eq x(2) using rel x kept aborted
        relays_control [of "PauseUpstreamReading (sent\<lparr>px_client := answers\<rparr>)" "sent\<lparr>px_client := answers\<rparr>" ExHead]
        relays_control [of "PauseUpstreamReading (HandleClientAbort (sent\<lparr>px_client := answers\<rparr>))" "HandleClientAbort (sent\<lparr>px_client := answers\<rparr>)" ExHead]
      by (simp split: client_answer.split)
  qed
qed

lemma relays_calls: "exchange_calls x cs = Some x' \<Longrightarrow> relays x tx \<Longrightarrow> relays x' (fold handle_call cs tx)"
  by (induction cs arbitrary: x tx) (auto simp: bind_eq_Some_conv intro: relays_call)

lemma exchange_calls_running:
  "exchange_calls x cs = Some x' \<Longrightarrow> x \<noteq> ExNone \<Longrightarrow> \<forall>call \<in> set cs. \<not> is_result call \<Longrightarrow> x' \<noteq> ExNone"
proof (induction cs arbitrary: x)
  case (Cons c cs)
  obtain x1 where x1: "exchange_call x c = Some x1" "exchange_calls x1 cs = Some x'"
    using Cons.prems(1) by (auto simp: bind_eq_Some_conv)
  have "x1 \<noteq> ExNone" using x1(1) Cons.prems(2,3) by (cases x; cases c) auto
  then show ?case using Cons.IH x1(2) Cons.prems(3) by simp
qed simp

lemma relays_result: "relays x tx \<Longrightarrow> x \<noteq> ExNone \<Longrightarrow> relays ExNone (HandleUpstream r p tx)"
  using relays_call [of x tx "CallResult r p" ExNone] by (cases x) auto

lemma relays_run_exchange:
  assumes "\<not> px_finished tx" "\<not> px_committed tx" "told tx" "count_list (px_queued tx) QueuedRetry = 0"
    and started: "exchange_started answer = Some x"
  shows "relays x (run_exchange answer tx)"
proof -
  define executed where "executed = (put_out (OutExecute (px_endpoint tx) (StripRequest (px_request tx))) tx)
    \<lparr>px_starting_upstream := True, px_upstream := px_upstream tx \<or> \<not> px_pool tx\<rparr>"
  define called where "called = fold handle_call (sa_calls answer) executed"
  have "relays ExStarted executed" using assms(1-4) by (simp add: relays_def told_def executed_def)
  moreover obtain x0 where x0: "exchange_calls ExStarted (sa_calls answer) = Some x0" "x = (if sa_throws answer then ExNone else x0)"
    and no_result: "sa_throws answer \<Longrightarrow> \<forall>call \<in> set (sa_calls answer). \<not> is_result call"
    using started by (auto simp: exchange_started_def split: if_splits)
  ultimately have rel: "relays x0 called" unfolding called_def using relays_calls by blast
  have pool: "px_pool called = px_pool tx" by (simp add: called_def executed_def)
  have eq: "run_exchange answer tx =
     (if sa_throws answer then HandleUpstream kConnectError HttpResponse_new (called\<lparr>px_starting_upstream := False\<rparr>)
      else if px_pool called
      then called\<lparr>px_active_connection := (\<forall>call \<in> set (sa_calls answer). \<not> is_result call), px_starting_upstream := False\<rparr>
      else if px_finished called then called\<lparr>px_starting_upstream := False, px_upstream := False\<rparr>
      else called\<lparr>px_starting_upstream := False\<rparr>)"
    by (simp add: run_exchange_def Let_def called_def executed_def)
  have kept: "relays x0 (called\<lparr>px_starting_upstream := False\<rparr>)"
    "relays x0 (called\<lparr>px_starting_upstream := False, px_upstream := False\<rparr>)"
    "relays x0 (called\<lparr>px_active_connection := b, px_starting_upstream := False\<rparr>)" for b
    using rel by (simp_all add: relays_def told_def)
  show ?thesis
  proof (cases "sa_throws answer")
    case True
    then have "x0 \<noteq> ExNone" using exchange_calls_running [OF x0(1)] no_result by simp
    then show ?thesis using True relays_result [OF kept(1)] x0(2) by (simp add: eq)
  next
    case False
    then show ?thesis using kept x0(2) by (simp add: eq)
  qed
qed

text \<open>An attempt in two parts: the state in which the exchange starts, and the exchange.\<close>

definition prepared :: "attempt_decision \<Rightarrow> proxy_transaction \<Rightarrow> proxy_transaction" where
  "prepared decision tx =
     (let tx = CancelAttemptDeadlines tx;
          tx = tx\<lparr>px_generation := px_generation tx + 1, px_connected := False, px_response_header_received := False\<rparr>;
          tx = (reset_link tx)\<lparr>px_coordinator_overloaded := False\<rparr>
      in if px_provider tx then
           (case fst decision of
              None \<Rightarrow> tx\<lparr>px_coordinator_overloaded := snd decision\<rparr>
            | Some selection \<Rightarrow> ArmConnectDeadline (take_selection selection tx))
         else ArmConnectDeadline (tx\<lparr>px_attempt_accounted := False\<rparr>))"

lemma prepared_frame [simp]:
  "px_finished (prepared d tx) = px_finished tx" "px_committed (prepared d tx) = px_committed tx" "px_client_alive (prepared d tx) = px_client_alive tx"
  "px_gateway_down (prepared d tx) = px_gateway_down tx" "px_starting_upstream (prepared d tx) = px_starting_upstream tx" "px_queued (prepared d tx) = px_queued tx"
  "px_retries (prepared d tx) = px_retries tx" "px_policy (prepared d tx) = px_policy tx" "px_request (prepared d tx) = px_request tx"
  "px_provider (prepared d tx) = px_provider tx" "px_timers (prepared d tx) = px_timers tx" "px_pool (prepared d tx) = px_pool tx"
  "px_reservation (prepared d tx) = px_reservation tx" "px_total_timer (prepared d tx) = px_total_timer tx" "client_phase (px_out (prepared d tx)) = client_phase (px_out tx)"
  "attempts (px_out (prepared d tx)) = attempts (px_out tx)" "released_admissions (px_out (prepared d tx)) = released_admissions (px_out tx)"
  by (simp_all add: prepared_def take_selection_def Let_def split: option.split)

lemma StartUpstream_eq:
  "StartUpstream decision answer tx =
     (if GatewayDown tx then (False, tx)
      else if starts decision tx then (True, run_exchange answer (prepared decision tx))
      else (False, prepared decision tx))"
  by (simp add: StartUpstream_def prepared_def starts_def Let_def split: option.split)

definition retry_target :: "proxy_transaction \<Rightarrow> proxy_transaction option" where
  "retry_target tx =
     (if px_provider tx then Some tx
      else map_option (\<lambda>e. tx\<lparr>px_endpoint := Some e\<rparr>)
        (Option.bind (px_endpoint tx) (\<lambda>e. find (other_endpoint e) (up_retry_endpoints (px_policy tx)))))"

lemma StartRetry_eq:
  "StartRetry decision answer tx =
     (case retry_target tx of
        None \<Rightarrow> (False, tx)
      | Some target \<Rightarrow>
          (if fst (StartUpstream decision answer target)
           then (True, (snd (StartUpstream decision answer target))\<lparr>px_retries := px_retries (snd (StartUpstream decision answer target)) + 1\<rparr>)
           else (False, snd (StartUpstream decision answer target))))"
  by (simp add: StartRetry_def retry_target_def Let_def case_prod_unfold split: option.split)

lemma retry_target_frame:
  assumes "retry_target tx = Some target"
  obtains e where "target = tx\<lparr>px_endpoint := e\<rparr>"
  using assms that [of "px_endpoint tx"] by (auto simp: retry_target_def split: if_splits)

text \<open>A queued retry either starts an attempt or ends the transaction.\<close>

lemma queued_retry_cases:
  assumes "\<not> px_finished tx"
  obtains (started) e where "starts decision tx"
      "queued_retry decision answer tx = (let tx' = run_exchange answer (prepared decision (tx\<lparr>px_endpoint := e\<rparr>)) in tx'\<lparr>px_retries := px_retries tx' + 1\<rparr>)"
      "retry_target tx = Some (tx\<lparr>px_endpoint := e\<rparr>)"
    | (refused) e where "\<not> starts decision tx" "\<not> GatewayDown tx" "retry_target tx = Some (tx\<lparr>px_endpoint := e\<rparr>)"
      "queued_retry decision answer tx = FinishFailure (prepared decision (tx\<lparr>px_endpoint := e\<rparr>))"
    | (down) e where "\<not> starts decision tx" "GatewayDown tx" "retry_target tx = Some (tx\<lparr>px_endpoint := e\<rparr>)"
      "queued_retry decision answer tx = FinishFailure (tx\<lparr>px_endpoint := e\<rparr>)"
    | (no_target) "retry_target tx = None" "queued_retry decision answer tx = FinishFailure tx"
proof (cases "retry_target tx")
  case None
  then show ?thesis using assms no_target by (simp add: queued_retry_def StartRetry_eq)
next
  case (Some target)
  obtain e where target: "target = tx\<lparr>px_endpoint := e\<rparr>" using retry_target_frame [OF Some] .
  have same: "starts decision target = starts decision tx" "GatewayDown target = GatewayDown tx"
    by (simp_all add: target starts_def GatewayDown_def)
  consider "GatewayDown tx" | "\<not> GatewayDown tx" "starts decision tx" | "\<not> GatewayDown tx" "\<not> starts decision tx" by blast
  then show ?thesis
  proof cases
    case 1
    then show ?thesis using assms Some down [of e] target same
      by (simp add: queued_retry_def StartRetry_eq StartUpstream_eq starts_def)
  next
    case 2
    then show ?thesis using assms Some started [of e] target same
      by (simp add: queued_retry_def StartRetry_eq StartUpstream_eq Let_def)
  next
    case 3
    then show ?thesis using assms Some refused [of e] target same
      by (simp add: queued_retry_def StartRetry_eq StartUpstream_eq)
  qed
qed

lemma relays_queued_retry:
  assumes rel: "relays ExNone (tx\<lparr>px_queued := QueuedRetry # px_queued tx\<rparr>)" and started: "exchange_started answer = Some x"
    and fin: "\<not> px_finished tx"
  shows "relays (if starts decision tx then x else ExNone) (queued_retry decision answer tx)"
proof -
  have told: "told tx" and open_tx: "\<not> px_committed tx" "count_list (px_queued tx) QueuedRetry = 0"
    using rel fin by (auto simp: relays_def told_def)
  have told_e: "told (tx\<lparr>px_endpoint := e\<rparr>)" "told (prepared decision (tx\<lparr>px_endpoint := e\<rparr>))" for e
    using told by (simp_all add: told_def)
  show ?thesis using fin
  proof (cases rule: queued_retry_cases [where decision = decision and answer = answer, case_names started refused down no_target])
    case (started e)
    have "relays x (run_exchange answer (prepared decision (tx\<lparr>px_endpoint := e\<rparr>)))"
      using relays_run_exchange [OF _ _ told_e(2) _ assms(2)] fin open_tx by simp
    then show ?thesis using started by (simp add: Let_def relays_def told_def)
  qed (simp_all add: relays_finished told_FinishFailure told told_e)
qed

lemma relays_Begin:
  assumes "tx_fresh tx" and started: "exchange_started answer = Some x"
  shows "relays (if starts decision tx then x else ExNone) (Begin metric_ok decision answer tx)"
proof -
  define armed where "armed = ArmTotalDeadline (if px_metrics tx then (if metric_ok then tx\<lparr>px_metric_request := True\<rparr> else tx\<lparr>px_metrics := False\<rparr>) else tx)"
  have fresh: "\<not> px_finished tx" "\<not> px_committed tx" "px_queued tx = []" "px_out tx = []" "\<not> px_gateway_down tx"
    using assms(1) by (auto simp: tx_fresh_def ProxyTransaction_new_def)
  have armed: "\<not> px_finished armed" "\<not> px_committed armed" "px_queued armed = []" "told armed" "\<not> px_gateway_down armed"
    "px_provider armed = px_provider tx"
    using fresh by (simp_all add: armed_def told_def)
  have told: "told (prepared decision armed)" using armed(4) by (simp add: told_def)
  have starts: "starts decision armed = starts decision tx" using fresh armed by (simp add: starts_def GatewayDown_def)
  have "Begin metric_ok decision answer tx =
     (if starts decision tx then run_exchange answer (prepared decision armed) else FinishNoEndpoint (prepared decision armed))"
    using fresh armed starts by (simp add: Begin_def Let_def StartUpstream_eq armed_def GatewayDown_def)
  moreover have "relays x (run_exchange answer (prepared decision armed))"
    using relays_run_exchange [OF _ _ told _ started] armed by simp
  moreover have "told (FinishNoEndpoint (prepared decision armed))" using told_FinishNoEndpoint told armed by simp
  ultimately show ?thesis by (simp add: relays_finished)
qed

lemma relays_deadline: "relays x tx \<Longrightarrow> relays x (deadline_fired timer (tx\<lparr>px_pending := timers\<rparr>))"
proof -
  assume rel: "relays x tx"
  then have "relays x (tx\<lparr>px_pending := timers\<rparr>)" by (simp add: relays_def told_def)
  moreover from this have "relays x (FinishGatewayTimeout (tx\<lparr>px_pending := timers\<rparr>))"
    by (simp add: relays_finished told_FinishGatewayTimeout relays_def)
  ultimately show ?thesis by (cases timer) (simp_all add: HandleDeadline_def)
qed

lemma relays_cancel:
  assumes "relays x tx" "px_queued tx = QueuedCancel connection # rest"
  shows "relays x (queued_cancel connection (tx\<lparr>px_queued := rest\<rparr>))"
  using assms by (auto simp: queued_cancel_def relays_def told_def split: if_splits)

theorem relays_step: "tx_step y y' \<Longrightarrow> relays (sy_exchange y) (sy_tx y) \<Longrightarrow> relays (sy_exchange y') (sy_tx y')"
proof (induction rule: tx_step.induct)
  case (call y c x)
  then show ?case using relays_call by simp
next
  case (retry y rest tx decision answer x)
  show ?case
  proof (cases "px_finished tx")
    case True
    have "told tx" using retry.prems by (simp add: relays_def told_def retry.hyps(2))
    then show ?thesis using True by (simp add: relays_finished queued_retry_def)
  next
    case False
    have none: "sy_exchange y = ExNone"
      using retry.prems False by (auto simp: relays_def retry.hyps(1,2) split: if_splits)
    have "relays ExNone (tx\<lparr>px_queued := QueuedRetry # px_queued tx\<rparr>)"
      using retry.prems none by (simp add: relays_def told_def retry.hyps(1,2))
    from relays_queued_retry [OF this retry.hyps(4) False, of decision]
    show ?thesis using False none by (auto split: if_splits)
  qed
next
  case (cancel y connection rest)
  then show ?case using relays_cancel by simp
next
  case (deadline timer y)
  then show ?case using relays_deadline by simp
next
  case (drained y)
  then show ?case using relays_control [of "ResumeUpstreamReading (sy_tx y)" "sy_tx y"] by simp
next
  case (client_abort y)
  then show ?case by (simp add: relays_finished told_HandleClientAbort relays_def)
next
  case (client_gone y)
  then show ?case by (simp add: relays_def told_def split: if_splits)
next
  case (client_answers y answers)
  then show ?case by (simp add: relays_def told_def)
next
  case (gateway_gone y)
  then show ?case by (simp add: relays_def told_def split: if_splits)
qed

lemma tx_run_relays: "tx_run tx y \<Longrightarrow> tx_fresh tx \<Longrightarrow> relays (sy_exchange y) (sy_tx y)"
proof (induction rule: tx_run.induct)
  case (begin_tx decision answer x metric_ok)
  then show ?case using relays_Begin by (simp add: tx_begin_def)
next
  case (step_tx y y')
  then show ?case using relays_step by blast
qed

end
