(* ===== verification/ProxyAccounts.thy ===== *)
theory ProxyAccounts
  imports ProxyRuns
begin

text \<open>
  What every run of a transaction keeps: the response the client gets, the admission, active
  slots and outcome permits the transaction holds, the deadlines, and the number of attempts.
  An invariant of the callbacks and of the start of an attempt is an invariant of every run;
  that is proved once, for the interface \<open>tx_invariant\<close>.
\<close>

section \<open>Invariants of every run\<close>

definition armed :: "bool \<Rightarrow> proxy_transaction \<Rightarrow> proxy_transaction" where
  "armed metric_ok tx =
     ArmTotalDeadline (if px_metrics tx then (if metric_ok then tx\<lparr>px_metric_request := True\<rparr> else tx\<lparr>px_metrics := False\<rparr>) else tx)"

lemma armed_frame [simp]: "px_gateway_down (armed metric_ok tx) = px_gateway_down tx" "px_provider (armed metric_ok tx) = px_provider tx"
  "px_finished (armed metric_ok tx) = px_finished tx"
  by (simp_all add: armed_def)

lemma Begin_eq:
  assumes "tx_fresh tx"
  shows "Begin metric_ok decision answer tx =
     (if starts decision tx then run_exchange answer (prepared decision (armed metric_ok tx))
      else FinishNoEndpoint (prepared decision (armed metric_ok tx)))"
proof -
  have "\<not> px_gateway_down tx" using assms by (auto simp: tx_fresh_def ProxyTransaction_new_def)
  then show ?thesis by (simp add: Begin_def Let_def StartUpstream_eq armed_def GatewayDown_def starts_def)
qed

locale tx_invariant =
  fixes I :: "attempt_selection list \<Rightarrow> proxy_transaction \<Rightarrow> bool"
  assumes call: "I ss tx \<Longrightarrow> I ss (handle_call c tx)"
    and fired: "I ss tx \<Longrightarrow> timer \<in> set (px_pending tx) \<Longrightarrow>
      I ss (deadline_fired timer (tx\<lparr>px_pending := remove1 timer (px_pending tx)\<rparr>))"
    and cancelled: "I ss tx \<Longrightarrow> I ss (queued_cancel connection tx)"
    and dequeued: "I ss tx \<Longrightarrow> I ss (tx\<lparr>px_queued := rest\<rparr>)"
    and resumed: "I ss tx \<Longrightarrow> I ss (ResumeUpstreamReading tx)"
    and aborted: "I ss tx \<Longrightarrow> I ss (HandleClientAbort tx)"
    and gone: "I ss tx \<Longrightarrow> I ss (tx\<lparr>px_client_alive := False\<rparr>)"
    and answered: "I ss tx \<Longrightarrow> I ss (tx\<lparr>px_client := answers\<rparr>)"
    and down: "I ss tx \<Longrightarrow> I ss (tx\<lparr>px_gateway_down := True\<rparr>)"
    and failed: "I ss tx \<Longrightarrow> I ss (FinishFailure tx)"
    and target: "I ss tx \<Longrightarrow> I ss (tx\<lparr>px_endpoint := e\<rparr>)"
    and chosen: "I ss tx \<Longrightarrow> \<not> px_finished tx \<Longrightarrow> \<not> GatewayDown tx \<Longrightarrow> decision_ok decision \<Longrightarrow>
      I (ss @ taken decision tx) (prepared decision tx)"
    and executed: "I ss tx \<Longrightarrow> I ss (put_out (OutExecute target request) tx)"
    and starting: "I ss tx \<Longrightarrow> I ss (tx\<lparr>px_starting_upstream := b\<rparr>)"
    and upstream: "I ss tx \<Longrightarrow> I ss (tx\<lparr>px_upstream := b\<rparr>)"
    and connection: "I ss tx \<Longrightarrow> I ss (tx\<lparr>px_active_connection := b\<rparr>)"
    and counted: "I ss tx \<Longrightarrow> I ss (tx\<lparr>px_retries := n\<rparr>)"
begin

lemma calls: "I ss tx \<Longrightarrow> I ss (fold handle_call cs tx)"
  by (induction cs arbitrary: tx) (simp_all add: call)

lemma exchanged:
  assumes "I ss tx"
  shows "I ss (run_exchange answer tx)"
proof -
  define begun where "begun = (put_out (OutExecute (px_endpoint tx) (StripRequest (px_request tx))) tx)
    \<lparr>px_starting_upstream := True, px_upstream := px_upstream tx \<or> \<not> px_pool tx\<rparr>"
  define called where "called = fold handle_call (sa_calls answer) begun"
  have called: "I ss called" unfolding called_def begun_def using assms by (intro calls upstream starting executed)
  have "run_exchange answer tx =
     (if sa_throws answer then handle_call (CallResult kConnectError HttpResponse_new) (called\<lparr>px_starting_upstream := False\<rparr>)
      else if px_pool called
      then called\<lparr>px_active_connection := (\<forall>call \<in> set (sa_calls answer). \<not> is_result call), px_starting_upstream := False\<rparr>
      else if px_finished called then called\<lparr>px_starting_upstream := False, px_upstream := False\<rparr>
      else called\<lparr>px_starting_upstream := False\<rparr>)"
    by (simp add: run_exchange_def Let_def called_def begun_def)
  then show ?thesis
    using call [OF starting [OF called]] starting [OF called] starting [OF connection [OF called]] upstream [OF starting [OF called]]
    by (simp del: handle_call.simps)
qed

lemma retried:
  assumes inv: "I ss tx" and ok: "decision_ok decision" and fin: "\<not> px_finished tx"
  shows "I (ss @ taken decision tx) (queued_retry decision answer tx)"
proof -
  have chosen_e: "I (ss @ taken decision tx) (prepared decision (tx\<lparr>px_endpoint := e\<rparr>))" if "\<not> GatewayDown tx" for e
    using chosen [OF target [OF inv], of e decision] ok fin that by (simp add: GatewayDown_def taken_def)
  show ?thesis using fin
  proof (cases rule: queued_retry_cases [where decision = decision and answer = answer, case_names started refused down no_target])
    case (started e)
    then have "\<not> GatewayDown tx" by (simp add: starts_def)
    from counted [OF exchanged [OF chosen_e [OF this]]] show ?thesis using started by (simp add: Let_def)
  next
    case (refused e)
    then show ?thesis using failed [OF chosen_e] by simp
  next
    case (down e)
    then show ?thesis using failed [OF target [OF inv]] by (simp add: taken_def)
  next
    case no_target
    then have "taken decision tx = []" by (simp add: retry_target_def taken_def split: if_splits)
    then show ?thesis using no_target failed [OF inv] by simp
  qed
qed

lemma step: "tx_step y y' \<Longrightarrow> I (sy_selected y) (sy_tx y) \<Longrightarrow> I (sy_selected y') (sy_tx y')"
proof (induction rule: tx_step.induct)
  case (retry y rest tx decision answer x)
  have "I (sy_selected y) tx" using dequeued [OF retry.prems] by (simp add: retry.hyps(2))
  then show ?case using retried [OF _ retry.hyps(3), of "sy_selected y" tx answer]
    by (cases "px_finished tx") (simp_all add: queued_retry_def [of decision answer tx])
next
  case (cancel y connection rest)
  then show ?case using cancelled [OF dequeued] by simp
qed (simp_all add: call fired resumed aborted gone answered down)

lemma run:
  assumes "tx_run tx y" and fresh: "tx_fresh tx" and begun: "\<And>metric_ok. I [] (armed metric_ok tx)"
    and refused: "\<And>metric_ok decision. \<not> starts decision tx \<Longrightarrow> I [] (prepared decision (armed metric_ok tx)) \<Longrightarrow>
      I [] (FinishNoEndpoint (prepared decision (armed metric_ok tx)))"
  shows "I (sy_selected y) (sy_tx y)"
  using assms(1)
proof (induction rule: tx_run.induct)
  case (begin_tx decision answer x metric_ok)
  have up: "\<not> GatewayDown (armed metric_ok tx)" "\<not> px_finished (armed metric_ok tx)"
    using fresh by (auto simp: tx_fresh_def ProxyTransaction_new_def GatewayDown_def)
  have same: "taken decision (armed metric_ok tx) = taken decision tx" by (simp add: taken_def GatewayDown_def)
  have "I (taken decision tx) (run_exchange answer (prepared decision (armed metric_ok tx)))"
    using exchanged [OF chosen [OF begun up(2) up(1) begin_tx(1)]] same by simp
  moreover have "taken decision tx = []" if "\<not> starts decision tx"
    using that up by (auto simp: starts_def taken_def GatewayDown_def)
  moreover have "I (taken decision tx) (prepared decision (armed metric_ok tx))"
    using chosen [OF begun up(2) up(1) begin_tx(1)] same by simp
  ultimately show ?case using refused [where metric_ok = metric_ok and decision = decision]
    by (auto simp add: tx_begin_def Begin_eq [OF fresh])
qed (rule step)

end

lemma deadline_fired_cases: "deadline_fired timer tx = tx \<or> deadline_fired timer tx = FinishGatewayTimeout tx"
  by (cases timer) (simp_all add: HandleDeadline_def)

section \<open>What a transaction holds and gives back\<close>

definition held_permit :: "proxy_transaction \<Rightarrow> attempt_permit multiset" where
  "held_permit tx =
     (case px_breaker_link tx of
        None \<Rightarrow> {#}
      | Some link \<Rightarrow> if rv_finalized (bl_outcome_reservation link) then {#} else {# bl_permit link #})"

definition held_slot :: "proxy_transaction \<Rightarrow> (nat \<times> nat) multiset" where
  "held_slot tx = (case px_active_reservation tx of None \<Rightarrow> {#} | Some slot \<Rightarrow> {# slot #})"

definition link_ok :: "proxy_transaction \<Rightarrow> bool" where
  "link_ok tx =
     (case px_breaker_link tx of
        None \<Rightarrow> True
      | Some link \<Rightarrow> rv_state (bl_outcome_reservation link) \<and> rv_finalized (bl_outcome_reservation link) = px_attempt_accounted tx)"

definition selected_slots :: "attempt_selection list \<Rightarrow> (nat \<times> nat) multiset" where
  "selected_slots ss = mset (concat (map (\<lambda>s. case at_active s of None \<Rightarrow> [] | Some slot \<Rightarrow> [slot]) ss))"

definition selected_permits :: "attempt_selection list \<Rightarrow> attempt_permit multiset" where
  "selected_permits ss = mset (concat (map (\<lambda>s. case at_link s of None \<Rightarrow> [] | Some link \<Rightarrow> [bl_permit link]) ss))"

text \<open>Everything taken was given back or is held: the admission, the active slots, the permits.\<close>

definition accounts :: "nat \<Rightarrow> attempt_selection list \<Rightarrow> proxy_transaction \<Rightarrow> bool" where
  "accounts admissions ss tx \<longleftrightarrow>
     released_admissions (px_out tx) + (if px_reservation tx then 1 else 0) = admissions
     \<and> released_slots (px_out tx) + held_slot tx = selected_slots ss
     \<and> settled (px_out tx) + held_permit tx = selected_permits ss
     \<and> link_ok tx"

lemmas accounts_defs = accounts_def held_permit_def held_slot_def link_ok_def

lemma accounts_field [simp]:
  "accounts n ss (tx\<lparr>px_finished := v0\<rparr>) = accounts n ss tx" "accounts n ss (tx\<lparr>px_generation := v1\<rparr>) = accounts n ss tx" "accounts n ss (tx\<lparr>px_queued := v2\<rparr>) = accounts n ss tx"
  "accounts n ss (tx\<lparr>px_active_connection := v3\<rparr>) = accounts n ss tx" "accounts n ss (tx\<lparr>px_upstream := v4\<rparr>) = accounts n ss tx" "accounts n ss (tx\<lparr>px_response_head := v5\<rparr>) = accounts n ss tx"
  "accounts n ss (tx\<lparr>px_committed := v6\<rparr>) = accounts n ss tx" "accounts n ss (tx\<lparr>px_read_paused := v7\<rparr>) = accounts n ss tx" "accounts n ss (tx\<lparr>px_connected := v8\<rparr>) = accounts n ss tx"
  "accounts n ss (tx\<lparr>px_response_header_received := v9\<rparr>) = accounts n ss tx" "accounts n ss (tx\<lparr>px_starting_upstream := v10\<rparr>) = accounts n ss tx" "accounts n ss (tx\<lparr>px_coordinator_overloaded := v11\<rparr>) = accounts n ss tx"
  "accounts n ss (tx\<lparr>px_client_alive := v12\<rparr>) = accounts n ss tx" "accounts n ss (tx\<lparr>px_client := v13\<rparr>) = accounts n ss tx" "accounts n ss (tx\<lparr>px_gateway_down := v14\<rparr>) = accounts n ss tx"
  "accounts n ss (tx\<lparr>px_endpoint := v15\<rparr>) = accounts n ss tx" "accounts n ss (tx\<lparr>px_retries := v16\<rparr>) = accounts n ss tx" "accounts n ss (tx\<lparr>px_pending := v17\<rparr>) = accounts n ss tx"
  "accounts n ss (tx\<lparr>px_connect_timer := v18\<rparr>) = accounts n ss tx" "accounts n ss (tx\<lparr>px_first_byte_timer := v19\<rparr>) = accounts n ss tx" "accounts n ss (tx\<lparr>px_total_timer := v20\<rparr>) = accounts n ss tx"
  by (simp_all add: accounts_defs cong: option.case_cong)

lemma accounts_keeps [simp]:
  assumes "accounts n ss tx"
  shows "accounts n ss (cancel_timer t tx)" "accounts n ss (CancelAttemptDeadlines tx)" "accounts n ss (CancelDeadlines tx)"
    "accounts n ss (ArmConnectDeadline tx)" "accounts n ss (ArmFirstByteDeadline tx)" "accounts n ss (ArmTotalDeadline tx)"
    "accounts n ss (release_admission tx)" "accounts n ss (release_active tx)" "accounts n ss (reset_link tx)"
    "accounts n ss (publish_outcome b tx)" "accounts n ss (CompleteMetric s r tx)" "accounts n ss (LogTerminal s r tx)"
    "accounts n ss (send_response p tx)" "accounts n ss (abort_client tx)" "accounts n ss (snd (take_answer tx))"
  using assms
  by (auto simp: accounts_defs release_admission_def release_active_def reset_link_def publish_outcome_def Publish_def Let_def
      split: option.splits if_splits)

lemma accounts_put_out [simp]:
  "settled_permits x = [] \<Longrightarrow> slots_of x = [] \<Longrightarrow> x \<noteq> OutReleaseAdmission \<Longrightarrow> accounts n ss (put_out x tx) = accounts n ss tx"
  by (simp add: accounts_defs cong: option.case_cong)

lemma accounts_terminal [simp]:
  assumes "accounts n ss tx"
  shows "accounts n ss (HandleClientAbort tx)" "accounts n ss (FinishNoEndpoint tx)" "accounts n ss (FinishFailure tx)"
    "accounts n ss (FinishGatewayTimeout tx)" "accounts n ss (PauseUpstreamReading tx)" "accounts n ss (ResumeUpstreamReading tx)"
    "accounts n ss (HandleProgress q tx)" "accounts n ss (HandleUpstream r p tx)"
  using assms
  by (simp_all add: HandleClientAbort_def FinishNoEndpoint_def FinishFailure_def FinishGatewayTimeout_def PauseUpstreamReading_def
      ResumeUpstreamReading_def HandleProgress_def HandleUpstream_def account_status_def AccountFailure_def AccountSuccess_def Let_def
      split: upstream_progress.split)

lemma accounts_HandleResponseHead [simp]: "accounts n ss tx \<Longrightarrow> accounts n ss (HandleResponseHead h tx)"
  by (rule take_answer_cases [of "put_out (OutBegin (StripHead h)) (tx\<lparr>px_response_head := StripHead h, px_committed := True\<rparr>)"])
    (simp add: HandleResponseHead_def Let_def split: client_answer.split)

lemma accounts_HandleResponseBody [simp]: "accounts n ss tx \<Longrightarrow> accounts n ss (snd (HandleResponseBody b tx))"
  by (rule take_answer_cases [of "put_out (OutBody b) tx"]) (simp add: HandleResponseBody_def Let_def split: client_answer.split)

lemma release_gives_back [simp]: "\<not> px_reservation (release_admission tx)" "px_active_reservation (release_active tx) = None"
  by (simp_all add: release_admission_def release_active_def split: option.split)

lemma reset_link_none [simp]: "px_breaker_link (reset_link tx) = None"
  by (simp add: reset_link_def split: option.split)

lemma selected_snoc [simp]:
  "selected_slots (ss @ ss') = selected_slots ss + selected_slots ss'" "selected_permits (ss @ ss') = selected_permits ss + selected_permits ss'"
  by (simp_all add: selected_slots_def selected_permits_def)

text \<open>Choosing an endpoint first settles the link of the previous attempt.\<close>

lemma accounts_prepared:
  assumes "accounts n ss tx" "decision_ok decision" "\<not> GatewayDown tx"
  shows "accounts n (ss @ taken decision tx) (prepared decision tx)"
proof -
  define cleared where "cleared = (let tx = CancelAttemptDeadlines tx;
      tx = tx\<lparr>px_generation := px_generation tx + 1, px_connected := False, px_response_header_received := False\<rparr>
    in (reset_link tx)\<lparr>px_coordinator_overloaded := False\<rparr>)"
  have cleared: "accounts n ss cleared" "px_breaker_link cleared = None" "px_provider cleared = px_provider tx"
    using assms(1) by (simp_all add: cleared_def Let_def)
  have accounted: "accounts n ss (cleared\<lparr>px_attempt_accounted := False\<rparr>)"
    using cleared(1,2) by (simp add: accounts_defs)
  have taken: "accounts n (ss @ [selection]) (take_selection selection cleared)"
    if "fst decision = Some selection" for selection
  proof -
    have "accounts n ss (release_active cleared)" "px_breaker_link (release_active cleared) = None"
      "px_active_reservation (release_active cleared) = None"
      using cleared(1,2) by simp_all
    then show ?thesis using assms(2) that
      by (auto simp: take_selection_def accounts_defs decision_ok_def selected_slots_def selected_permits_def split: option.splits)
  qed
  have "prepared decision tx =
     (if px_provider tx then
        (case fst decision of
           None \<Rightarrow> cleared\<lparr>px_coordinator_overloaded := snd decision\<rparr>
         | Some selection \<Rightarrow> ArmConnectDeadline (take_selection selection cleared))
      else ArmConnectDeadline (cleared\<lparr>px_attempt_accounted := False\<rparr>))"
    using cleared(3) by (simp add: prepared_def cleared_def Let_def split: option.split)
  then show ?thesis
    using cleared(1) accounted taken assms(3) by (auto simp: taken_def split: option.split)
qed

interpretation resources: tx_invariant "accounts n" for n
proof unfold_locales
  fix ss tx c
  assume "accounts n ss tx"
  then show "accounts n ss (handle_call c tx)" by (cases c) simp_all
next
  fix ss tx timer
  assume "accounts n ss tx"
  then show "accounts n ss (deadline_fired timer (tx\<lparr>px_pending := remove1 timer (px_pending tx)\<rparr>))"
    by (cases timer) (simp_all add: HandleDeadline_def)
qed (simp_all add: accounts_prepared queued_cancel_def)

text \<open>A finished transaction holds neither its admission nor an active slot.\<close>

definition gave_back :: "attempt_selection list \<Rightarrow> proxy_transaction \<Rightarrow> bool" where
  "gave_back ss tx \<longleftrightarrow> (px_finished tx \<longrightarrow> \<not> px_reservation tx \<and> px_active_reservation tx = None)"

lemma gave_back_handlers [simp]:
  assumes "gave_back ss tx"
  shows "gave_back ss (HandleClientAbort tx)" "gave_back ss (FinishFailure tx)" "gave_back ss (FinishGatewayTimeout tx)"
    "gave_back ss (PauseUpstreamReading tx)" "gave_back ss (ResumeUpstreamReading tx)" "gave_back ss (HandleProgress q tx)"
    "gave_back ss (HandleUpstream r p tx)"
  using assms
  by (simp_all add: gave_back_def HandleClientAbort_def FinishFailure_def FinishGatewayTimeout_def PauseUpstreamReading_def
      ResumeUpstreamReading_def HandleProgress_def HandleUpstream_def account_status_def AccountFailure_def AccountSuccess_def Let_def
      split: upstream_progress.split)

lemma gave_back_relayed [simp]:
  "gave_back ss (put_out x tx) = gave_back ss tx" "gave_back ss (tx\<lparr>px_client := a\<rparr>) = gave_back ss tx"
  "gave_back ss (tx\<lparr>px_response_head := h\<rparr>) = gave_back ss tx" "gave_back ss (tx\<lparr>px_committed := b\<rparr>) = gave_back ss tx"
  by (simp_all add: gave_back_def)

lemma gave_back_HandleResponseHead [simp]: "gave_back ss tx \<Longrightarrow> gave_back ss (HandleResponseHead h tx)"
  by (rule take_answer_cases [of "put_out (OutBegin (StripHead h)) (tx\<lparr>px_response_head := StripHead h, px_committed := True\<rparr>)"])
    (simp add: HandleResponseHead_def Let_def split: client_answer.split)

lemma gave_back_HandleResponseBody [simp]: "gave_back ss tx \<Longrightarrow> gave_back ss (snd (HandleResponseBody b tx))"
  by (rule take_answer_cases [of "put_out (OutBody b) tx"])
    (simp add: HandleResponseBody_def Let_def split: client_answer.split)

interpretation closing: tx_invariant gave_back
proof unfold_locales
  fix ss tx c
  assume "gave_back ss tx"
  then show "gave_back ss (handle_call c tx)" by (cases c) simp_all
next
  fix ss tx timer
  assume "gave_back ss tx"
  then have "gave_back ss (tx\<lparr>px_pending := remove1 timer (px_pending tx)\<rparr>)" by (simp add: gave_back_def)
  then show "gave_back ss (deadline_fired timer (tx\<lparr>px_pending := remove1 timer (px_pending tx)\<rparr>))"
    using deadline_fired_cases [of timer "tx\<lparr>px_pending := remove1 timer (px_pending tx)\<rparr>"] by auto
qed (simp_all add: gave_back_def queued_cancel_def gave_back_handlers [unfolded gave_back_def])

section \<open>The total deadline\<close>

lemma count_list_remove1: "count_list (remove1 x xs) y = (if x = y then count_list xs y - 1 else count_list xs y)"
  by (induction xs) (auto simp: count_list_0_iff)

definition watched :: "attempt_selection list \<Rightarrow> proxy_transaction \<Rightarrow> bool" where
  "watched ss tx \<longleftrightarrow> (px_timers tx \<and> \<not> px_gateway_down tx \<longrightarrow>
     count_list (px_pending tx) TotalDeadline = (if px_finished tx then 0 else 1)
     \<and> (\<not> px_finished tx \<longrightarrow> px_total_timer tx = Some TotalDeadline)
     \<and> px_connect_timer tx \<noteq> Some TotalDeadline \<and> px_first_byte_timer tx \<noteq> Some TotalDeadline)"

lemma cancel_timer_count [simp]:
  "count_list (px_pending (cancel_timer t tx)) TotalDeadline =
     (if t = Some TotalDeadline then count_list (px_pending tx) TotalDeadline - 1 else count_list (px_pending tx) TotalDeadline)"
  by (simp add: cancel_timer_def count_list_remove1 split: option.split)

lemma CancelAttemptDeadlines_total [simp]:
  assumes "px_timers tx" "\<not> px_gateway_down tx"
  shows "px_connect_timer (CancelAttemptDeadlines tx) = None" "px_first_byte_timer (CancelAttemptDeadlines tx) = None"
    "px_connect_timer tx \<noteq> Some TotalDeadline \<Longrightarrow> px_first_byte_timer tx \<noteq> Some TotalDeadline \<Longrightarrow>
      count_list (px_pending (CancelAttemptDeadlines tx)) TotalDeadline = count_list (px_pending tx) TotalDeadline"
  using assms by (simp_all add: CancelAttemptDeadlines_def GatewayDown_def)

lemma CancelDeadlines_total [simp]:
  assumes "px_timers tx" "\<not> px_gateway_down tx"
  shows "px_connect_timer (CancelDeadlines tx) = None" "px_first_byte_timer (CancelDeadlines tx) = None"
    "px_connect_timer tx \<noteq> Some TotalDeadline \<Longrightarrow> px_first_byte_timer tx \<noteq> Some TotalDeadline \<Longrightarrow>
      count_list (px_pending (CancelDeadlines tx)) TotalDeadline =
        (if px_total_timer tx = Some TotalDeadline then count_list (px_pending tx) TotalDeadline - 1 else count_list (px_pending tx) TotalDeadline)"
  using assms by (simp_all add: CancelDeadlines_def GatewayDown_def Let_def)

lemma schedule_count [simp]: "t \<noteq> TotalDeadline \<Longrightarrow> count_list (px_pending (schedule d t tx)) TotalDeadline = count_list (px_pending tx) TotalDeadline"
  by (simp add: schedule_def)

lemma ArmConnectDeadline_watched [simp]: "watched ss tx \<Longrightarrow> watched ss (ArmConnectDeadline tx)"
  by (simp add: watched_def ArmConnectDeadline_def Let_def)

lemma watched_handlers [simp]:
  assumes "watched ss tx"
  shows "watched ss (HandleClientAbort tx)" "watched ss (FinishFailure tx)" "watched ss (FinishGatewayTimeout tx)" "watched ss (FinishNoEndpoint tx)"
    "watched ss (PauseUpstreamReading tx)" "watched ss (ResumeUpstreamReading tx)" "watched ss (HandleProgress q tx)"
    "watched ss (HandleUpstream r p tx)"
  using assms
  by (simp_all add: watched_def HandleClientAbort_def FinishFailure_def FinishGatewayTimeout_def FinishNoEndpoint_def PauseUpstreamReading_def
      ResumeUpstreamReading_def HandleProgress_def HandleUpstream_def account_status_def AccountFailure_def AccountSuccess_def Let_def
      ArmFirstByteDeadline_def split: upstream_progress.split)

lemma watched_relayed [simp]:
  "watched ss (put_out x tx) = watched ss tx" "watched ss (tx\<lparr>px_client := a\<rparr>) = watched ss tx"
  "watched ss (tx\<lparr>px_response_head := h\<rparr>) = watched ss tx" "watched ss (tx\<lparr>px_committed := b\<rparr>) = watched ss tx"
  by (simp_all add: watched_def)

lemma watched_HandleResponseHead [simp]: "watched ss tx \<Longrightarrow> watched ss (HandleResponseHead h tx)"
  by (rule take_answer_cases [of "put_out (OutBegin (StripHead h)) (tx\<lparr>px_response_head := StripHead h, px_committed := True\<rparr>)"])
    (simp add: HandleResponseHead_def Let_def split: client_answer.split)

lemma watched_HandleResponseBody [simp]: "watched ss tx \<Longrightarrow> watched ss (snd (HandleResponseBody b tx))"
  by (rule take_answer_cases [of "put_out (OutBody b) tx"])
    (simp add: HandleResponseBody_def Let_def split: client_answer.split)

lemma watched_fired:
  assumes "watched ss tx"
  shows "watched ss (deadline_fired timer (tx\<lparr>px_pending := remove1 timer (px_pending tx)\<rparr>))"
proof (cases "timer = TotalDeadline")
  case True
  then show ?thesis using assms
    by (simp add: watched_def FinishGatewayTimeout_def AccountFailure_def Let_def count_list_remove1)
next
  case False
  then have "watched ss (tx\<lparr>px_pending := remove1 timer (px_pending tx)\<rparr>)" using assms by (simp add: watched_def count_list_remove1)
  then show ?thesis using deadline_fired_cases [of timer "tx\<lparr>px_pending := remove1 timer (px_pending tx)\<rparr>"] by auto
qed

lemma watched_prepared: "watched ss tx \<Longrightarrow> watched (ss @ taken decision tx) (prepared decision tx)"
proof -
  assume "watched ss tx"
  then have cleared: "watched ss' ((reset_link ((CancelAttemptDeadlines tx)\<lparr>px_generation := px_generation (CancelAttemptDeadlines tx) + 1,
      px_connected := False, px_response_header_received := False\<rparr>))\<lparr>px_coordinator_overloaded := False\<rparr>)" (is "watched ss' ?cleared") for ss'
    by (simp add: watched_def)
  have "watched ss' (take_selection selection ?cleared)" "watched ss' (?cleared\<lparr>px_attempt_accounted := False\<rparr>)"
    "watched ss' (?cleared\<lparr>px_coordinator_overloaded := b\<rparr>)" for selection b ss'
    using cleared [of ss'] by (simp_all add: watched_def take_selection_def)
  then show ?thesis unfolding prepared_def Let_def by (simp split: option.split)
qed

interpretation deadline: tx_invariant watched
proof unfold_locales
  fix ss tx c
  assume "watched ss tx"
  then show "watched ss (handle_call c tx)" by (cases c) simp_all
qed (simp_all add: watched_fired watched_prepared, simp_all add: watched_def queued_cancel_def)

section \<open>Attempts\<close>

definition may_retry :: "proxy_transaction \<Rightarrow> bool" where
  "may_retry tx \<longleftrightarrow> up_retry_budget (px_policy tx) \<noteq> 0 \<and> rq_method (px_request tx) \<in> {''GET'', ''HEAD''}"

lemma may_retry_frame [simp]: "may_retry (handle_call c tx) = may_retry tx" "may_retry (prepared d tx) = may_retry tx"
  "may_retry (put_out x tx) = may_retry tx" "may_retry (HandleUpstream r p tx) = may_retry tx"
  by (simp_all add: may_retry_def)

lemma aborted_queue [simp]: "QueuedRetry \<in> set (px_queued (HandleClientAbort tx)) \<longleftrightarrow> QueuedRetry \<in> set (px_queued tx)"
  by (simp add: HandleClientAbort_def Let_def)

lemma finished_queue [simp]: "px_queued (FinishFailure tx) = px_queued tx" "px_queued (FinishGatewayTimeout tx) = px_queued tx"
  "px_queued (FinishNoEndpoint tx) = px_queued tx"
  by (simp_all add: FinishFailure_def FinishGatewayTimeout_def FinishNoEndpoint_def AccountFailure_def Let_def)












section \<open>The properties of every run\<close>

lemma fresh_accounts: "tx_fresh tx \<Longrightarrow> accounts (if px_reservation tx then 1 else 0) [] (armed metric_ok tx)"
  by (auto simp: tx_fresh_def ProxyTransaction_new_def armed_def ArmTotalDeadline_def schedule_def put_out_def accounts_defs
      selected_slots_def selected_permits_def released_admissions_def released_slots_def settled_def)

lemma fresh_gave_back:
  assumes "tx_fresh tx"
  shows "gave_back [] (armed metric_ok tx)"
    and "\<not> starts decision tx \<Longrightarrow> gave_back [] (FinishNoEndpoint (prepared decision (armed metric_ok tx)))"
proof -
  have fresh: "\<not> px_finished tx" "px_active_reservation (armed metric_ok tx) = None" "\<not> px_gateway_down tx"
    using assms by (auto simp: tx_fresh_def ProxyTransaction_new_def armed_def)
  then show "gave_back [] (armed metric_ok tx)" by (simp add: gave_back_def)
  assume "\<not> starts decision tx"
  then have "px_provider tx" "fst decision = None" using fresh by (auto simp: starts_def GatewayDown_def)
  then have "px_active_reservation (prepared decision (armed metric_ok tx)) = None"
    using fresh by (simp add: prepared_def Let_def)
  then show "gave_back [] (FinishNoEndpoint (prepared decision (armed metric_ok tx)))"
    using fresh by (simp add: gave_back_def FinishNoEndpoint_def Let_def)
qed

lemma fresh_watched: "tx_fresh tx \<Longrightarrow> watched [] (armed metric_ok tx)"
  by (auto simp: tx_fresh_def ProxyTransaction_new_def armed_def ArmTotalDeadline_def schedule_def put_out_def watched_def)

lemma watched_FinishNoEndpoint: "watched ss tx \<Longrightarrow> watched ss (FinishNoEndpoint tx)"
  by (simp add: watched_def FinishNoEndpoint_def Let_def)

lemma tx_run_resources:
  assumes "tx_run tx y" "tx_fresh tx"
  shows "accounts (if px_reservation tx then 1 else 0) (sy_selected y) (sy_tx y)" "gave_back (sy_selected y) (sy_tx y)"
    "watched (sy_selected y) (sy_tx y)"
proof -
  show "accounts (if px_reservation tx then 1 else 0) (sy_selected y) (sy_tx y)"
    by (rule resources.run [OF assms]) (simp_all add: fresh_accounts assms(2))
  show "gave_back (sy_selected y) (sy_tx y)"
    by (rule closing.run [OF assms]) (simp_all add: fresh_gave_back assms(2))
  show "watched (sy_selected y) (sy_tx y)"
    by (rule deadline.run [OF assms]) (simp_all add: fresh_watched watched_FinishNoEndpoint assms(2))
qed




text \<open>
  C39. Every run with timers is bounded by the total deadline: as long as the gateway is up and the
  transaction is not finished, the timer of the total deadline is pending exactly once, and when it
  fires the transaction finishes and a client that still exists is told the end.  A finished
  transaction leaves no such timer behind.
\<close>

theorem total_deadline_pending:
  assumes "tx_run tx y" "tx_fresh tx" "px_timers (sy_tx y)" "\<not> px_gateway_down (sy_tx y)"
  defines "fired \<equiv> deadline_fired TotalDeadline ((sy_tx y)\<lparr>px_pending := remove1 TotalDeadline (px_pending (sy_tx y))\<rparr>)"
  shows "count_list (px_pending (sy_tx y)) TotalDeadline = (if px_finished (sy_tx y) then 0 else 1)
    \<and> (\<not> px_finished (sy_tx y) \<longrightarrow> px_finished fired \<and> TotalDeadline \<notin> set (px_pending fired)
         \<and> (px_client_alive (sy_tx y) \<longrightarrow> client_phase (px_out fired) = Some Over))"
proof (intro conjI impI)
  have watched: "watched (sy_selected y) (sy_tx y)" by (rule tx_run_resources(3) [OF assms(1,2)])
  then show count: "count_list (px_pending (sy_tx y)) TotalDeadline = (if px_finished (sy_tx y) then 0 else 1)"
    using assms(3,4) by (simp add: watched_def)
  assume unfinished: "\<not> px_finished (sy_tx y)"
  show finished: "px_finished fired" using unfinished by (simp add: fired_def)
  have frame: "px_timers fired = px_timers (sy_tx y)" "px_gateway_down fired = px_gateway_down (sy_tx y)"
    "px_client_alive fired = px_client_alive (sy_tx y)"
    using deadline_fired_cases [of TotalDeadline "(sy_tx y)\<lparr>px_pending := remove1 TotalDeadline (px_pending (sy_tx y))\<rparr>"]
    by (auto simp: fired_def)
  show "TotalDeadline \<notin> set (px_pending fired)"
    using watched_fired [OF watched, of TotalDeadline, folded fired_def] finished assms(3,4) frame
    by (simp add: watched_def count_list_0_iff)
  have "TotalDeadline \<in> set (px_pending (sy_tx y))" using count unfinished by (metis count_list_0_iff zero_neq_one)
  from tx_step.deadline [OF this] have "relays (sy_exchange y) fired"
    using tx_run_relays [OF step_tx [OF assms(1)] assms(2)] by (fastforce simp: fired_def)
  then show "client_phase (px_out fired) = Some Over" if "px_client_alive (sy_tx y)"
    using that finished frame by (simp add: relays_finished told_def)
qed

section \<open>Concrete runs\<close>

text \<open>
  A GET request with a retry budget of one, attempts on two endpoints with breakers, and
  exchanges that are refused at once, that are answered at once, or that stay open.
\<close>

definition sample_policy :: upstream_policy where
  "sample_policy = \<lparr>up_connect_timeout = 1000, up_first_byte_timeout = 2000, up_total_timeout = 5000,
     up_retry_budget = 1, up_retry_endpoints = []\<rparr>"

definition sample_tx :: proxy_transaction where
  "sample_tx = (ProxyTransaction_new sample_get None sample_policy True True True True True True)\<lparr>px_client := []\<rparr>"

definition sample_decision :: "nat \<Rightarrow> attempt_decision" where
  "sample_decision i =
     (Some \<lparr>at_endpoint = rt_endpoints (cfg_routes sample_config ! 0) ! i,
        at_link = Some \<lparr>bl_route_index = 0, bl_endpoint_index = i,
          bl_permit = \<lparr>ap_probe = False, ap_generation = 1, ap_probe_id = 0\<rparr>,
          bl_outcome_reservation = \<lparr>rv_state = True, rv_finalized = False\<rparr>\<rparr>,
        at_active = Some (0, i)\<rparr>, False)"



definition open_start :: start_answer where
  "open_start = \<lparr>sa_calls = [], sa_throws = False\<rparr>"


definition run_first :: "start_answer \<Rightarrow> exchange \<Rightarrow> tx_system" where
  "run_first answer x = tx_begin True (sample_decision 0) answer x sample_tx"



lemma sample_fresh: "tx_fresh sample_tx"
  unfolding tx_fresh_def sample_tx_def by blast

lemma sample_decision_ok: "decision_ok (sample_decision i)"
  by (simp add: decision_ok_def sample_decision_def)


lemma run_first_run: "exchange_started answer = Some x \<Longrightarrow> tx_run sample_tx (run_first answer x)"
  unfolding run_first_def by (rule begin_tx [OF sample_decision_ok])







theorem total_deadline_pending_witness:
  "count_list (px_pending (sy_tx (run_first open_start ExStarted))) TotalDeadline = 1
   \<and> client_phase (px_out (deadline_fired TotalDeadline ((sy_tx (run_first open_start ExStarted))
        \<lparr>px_pending := remove1 TotalDeadline (px_pending (sy_tx (run_first open_start ExStarted)))\<rparr>))) = Some Over"
proof -
  have "exchange_started open_start = Some ExStarted" by code_simp
  note run = run_first_run [OF this]
  have "px_timers (sy_tx (run_first open_start ExStarted))" "\<not> px_gateway_down (sy_tx (run_first open_start ExStarted))"
    "\<not> px_finished (sy_tx (run_first open_start ExStarted))" "px_client_alive (sy_tx (run_first open_start ExStarted))" by code_simp+
  with total_deadline_pending [OF run sample_fresh] show ?thesis by simp
qed

end
