(* ===== verification/Spec2Isabelle.thy ===== *)
theory Spec2Isabelle
  imports Admission BreakerCycle BreakerWindow Routing CoordProbe OutcomeChannel
    HttpRoundTrip HttpResponses UpstreamConnection TimerQueue WorkerRuntime CoordRecovery ProxyAccounts
begin

text \<open>
  A verification development for AegisGate, an HTTP/1.1 reverse proxy.
\<close>

end
